(* ===== verification/Pr_Prelude.thy ===== *)
theory Pr_Prelude
  imports Main "HOL-Library.Word"
begin

text \<open>
  Shared vocabulary of the development: the \<open>errno\<close> values the C code sets, the result type of a
  fallible call, the treatment of \<open>NULL\<close> arguments, and generic facts about lists and options that
  the component theories use.
\<close>

section \<open>Results and errors\<close>

text \<open>
  The C functions signal failure by returning \<open>-1\<close> or \<open>NULL\<close> with \<open>errno\<close> set. A fallible call is
  modelled by a sum: \<open>Inl e\<close> is the failure return with \<open>errno = e\<close>, \<open>Inr v\<close> the successful
  return of \<open>v\<close>. Memory allocation from a pool never fails in the program (\<open>pool.c\<close> terminates the
  process when \<open>malloc\<close> fails), so no such error is modelled.
\<close>

datatype errno =
    EINVAL
  | ENOENT
  | EPERM
  | EEXIST
  | ENOSPC
  | EACCES
  | ERANGE
  | EINTR
  | ENOSYS
  | E2BIG
  | EAFNOSUPPORT
  | ENOTDIR
  | EISDIR
  | ELOOP
  | EBADF
  | EIO
  | ENAMETOOLONG
  | ENOMEM
  | EBADMSG

type_synonym 'a result = "errno + 'a"

text \<open>
  A pointer argument that the callee checks against \<open>NULL\<close> is an \<open>option\<close>. An operation on an object
  reached through such a pointer returns its result and the object; \<open>with_obj\<close> is the common guard
  \<open>if (obj == NULL) { errno = EINVAL; return -1; }\<close>.
\<close>

fun with_obj :: "'s option \<Rightarrow> ('s \<Rightarrow> 'a result \<times> 's) \<Rightarrow> 'a result \<times> 's option" where
  "with_obj None f = (Inl EINVAL, None)"
| "with_obj (Some s) f = (let (r, s') = f s in (r, Some s'))"

text \<open>An operation may also run into undefined behaviour of C, a dereference of \<open>NULL\<close>. Such an
  operation returns an \<open>option\<close>, with \<open>None\<close> for the fault.\<close>

fun with_objx ::
  "'s option \<Rightarrow> ('s \<Rightarrow> ('a result \<times> 's) option) \<Rightarrow> ('a result \<times> 's option) option" where
  "with_objx None f = Some (Inl EINVAL, None)"
| "with_objx (Some s) f =
     (case f s of None \<Rightarrow> None | Some (r, s') \<Rightarrow> Some (r, Some s'))"

section \<open>C strings and memory\<close>

text \<open>A pointer whose identity the code compares is an address paired with what it points to.\<close>

type_synonym 'a ptr = "nat \<times> 'a"

abbreviation addr :: "'a ptr \<Rightarrow> nat" where "addr \<equiv> fst"
abbreviation pointee :: "'a ptr \<Rightarrow> 'a" where "pointee \<equiv> snd"

abbreviation NUL :: char where "NUL \<equiv> CHR 0x00"

text \<open>Plain \<open>char\<close> is signed, as on the platforms the server is built for with gcc.\<close>

definition schar :: "char \<Rightarrow> int" where
  "schar c = (let n = (of_char c :: int) in if n < 128 then n else n - 256)"

definition uchar :: "char \<Rightarrow> nat" where
  "uchar c = of_char c"

text \<open>\<open>strlen\<close>, \<open>strncmp\<close> and \<open>strcmp\<close> on the bytes at a pointer. A byte past the end of the list is not
  there to be read; it is taken as \<open>NUL\<close>, so that a terminated list and its text compare alike.\<close>

definition c_strlen :: "string \<Rightarrow> nat" where
  "c_strlen s = length (takeWhile (\<lambda>c. c \<noteq> NUL) s)"

fun hd0 :: "string \<Rightarrow> char" where
  "hd0 [] = NUL"
| "hd0 (c # cs) = c"

fun c_strncmp :: "string \<Rightarrow> string \<Rightarrow> nat \<Rightarrow> int" where
  "c_strncmp xs ys 0 = 0"
| "c_strncmp xs ys (Suc n) =
     (if hd0 xs \<noteq> hd0 ys then (if uchar (hd0 xs) < uchar (hd0 ys) then -1 else 1)
      else if hd0 xs = NUL then 0
      else c_strncmp (tl xs) (tl ys) n)"

text \<open>The text up to the first \<open>NUL\<close>, which is all the C string functions see.\<close>

definition c_text :: "string \<Rightarrow> string" where
  "c_text s = takeWhile (\<lambda>c. c \<noteq> NUL) s"

named_theorems pr_defs \<open>definitions of the modelled operations\<close>

section \<open>Generic facts\<close>

lemma uchar_eq_iff [simp]: "uchar a = uchar b \<longleftrightarrow> a = b"
  by (simp add: uchar_def)

lemma of_char_int_bounds: "0 \<le> (of_char c :: int)" "(of_char c :: int) < 256"
proof -
  have "(of_char c :: int) = of_char c mod 256" by (simp only: of_char_mod_256)
  then show "0 \<le> (of_char c :: int)" "(of_char c :: int) < 256" by presburger+
qed

lemma schar_eq_iff [simp]: "schar a = schar b \<longleftrightarrow> a = b"
  using of_char_int_bounds [of a] of_char_int_bounds [of b]
  by (auto simp: schar_def Let_def dest: of_char_eqI split: if_splits)

lemma c_strncmp_zero_iff:
  "c_strncmp xs ys n = 0 \<longleftrightarrow> take n (c_text xs) = take n (c_text ys)"
proof (induction xs ys n rule: c_strncmp.induct)
  case (2 xs ys n)
  show ?case
    by (cases xs; cases ys) (use 2 in \<open>auto simp: c_text_def\<close>)
qed simp

lemma c_strlen_text: "c_strlen s = length (c_text s)"
  by (simp add: c_strlen_def c_text_def)

lemma c_text_no_nul [simp]: "NUL \<notin> set s \<Longrightarrow> c_text s = s" "NUL \<notin> set s \<Longrightarrow> c_text (s @ NUL # t) = s"
  by (induction s) (auto simp: c_text_def)

lemma with_objx_Some [simp]:
  "f s = Some (r, s') \<Longrightarrow> with_objx (Some s) f = Some (r, Some s')"
  by simp

lemma with_obj_Some [simp]:
  "f s = (r, s') \<Longrightarrow> with_obj (Some s) f = (r, Some s')"
  by simp

lemma filter_eq_self_iff: "filter P xs = xs \<longleftrightarrow> (\<forall>x \<in> set xs. P x)"
  by (metis filter_id_conv)

lemma sorted_wrt_filter: "sorted_wrt R xs \<Longrightarrow> sorted_wrt R (filter P xs)"
  by (induction xs) auto

lemma takeWhile_eq_self_iff: "takeWhile P xs = xs \<longleftrightarrow> (\<forall>x \<in> set xs. P x)"
  by (metis takeWhile_eq_all_conv)

end
