(* ===== verification/Sets.thy ===== *)
theory Sets
  imports Pr_Prelude
begin

text \<open>
  The generic set library of \<open>src/sets.c\<close>: intrusive doubly-linked lists of members, modelled at the
  level of pointers. A member is an address (\<open>nat\<close>); the store \<open>xmem\<close> gives the \<open>next\<close> and \<open>prev\<close>
  fields of every member. The list-level functions \<open>xs_insert_sort\<close> etc. specify what the pointer
  code computes; the refinement lemmas connect the two, and the theories of the clients (timers,
  responses, ...) work with the list level.
\<close>

section \<open>The pointer-level model\<close>

text \<open>\<open>struct XAsetmember\<close> and \<open>struct XAset\<close> of \<open>include/sets.h\<close>. The compare callback reads the
  payload of two members, which no set operation changes, so it is a function of the two addresses.\<close>

record xasetmember =
  xm_next :: "nat option"
  xm_prev :: "nat option"

type_synonym xmem = "nat \<Rightarrow> xasetmember"

record xaset =
  xas_list :: "nat option"
  xas_compare :: "(nat \<Rightarrow> nat \<Rightarrow> int) option"

text \<open>A C lvalue of type \<open>xasetmember_t *\<close> that the loops walk over with a pointer to pointer: the
  head field of the set, or the \<open>next\<close> field of a member.\<close>

datatype xloc = Head | NextOf nat

fun xderef :: "xmem \<Rightarrow> xaset \<Rightarrow> xloc \<Rightarrow> nat option" where
  "xderef h s Head = xas_list s"
| "xderef h s (NextOf a) = xm_next (h a)"

fun xassign :: "xmem \<Rightarrow> xaset \<Rightarrow> xloc \<Rightarrow> nat option \<Rightarrow> xmem \<times> xaset" where
  "xassign h s Head v = (h, s\<lparr>xas_list := v\<rparr>)"
| "xassign h s (NextOf a) v = (h(a := (h a)\<lparr>xm_next := v\<rparr>), s)"

definition set_next :: "nat \<Rightarrow> nat option \<Rightarrow> xmem \<Rightarrow> xmem" where
  "set_next a v h = h(a := (h a)\<lparr>xm_next := v\<rparr>)"

definition set_prev :: "nat \<Rightarrow> nat option \<Rightarrow> xmem \<Rightarrow> xmem" where
  "set_prev a v h = h(a := (h a)\<lparr>xm_prev := v\<rparr>)"

fun set_prev_opt :: "nat option \<Rightarrow> nat option \<Rightarrow> xmem \<Rightarrow> xmem" where
  "set_prev_opt None v h = h"
| "set_prev_opt (Some a) v h = set_prev a v h"

text \<open>\<open>xaset_create\<close>: the permanent pool exists while the server runs, so a \<open>NULL\<close> pool argument
  fails only when \<open>permanent_pool\<close> is \<open>NULL\<close> too.\<close>

definition xaset_create :: "bool \<Rightarrow> bool \<Rightarrow> (nat \<Rightarrow> nat \<Rightarrow> int) option \<Rightarrow> xaset result" where
  "xaset_create have_pool have_permanent cmpfunc =
     (if \<not> have_pool \<and> \<not> have_permanent then Inl EPERM
      else Inr \<lparr>xas_list = None, xas_compare = cmpfunc\<rparr>)"

definition xaset_insert ::
  "xmem \<Rightarrow> xaset option \<Rightarrow> nat option \<Rightarrow> unit result \<times> xmem \<times> xaset option" where
  "xaset_insert h st member =
     (case (st, member) of
        (Some s, Some m) \<Rightarrow>
          (let h1 = set_next m (xas_list s) h;
               h2 = set_prev_opt (xas_list s) (Some m) h1
           in (Inr (), h2, Some (s\<lparr>xas_list := Some m\<rparr>)))
      | _ \<Rightarrow> (Inl EINVAL, h, st))"

text \<open>The loop of \<open>xaset_insert_end\<close>: it returns the final \<open>tmp\<close> and \<open>prev\<close>.\<close>

partial_function (option) xaset_end_loop ::
  "xmem \<Rightarrow> xaset \<Rightarrow> xloc \<Rightarrow> nat option \<Rightarrow> (xloc \<times> nat option) option" where
  "xaset_end_loop h s tmp prv =
     (case xderef h s tmp of
        None \<Rightarrow> Some (tmp, prv)
      | Some a \<Rightarrow> xaset_end_loop h s (NextOf a) (Some a))"

definition xaset_insert_end ::
  "xmem \<Rightarrow> xaset option \<Rightarrow> nat option \<Rightarrow> (unit result \<times> xmem \<times> xaset option) option" where
  "xaset_insert_end h st member =
     (case (st, member) of
        (Some s, Some m) \<Rightarrow>
          (case xaset_end_loop h s Head None of
             None \<Rightarrow> None
           | Some (tmp, prv) \<Rightarrow>
               (let (h1, s1) = xassign h s tmp (Some m);
                    h2 = set_prev m prv h1;
                    h3 = set_next m None h2;
                    h4 = (case prv of None \<Rightarrow> h3 | Some q \<Rightarrow> set_next q (Some m) h3)
                in Some (Inr (), h4, Some s1)))
      | _ \<Rightarrow> Some (Inl EINVAL, h, st))"

text \<open>The loop of \<open>xaset_insert_sort\<close>: \<open>Inl\<close> is the early \<open>return 0\<close> on a duplicate, \<open>Inr\<close> the
  final \<open>setp\<close> and \<open>mprev\<close>.\<close>

partial_function (option) xaset_sort_loop ::
  "xmem \<Rightarrow> xaset \<Rightarrow> (nat \<Rightarrow> nat \<Rightarrow> int) \<Rightarrow> nat \<Rightarrow> bool \<Rightarrow> xloc \<Rightarrow> nat option \<Rightarrow>
   (unit + xloc \<times> nat option) option" where
  "xaset_sort_loop h s cmp m dups setp mprev =
     (case xderef h s setp of
        None \<Rightarrow> Some (Inr (setp, mprev))
      | Some a \<Rightarrow>
          (let res = cmp m a in
           if res \<le> 0 then
             (if res = 0 \<and> \<not> dups then Some (Inl ()) else Some (Inr (setp, mprev)))
           else xaset_sort_loop h s cmp m dups (NextOf a) (Some a)))"

definition xaset_insert_sort ::
  "xmem \<Rightarrow> xaset option \<Rightarrow> nat option \<Rightarrow> bool \<Rightarrow>
   (unit result \<times> xmem \<times> xaset option) option" where
  "xaset_insert_sort h st member dups_allowed =
     (case (st, member) of
        (Some s, Some m) \<Rightarrow>
          (case xas_compare s of
             None \<Rightarrow> Some (Inl EINVAL, h, st)
           | Some cmp \<Rightarrow>
               (case xaset_sort_loop h s cmp m dups_allowed Head None of
                  None \<Rightarrow> None
                | Some (Inl _) \<Rightarrow> Some (Inr (), h, st)
                | Some (Inr (setp, mprev)) \<Rightarrow>
                    (let h1 = set_prev_opt (xderef h s setp) (Some m) h;
                         h2 = set_prev m mprev h1;
                         h3 = set_next m (xderef h2 s setp) h2;
                         (h4, s4) = xassign h3 s setp (Some m)
                     in Some (Inr (), h4, Some s4))))
      | _ \<Rightarrow> Some (Inl EINVAL, h, st))"

text \<open>The membership scan of \<open>xaset_remove\<close>.\<close>

partial_function (option) xaset_find_loop ::
  "xmem \<Rightarrow> nat \<Rightarrow> nat option \<Rightarrow> bool option" where
  "xaset_find_loop h member m =
     (case m of
        None \<Rightarrow> Some False
      | Some a \<Rightarrow> if a = member then Some True else xaset_find_loop h member (xm_next (h a)))"

definition xaset_remove ::
  "xmem \<Rightarrow> xaset option \<Rightarrow> nat option \<Rightarrow> (unit result \<times> xmem \<times> xaset option) option" where
  "xaset_remove h st member =
     (case (st, member) of
        (Some s, Some m) \<Rightarrow>
          (case xaset_find_loop h m (xas_list s) of
             None \<Rightarrow> None
           | Some False \<Rightarrow> Some (Inl ENOENT, h, st)
           | Some True \<Rightarrow>
               (let (h1, s1) =
                      (case xm_prev (h m) of
                         Some q \<Rightarrow> (set_next q (xm_next (h m)) h, s)
                       | None \<Rightarrow> (h, s\<lparr>xas_list := xm_next (h m)\<rparr>));
                    h2 = set_prev_opt (xm_next (h1 m)) (xm_prev (h1 m)) h1;
                    h3 = h2(m := \<lparr>xm_next = None, xm_prev = None\<rparr>)
                in Some (Inr (), h3, Some s1)))
      | _ \<Rightarrow> Some (Inl EINVAL, h, st))"

text \<open>The loop of \<open>xaset_copy\<close>. The argument \<open>cp\<close> gives the address of the copy of a member: what
  \<open>copyfunc\<close> returns when there is one (\<open>None\<close> is its \<open>NULL\<close>), and otherwise the block from \<open>palloc\<close>
  that \<open>memcpy\<close> fills. The copied links are overwritten at once, so only they are written here.\<close>

partial_function (option) xaset_copy_loop ::
  "(nat \<Rightarrow> nat option) \<Rightarrow> xmem \<Rightarrow> xaset \<Rightarrow> xloc \<Rightarrow> nat option \<Rightarrow> (xmem \<times> xaset option) option" where
  "xaset_copy_loop cp h new_set pos m =
     (case m of
        None \<Rightarrow> Some (h, Some new_set)
      | Some a \<Rightarrow>
          (case cp a of
             None \<Rightarrow> Some (h, None)
           | Some n \<Rightarrow>
               (let h1 = set_prev n (xderef h new_set pos) h;
                    h2 = set_next n None h1;
                    pos' = (case xderef h2 new_set pos of None \<Rightarrow> pos | Some b \<Rightarrow> NextOf b);
                    hs = xassign h2 new_set pos' (Some n)
                in xaset_copy_loop cp (fst hs) (snd hs) pos' (xm_next (fst hs a)))))"

definition xaset_copy ::
  "(nat \<Rightarrow> nat option) option \<Rightarrow> (nat \<Rightarrow> nat) \<Rightarrow> nat \<Rightarrow> xmem \<Rightarrow> xaset option \<Rightarrow>
   ((xmem \<times> xaset option) result) option" where
  "xaset_copy copyfunc palloc msize h st =
     (case st of
        None \<Rightarrow> Some (Inl EINVAL)
      | Some s \<Rightarrow>
          (if copyfunc = None \<and> msize = 0 then Some (Inl EINVAL)
           else
             (let cp = (case copyfunc of Some f \<Rightarrow> f | None \<Rightarrow> (\<lambda>a. Some (palloc a)));
                  new_set = \<lparr>xas_list = None, xas_compare = xas_compare s\<rparr>
              in map_option Inr (xaset_copy_loop cp h new_set Head (xas_list s)))))"

section \<open>The list-level specification\<close>

text \<open>A sorted insertion goes before the first member that does not compare less; with
  \<open>dups_allowed\<close> false a member comparing equal there makes it a no-op.\<close>

fun xs_insert_sort :: "('a \<Rightarrow> 'a \<Rightarrow> int) \<Rightarrow> bool \<Rightarrow> 'a \<Rightarrow> 'a list \<Rightarrow> 'a list" where
  "xs_insert_sort cmp dups m [] = [m]"
| "xs_insert_sort cmp dups m (x # xs) =
     (if cmp m x \<le> 0 then (if cmp m x = 0 \<and> \<not> dups then x # xs else m # x # xs)
      else x # xs_insert_sort cmp dups m xs)"

text \<open>\<open>dseg h q p xs r\<close>: the chain that starts at \<open>p\<close>, with \<open>q\<close> as the \<open>prev\<close> of its first member,
  visits exactly \<open>xs\<close> and leads to \<open>r\<close>.\<close>

fun dseg :: "xmem \<Rightarrow> nat option \<Rightarrow> nat option \<Rightarrow> nat list \<Rightarrow> nat option \<Rightarrow> bool" where
  "dseg h q p [] r \<longleftrightarrow> p = r"
| "dseg h q p (x # xs) r \<longleftrightarrow>
     p = Some x \<and> xm_prev (h x) = q \<and> dseg h (Some x) (xm_next (h x)) xs r"

definition xrep :: "xmem \<Rightarrow> xaset \<Rightarrow> nat list \<Rightarrow> bool" where
  "xrep h s xs \<longleftrightarrow> dseg h None (xas_list s) xs None \<and> distinct xs"

definition last_or :: "nat option \<Rightarrow> nat list \<Rightarrow> nat option" where
  "last_or q xs = (if xs = [] then q else Some (last xs))"

definition loc_after :: "xloc \<Rightarrow> nat list \<Rightarrow> xloc" where
  "loc_after l xs = (if xs = [] then l else NextOf (last xs))"

lemma last_or_simps [simp]:
  "last_or q [] = q" "last_or q (x # xs) = last_or (Some x) xs"
  by (auto simp: last_or_def)

lemma loc_after_simps [simp]:
  "loc_after l [] = l" "loc_after l (x # xs) = loc_after (NextOf x) xs"
  by (auto simp: loc_after_def)

lemma dseg_append:
  "dseg h q p (xs @ ys) r \<longleftrightarrow> (\<exists>m. dseg h q p xs m \<and> dseg h (last_or q xs) m ys r)"
  by (induction xs arbitrary: q p) auto

lemma dseg_frame: "a \<notin> set xs \<Longrightarrow> dseg (h(a := v)) q p xs r = dseg h q p xs r"
  by (induction xs arbitrary: q p) auto

lemma dseg_set_next_frame [simp]: "a \<notin> set xs \<Longrightarrow> dseg (set_next a v h) q p xs r = dseg h q p xs r"
  and dseg_set_prev_frame [simp]: "a \<notin> set xs \<Longrightarrow> dseg (set_prev a v h) q p xs r = dseg h q p xs r"
  by (simp_all add: set_next_def set_prev_def dseg_frame)

lemma dseg_set_next_last:
  "distinct xs \<Longrightarrow> xs \<noteq> [] \<Longrightarrow> dseg h q p xs m \<Longrightarrow> dseg (set_next (last xs) v h) q p xs v"
  by (induction xs arbitrary: q p) (auto simp: set_next_def)

lemma dseg_set_prev_hd:
  "y \<notin> set ys \<Longrightarrow> dseg h q p (y # ys) r \<Longrightarrow> dseg (set_prev y v h) v p (y # ys) r"
  by (simp, simp add: set_prev_def dseg_frame)

section \<open>Linking and unlinking\<close>

definition first_of :: "nat list \<Rightarrow> nat option" where
  "first_of xs = (case xs of [] \<Rightarrow> None | x # _ \<Rightarrow> Some x)"

lemma first_of_simps [simp]: "first_of [] = None" "first_of (x # xs) = Some x"
  by (simp_all add: first_of_def)

lemma dseg_first: "dseg h q p xs None \<Longrightarrow> p = first_of xs"
  by (cases xs) auto

lemma dseg_prefix_cong:
  assumes "dseg h q p xs r" and "distinct xs"
    and "\<And>a. a \<in> set xs \<Longrightarrow> xm_prev (h' a) = xm_prev (h a)"
    and "\<And>a. a \<in> set xs \<Longrightarrow> xm_next (h' a) = (if a = last xs then r' else xm_next (h a))"
  shows "dseg h' q (if xs = [] then r' else p) xs r'"
  using assms
proof (induction xs arbitrary: q p)
  case Nil
  then show ?case by simp
next
  case (Cons x xs)
  have "dseg h' (Some x) (if xs = [] then r' else xm_next (h x)) xs r'"
    using Cons.prems by (intro Cons.IH) (auto split: if_splits)
  moreover have "xm_next (h' x) = (if xs = [] then r' else xm_next (h x))"
    using Cons.prems by auto
  ultimately show ?case using Cons.prems(1,3) by (simp split: if_splits)
qed

lemma dseg_suffix_cong:
  assumes "dseg h q p ys None" and "distinct ys"
    and "\<And>a. a \<in> set ys \<Longrightarrow> xm_next (h' a) = xm_next (h a)"
    and "\<And>a. a \<in> set ys \<Longrightarrow> xm_prev (h' a) = (if a = hd ys then q' else xm_prev (h a))"
  shows "dseg h' q' (first_of ys) ys None"
proof -
  have same: "dseg h' q p zs None = dseg h q p zs None"
    if "\<And>a. a \<in> set zs \<Longrightarrow> xm_next (h' a) = xm_next (h a) \<and> xm_prev (h' a) = xm_prev (h a)"
    for q p zs
    using that by (induction zs arbitrary: q p) auto
  show ?thesis
  proof (cases ys)
    case (Cons y zs)
    have "dseg h' (Some y) (xm_next (h y)) zs None = dseg h (Some y) (xm_next (h y)) zs None"
      using assms(2-4) Cons by (intro same) auto
    then show ?thesis using assms Cons by auto
  qed simp
qed

lemma xrep_link:
  assumes rep: "xrep h s (xs @ ys)" and m: "m \<notin> set (xs @ ys)"
    and "xm_next (h' m) = first_of ys" and "xm_prev (h' m) = last_or None xs"
    and "\<And>a. a \<in> set xs \<Longrightarrow> xm_prev (h' a) = xm_prev (h a)"
    and "\<And>a. a \<in> set xs \<Longrightarrow> xm_next (h' a) = (if a = last xs then Some m else xm_next (h a))"
    and "\<And>a. a \<in> set ys \<Longrightarrow> xm_next (h' a) = xm_next (h a)"
    and "\<And>a. a \<in> set ys \<Longrightarrow> xm_prev (h' a) = (if a = hd ys then Some m else xm_prev (h a))"
    and "xas_list s' = (if xs = [] then Some m else xas_list s)"
  shows "xrep h' s' (xs @ m # ys)"
proof -
  obtain mid where xs: "dseg h None (xas_list s) xs mid"
    and ys: "dseg h (last_or None xs) mid ys None" and d: "distinct (xs @ ys)"
    using rep by (auto simp: xrep_def dseg_append)
  have "dseg h' None (if xs = [] then Some m else xas_list s) xs (Some m)"
    using xs d assms(5,6) by (intro dseg_prefix_cong) auto
  moreover have "dseg h' (Some m) (first_of ys) ys None"
    using ys d assms(7,8) by (intro dseg_suffix_cong) auto
  ultimately show ?thesis using assms(2-4,9) d by (auto simp: xrep_def dseg_append)
qed

lemma xrep_unlink:
  assumes rep: "xrep h s (xs @ m # ys)"
    and "\<And>a. a \<in> set xs \<Longrightarrow> xm_prev (h' a) = xm_prev (h a)"
    and "\<And>a. a \<in> set xs \<Longrightarrow>
           xm_next (h' a) = (if a = last xs then first_of ys else xm_next (h a))"
    and "\<And>a. a \<in> set ys \<Longrightarrow> xm_next (h' a) = xm_next (h a)"
    and "\<And>a. a \<in> set ys \<Longrightarrow>
           xm_prev (h' a) = (if a = hd ys then last_or None xs else xm_prev (h a))"
    and "xas_list s' = (if xs = [] then first_of ys else xas_list s)"
  shows "xrep h' s' (xs @ ys)"
proof -
  obtain mid where xs: "dseg h None (xas_list s) xs mid"
    and ys: "dseg h (Some m) (xm_next (h m)) ys None" and d: "distinct (xs @ m # ys)"
    using rep by (auto simp: xrep_def dseg_append)
  have "dseg h' None (if xs = [] then first_of ys else xas_list s) xs (first_of ys)"
    using xs d assms(2,3) by (intro dseg_prefix_cong) auto
  moreover have "dseg h' (last_or None xs) (first_of ys) ys None"
    using ys d assms(4,5) by (intro dseg_suffix_cong) auto
  ultimately show ?thesis using assms(6) d by (auto simp: xrep_def dseg_append)
qed

section \<open>The loops terminate on a well-formed set\<close>

lemma xaset_end_loop_returns:
  "dseg h q (xderef h s tmp) xs None \<Longrightarrow>
   xaset_end_loop h s tmp q = Some (loc_after tmp xs, last_or q xs)"
proof (induction xs arbitrary: q tmp)
  case Nil
  then show ?case by (simp add: xaset_end_loop.simps)
next
  case (Cons x xs)
  then show ?case by (simp add: xaset_end_loop.simps [of h s tmp q])
qed

definition xs_before :: "('a \<Rightarrow> 'a \<Rightarrow> int) \<Rightarrow> 'a \<Rightarrow> 'a list \<Rightarrow> 'a list" where
  "xs_before cmp m xs = takeWhile (\<lambda>a. 0 < cmp m a) xs"

definition xs_from :: "('a \<Rightarrow> 'a \<Rightarrow> int) \<Rightarrow> 'a \<Rightarrow> 'a list \<Rightarrow> 'a list" where
  "xs_from cmp m xs = dropWhile (\<lambda>a. 0 < cmp m a) xs"

definition xs_dup :: "('a \<Rightarrow> 'a \<Rightarrow> int) \<Rightarrow> bool \<Rightarrow> 'a \<Rightarrow> 'a list \<Rightarrow> bool" where
  "xs_dup cmp dups m xs \<longleftrightarrow> (case xs_from cmp m xs of [] \<Rightarrow> False | a # _ \<Rightarrow> cmp m a = 0 \<and> \<not> dups)"

lemma xs_split [simp]: "xs_before cmp m xs @ xs_from cmp m xs = xs"
  by (simp add: xs_before_def xs_from_def)

lemma xs_insert_sort_split:
  "xs_insert_sort cmp dups m xs =
     (if xs_dup cmp dups m xs then xs else xs_before cmp m xs @ m # xs_from cmp m xs)"
  by (induction xs) (auto simp: xs_dup_def xs_before_def xs_from_def)

lemma xaset_sort_loop_returns:
  "dseg h q (xderef h s setp) xs None \<Longrightarrow>
   xaset_sort_loop h s cmp m dups setp q =
     Some (if xs_dup cmp dups m xs then Inl ()
           else Inr (loc_after setp (xs_before cmp m xs), last_or q (xs_before cmp m xs)))"
proof (induction xs arbitrary: q setp)
  case Nil
  then show ?case by (simp add: xaset_sort_loop.simps xs_dup_def xs_before_def xs_from_def)
next
  case (Cons x xs)
  then show ?case
    by (auto simp: xaset_sort_loop.simps [of h s cmp m dups setp q] xs_dup_def xs_before_def
        xs_from_def Let_def)
qed

lemma xaset_find_loop_returns:
  "dseg h q p xs None \<Longrightarrow> xaset_find_loop h m p = Some (m \<in> set xs)"
proof (induction xs arbitrary: q p)
  case Nil
  then show ?case by (simp add: xaset_find_loop.simps)
next
  case (Cons x xs)
  then show ?case by (auto simp: xaset_find_loop.simps [of h m "Some x"])
qed

lemma xderef_loc_after:
  "dseg h q (xderef h s l) (xs @ ys) None \<Longrightarrow> xderef h s (loc_after l xs) = first_of ys"
  by (induction xs arbitrary: q l) (auto dest: dseg_first)

section \<open>Refinement of the operations\<close>

lemmas xheap_defs = set_next_def set_prev_def Let_def

lemma set_prev_opt_apply:
  "set_prev_opt q v h a = (if q = Some a then (h a)\<lparr>xm_prev := v\<rparr> else h a)"
  by (cases q) (auto simp: set_prev_def)

lemma xaset_insert_correct:
  assumes "xrep h s xs" and "m \<notin> set xs" and "xm_prev (h m) = None"
  shows "\<exists>h' s'. xaset_insert h (Some s) (Some m) = (Inr (), h', Some s') \<and> xrep h' s' (m # xs)"
proof -
  let ?h' = "set_prev_opt (xas_list s) (Some m) (set_next m (xas_list s) h)"
  have hd: "xas_list s = first_of xs" using assms(1) by (auto simp: xrep_def dest: dseg_first)
  have "xrep ?h' (s\<lparr>xas_list := Some m\<rparr>) ([] @ m # xs)"
    by (rule xrep_link [of h s])
      (use assms in \<open>auto simp: hd set_prev_opt_apply set_next_def first_of_def split: list.splits\<close>)
  then show ?thesis by (simp add: xaset_insert_def Let_def)
qed

lemma xaset_insert_end_correct:
  assumes "xrep h s xs" and "m \<notin> set xs"
  shows "\<exists>h' s'. xaset_insert_end h (Some s) (Some m) = Some (Inr (), h', Some s') \<and>
           xrep h' s' (xs @ [m]) \<and> xas_compare s' = xas_compare s"
proof -
  have seg: "dseg h None (xderef h s Head) xs None" using assms(1) by (simp add: xrep_def)
  show ?thesis
  proof (cases xs rule: rev_cases)
    case Nil
    have "xrep (set_next m None (set_prev m None h)) (s\<lparr>xas_list := Some m\<rparr>) ([] @ m # [])"
      by (rule xrep_link [of h s]) (use assms Nil in \<open>auto simp: xheap_defs\<close>)
    then show ?thesis
      using Nil xaset_end_loop_returns [OF seg] by (simp add: xaset_insert_end_def Let_def)
  next
    case (snoc ys y)
    let ?h' = "set_next y (Some m) (set_next m None (set_prev m (Some y)
                 (h(y := (h y)\<lparr>xm_next := Some m\<rparr>))))"
    have "xrep ?h' s (xs @ m # [])"
      by (rule xrep_link [of h s]) (use assms snoc in \<open>auto simp: xheap_defs last_or_def\<close>)
    then show ?thesis
      using snoc xaset_end_loop_returns [OF seg]
      by (simp add: xaset_insert_end_def Let_def last_or_def loc_after_def)
  qed
qed

lemma xrep_link_at:
  assumes "xrep h s (b @ f)" and "m \<notin> set (b @ f)"
    and h3: "h3 = set_next m (first_of f)
                    (set_prev m (last_or None b) (set_prev_opt (first_of f) (Some m) h))"
  shows "xrep (fst (xassign h3 s (loc_after Head b) (Some m)))
              (snd (xassign h3 s (loc_after Head b) (Some m))) (b @ m # f)"
proof -
  have d: "distinct (b @ f)" using assms(1) by (simp add: xrep_def)
  show ?thesis
  proof (cases b rule: rev_cases)
    case Nil
    show ?thesis
      by (rule xrep_link [of h s])
        (use assms d Nil in \<open>auto simp: xheap_defs set_prev_opt_apply first_of_def
          split: list.splits\<close>)
  next
    case (snoc c q)
    show ?thesis
      by (rule xrep_link [of h s])
        (use assms d snoc in \<open>auto simp: loc_after_def last_or_def xheap_defs set_prev_opt_apply
          first_of_def split: list.splits\<close>)
  qed
qed

lemma xaset_insert_sort_correct:
  assumes "xrep h s xs" and "m \<notin> set xs" and "xas_compare s = Some cmp"
  shows "\<exists>h' s'. xaset_insert_sort h (Some s) (Some m) dups = Some (Inr (), h', Some s') \<and>
           xrep h' s' (xs_insert_sort cmp dups m xs) \<and> xas_compare s' = Some cmp"
proof -
  let ?b = "xs_before cmp m xs" and ?f = "xs_from cmp m xs"
  let ?l = "loc_after Head ?b"
  have seg: "dseg h None (xderef h s Head) xs None" using assms(1) by (simp add: xrep_def)
  have at: "xderef h s ?l = first_of ?f"
    by (rule xderef_loc_after [where q = None]) (use seg in simp)
  have sp: "set xs = set ?b \<union> set ?f" by (metis set_append xs_split)
  show ?thesis
  proof (cases "xs_dup cmp dups m xs")
    case True
    then show ?thesis
      using assms xaset_sort_loop_returns [OF seg, of cmp m dups]
      by (simp add: xaset_insert_sort_def xs_insert_sort_split)
  next
    case False
    let ?h2 = "set_prev m (last_or None ?b) (set_prev_opt (first_of ?f) (Some m) h)"
    let ?h3 = "set_next m (first_of ?f) ?h2"
    have same: "xderef ?h2 s ?l = first_of ?f"
      using at sp assms(2) by (cases ?l) (auto simp: set_prev_opt_apply set_prev_def)
    have "xrep (fst (xassign ?h3 s ?l (Some m))) (snd (xassign ?h3 s ?l (Some m))) (?b @ m # ?f)"
      by (rule xrep_link_at [OF _ _ refl]) (use assms(1,2) in simp_all)
    moreover have "xas_compare (snd (xassign ?h3 s ?l (Some m))) = Some cmp"
      using assms(3) by (cases ?l) auto
    ultimately show ?thesis
      using False assms xaset_sort_loop_returns [OF seg, of cmp m dups] at same
      by (simp add: xaset_insert_sort_def xs_insert_sort_split Let_def split_beta)
  qed
qed

lemma xrep_unlink_at:
  assumes "xrep h s (ys @ m # zs)"
  shows "xrep ((set_prev_opt (first_of zs) (last_or None ys)
                  (if ys = [] then h else set_next (last ys) (first_of zs) h))
                (m := \<lparr>xm_next = None, xm_prev = None\<rparr>))
              (if ys = [] then s\<lparr>xas_list := first_of zs\<rparr> else s) (ys @ zs)"
proof -
  have d: "distinct (ys @ m # zs)" using assms(1) by (simp add: xrep_def)
  show ?thesis
  proof (cases ys rule: rev_cases)
    case Nil
    show ?thesis
      by (rule xrep_unlink [OF assms])
        (use d Nil in \<open>auto simp: set_prev_opt_apply first_of_def split: list.splits\<close>)
  next
    case (snoc c q)
    show ?thesis
      by (rule xrep_unlink [OF assms])
        (use d snoc in \<open>auto simp: last_or_def set_next_def set_prev_opt_apply
          first_of_def split: list.splits\<close>)
  qed
qed

lemma xaset_remove_correct:
  assumes "xrep h s xs" and "m \<in> set xs"
  shows "\<exists>h' s'. xaset_remove h (Some s) (Some m) = Some (Inr (), h', Some s') \<and>
           xrep h' s' (remove1 m xs) \<and> xas_compare s' = xas_compare s \<and>
           h' m = \<lparr>xm_next = None, xm_prev = None\<rparr>"
proof -
  obtain ys zs where xs: "xs = ys @ m # zs" "m \<notin> set ys" using assms(2) by (metis split_list_first)
  have d: "distinct xs" and seg: "dseg h None (xas_list s) xs None"
    using assms(1) by (auto simp: xrep_def)
  have prv: "xm_prev (h m) = last_or None ys" and nxt: "xm_next (h m) = first_of zs"
    using seg xs by (auto simp: dseg_append dest: dseg_first)
  let ?s' = "if ys = [] then s\<lparr>xas_list := first_of zs\<rparr> else s"
  let ?h1 = "if ys = [] then h else set_next (last ys) (first_of zs) h"
  let ?h' = "(set_prev_opt (first_of zs) (last_or None ys) ?h1)(m := \<lparr>xm_next = None, xm_prev = None\<rparr>)"
  have "xrep ?h' ?s' (ys @ zs)"
    by (rule xrep_unlink_at) (use assms xs in simp_all)
  moreover have "?h1 m = h m" using xs d by (auto simp: set_next_def)
  ultimately show ?thesis
    using xs xaset_find_loop_returns [OF seg, of m] prv nxt
    by (auto simp: xaset_remove_def Let_def last_or_def remove1_append set_next_def)
qed

lemma xaset_remove_absent:
  assumes "xrep h s xs" and "m \<notin> set xs"
  shows "xaset_remove h (Some s) (Some m) = Some (Inl ENOENT, h, Some s)"
  using assms xaset_find_loop_returns [of h None "xas_list s" xs m]
  by (simp add: xaset_remove_def xrep_def)

lemma dseg_agree:
  "(\<And>a. a \<in> set xs \<Longrightarrow> h' a = h a) \<Longrightarrow> dseg h' q p xs r = dseg h q p xs r"
  by (induction xs arbitrary: q p) auto

lemma xaset_copy_loop_correct:
  assumes "xrep h new (map f ds)" and "dseg h q p rest None" and "distinct (ds @ rest)"
    and "\<And>a. a \<in> set rest \<Longrightarrow> cp a = Some (f a)"
    and "inj_on f (set ds \<union> set rest)" and "f ` (set ds \<union> set rest) \<inter> set rest = {}"
    and "pos = loc_after Head (butlast (map f ds))"
  shows "\<exists>h' s'. xaset_copy_loop cp h new pos p = Some (h', Some s') \<and>
           xrep h' s' (map f (ds @ rest)) \<and> xas_compare s' = xas_compare new \<and>
           (\<forall>a. a \<notin> f ` (set ds \<union> set rest) \<longrightarrow> h' a = h a)"
  using assms
proof (induction rest arbitrary: h new ds q p pos)
  case Nil
  then show ?case by (simp add: xaset_copy_loop.simps)
next
  case (Cons x rest)
  let ?b = "map f ds" and ?n = "f x"
  let ?pos' = "loc_after Head ?b"
  let ?h3 = "set_next ?n None (set_prev ?n (last_or None ?b) h)"
  let ?hs = "xassign ?h3 new ?pos' (Some ?n)"
  have seg: "dseg h None (xderef h new Head) ?b None"
    using Cons.prems(1) by (simp add: xrep_def)
  have at: "xderef h new pos = last_or None ?b"
  proof (cases ds rule: rev_cases)
    case Nil
    with Cons.prems(7) seg show ?thesis by simp
  next
    case (snoc c d)
    have "xderef h new (loc_after Head (map f c)) = first_of [f d]"
      by (rule xderef_loc_after) (use seg snoc in simp)
    with snoc Cons.prems(7) show ?thesis by (simp add: last_or_def)
  qed
  have nb: "?n \<notin> set ?b" using Cons.prems(3,5) by (auto simp: inj_on_def)
  have at2: "xderef (set_next ?n None (set_prev ?n (last_or None ?b) h)) new pos = last_or None ?b"
  proof (cases pos)
    case (NextOf a)
    then have "a \<in> set ?b" using Cons.prems(7)
      by (auto simp: loc_after_def split: if_splits dest!: in_set_butlastD [OF last_in_set])
    then have "a \<noteq> ?n" using nb by blast
    with NextOf at show ?thesis by (simp add: xheap_defs)
  qed (use at in simp)
  have pos': "(case last_or None ?b of None \<Rightarrow> pos | Some b \<Rightarrow> NextOf b) = ?pos'"
    using Cons.prems(7) by (auto simp: last_or_def loc_after_def)
  have rep: "xrep (fst ?hs) (snd ?hs) (?b @ ?n # [])"
    by (rule xrep_link_at) (use Cons.prems(1) nb in auto)
  have unch: "fst ?hs a = h a" if "a \<notin> f ` (set ds \<union> {x})" for a
    using that by (auto simp: loc_after_def xheap_defs last_map)
  have hx: "xm_next (fst ?hs x) = xm_next (h x)" by (subst unch) (use Cons.prems(6) in auto)
  have tl: "dseg (fst ?hs) (Some x) (xm_next (h x)) rest None"
  proof -
    have "dseg (fst ?hs) (Some x) (xm_next (h x)) rest None = dseg h (Some x) (xm_next (h x)) rest None"
      by (rule dseg_agree, rule unch) (use Cons.prems(6) in auto)
    then show ?thesis using Cons.prems(2) by simp
  qed
  have "\<exists>h' s'. xaset_copy_loop cp (fst ?hs) (snd ?hs) ?pos' (xm_next (h x)) = Some (h', Some s') \<and>
          xrep h' s' (map f ((ds @ [x]) @ rest)) \<and> xas_compare s' = xas_compare (snd ?hs) \<and>
          (\<forall>a. a \<notin> f ` (set (ds @ [x]) \<union> set rest) \<longrightarrow> h' a = fst ?hs a)"
    by (rule Cons.IH [OF _ tl]) (use rep Cons.prems in \<open>auto\<close>)
  then obtain h' s' where
    L: "xaset_copy_loop cp (fst ?hs) (snd ?hs) ?pos' (xm_next (h x)) = Some (h', Some s')"
    and R: "xrep h' s' (map f (ds @ x # rest))" and C: "xas_compare s' = xas_compare (snd ?hs)"
    and U: "\<And>a. a \<notin> f ` (set ds \<union> set (x # rest)) \<Longrightarrow> h' a = fst ?hs a"
    by auto
  have "xas_compare (snd ?hs) = xas_compare new" by (cases ?pos') auto
  moreover have "\<forall>a. a \<notin> f ` (set ds \<union> set (x # rest)) \<longrightarrow> h' a = h a"
    using U unch by auto
  moreover have "xaset_copy_loop cp h new pos p = Some (h', Some s')"
    using Cons.prems(2,4) L at at2 pos' hx
    by (simp add: xaset_copy_loop.simps [of cp h new pos "Some x"] Let_def)
  ultimately show ?case using R C by auto
qed

section \<open>Comparators and sortedness\<close>

text \<open>What a client's compare callback must satisfy for \<open>xaset_insert_sort\<close> to keep a set sorted:
  it orders any two members one way or the other, and its order is transitive.\<close>

locale xaset_order =
  fixes cmp :: "'a \<Rightarrow> 'a \<Rightarrow> int"
  assumes cmp_total: "cmp x y \<le> 0 \<or> cmp y x \<le> 0"
    and cmp_trans: "cmp x y \<le> 0 \<Longrightarrow> cmp y z \<le> 0 \<Longrightarrow> cmp x z \<le> 0"
begin

abbreviation in_order :: "'a list \<Rightarrow> bool" where
  "in_order \<equiv> sorted_wrt (\<lambda>x y. cmp x y \<le> 0)"

lemma set_xs_insert_sort_subset: "set (xs_insert_sort cmp dups m xs) \<subseteq> insert m (set xs)"
  by (induction xs) auto

lemma in_order_insert_sort: "in_order xs \<Longrightarrow> in_order (xs_insert_sort cmp dups m xs)"
proof (induction xs)
  case (Cons x xs)
  show ?case
  proof (cases "cmp m x \<le> 0")
    case True
    with Cons.prems show ?thesis by (auto intro: cmp_trans)
  next
    case False
    then have "cmp x m \<le> 0" using cmp_total by blast
    then have "\<forall>y \<in> set (xs_insert_sort cmp dups m xs). cmp x y \<le> 0"
      using Cons.prems set_xs_insert_sort_subset [of dups m xs] by auto
    with False Cons show ?thesis by simp
  qed
qed simp

lemma insert_sort_head_least:
  assumes "in_order xs" and "y \<in> set (xs_insert_sort cmp dups m xs)"
  shows "cmp (hd (xs_insert_sort cmp dups m xs)) y \<le> 0"
proof -
  have ord: "in_order (xs_insert_sort cmp dups m xs)" using assms(1) by (rule in_order_insert_sort)
  have "cmp z z \<le> 0" for z using cmp_total by blast
  with ord assms(2) show ?thesis by (cases "xs_insert_sort cmp dups m xs") auto
qed

lemma in_order_remove1: "in_order xs \<Longrightarrow> in_order (remove1 m xs)"
  by (induction xs) (auto dest: notin_set_remove1 in_set_remove1 [THEN iffD1]
      split: if_splits dest!: set_remove1_subset [THEN subsetD])

end

lemma mset_xs_insert_sort_dups: "set (xs_insert_sort cmp True m xs) = insert m (set xs)"
  by (induction xs) auto

lemma length_xs_insert_sort_dups: "length (xs_insert_sort cmp True m xs) = Suc (length xs)"
  by (induction xs) auto

lemma remove1_xs_insert_sort: "m \<notin> set xs \<Longrightarrow> remove1 m (xs_insert_sort cmp True m xs) = xs"
  by (induction xs) auto

section \<open>Properties\<close>

text \<open>C30. On a well-formed set whose members are in the order of its compare callback (a total,
  transitive order), the pointer loop of \<open>xaset_insert_sort\<close> with duplicates allowed returns, and the
  set it leaves is again a well-formed doubly-linked list, in order, with exactly one more member.\<close>

theorem xaset_insert_sort_keeps_sorted:
  assumes rep: "xrep h s xs" and m: "m \<notin> set xs" and cmp: "xas_compare s = Some cmp"
    and total: "\<forall>x y. cmp x y \<le> 0 \<or> cmp y x \<le> 0"
    and trans: "\<forall>x y z. cmp x y \<le> 0 \<longrightarrow> cmp y z \<le> 0 \<longrightarrow> cmp x z \<le> 0"
    and sorted: "sorted_wrt (\<lambda>x y. cmp x y \<le> 0) xs"
  shows "\<exists>h' s' ys. xaset_insert_sort h (Some s) (Some m) True = Some (Inr (), h', Some s') \<and>
           xrep h' s' ys \<and> sorted_wrt (\<lambda>x y. cmp x y \<le> 0) ys \<and>
           set ys = insert m (set xs) \<and> length ys = Suc (length xs)"
proof -
  have ord: "xaset_order cmp" by unfold_locales (use total trans in blast)+
  have "sorted_wrt (\<lambda>x y. cmp x y \<le> 0) (xs_insert_sort cmp True m xs)"
    using ord sorted by (rule xaset_order.in_order_insert_sort)
  then show ?thesis
    using xaset_insert_sort_correct [OF rep m cmp, of True]
      mset_xs_insert_sort_dups length_xs_insert_sort_dups by metis
qed

definition demo_mem :: xmem where
  "demo_mem = (\<lambda>_. \<lparr>xm_next = None, xm_prev = None\<rparr>)"

definition demo_set :: xaset where
  "demo_set = \<lparr>xas_list = Some 5, xas_compare = Some (\<lambda>x y. int x - int y)\<rparr>"

theorem xaset_insert_sort_keeps_sorted_witness:
  "\<exists>h' s' ys. xaset_insert_sort demo_mem (Some demo_set) (Some 3) True = Some (Inr (), h', Some s') \<and>
     xrep h' s' ys \<and> sorted_wrt (\<lambda>x y. int x - int y \<le> 0) ys \<and>
     set ys = insert 3 (set [5]) \<and> length ys = Suc (length [5::nat])"
  by (rule xaset_insert_sort_keeps_sorted [of demo_mem demo_set "[5]" 3 "\<lambda>x y. int x - int y"])
    (auto simp: xrep_def demo_mem_def demo_set_def)

text \<open>\<open>xaset_remove\<close> undoes \<open>xaset_insert_sort\<close>: after inserting a new member and removing it the
  set is the list of members it was, well-formed, and the member's own links are cleared.\<close>

theorem xaset_remove_undoes_insert_sort:
  assumes "xrep h s xs" and "m \<notin> set xs" and "xas_compare s = Some cmp"
  shows "\<exists>h1 s1 h2 s2. xaset_insert_sort h (Some s) (Some m) True = Some (Inr (), h1, Some s1) \<and>
           xaset_remove h1 (Some s1) (Some m) = Some (Inr (), h2, Some s2) \<and>
           xrep h2 s2 xs \<and> h2 m = \<lparr>xm_next = None, xm_prev = None\<rparr>"
proof -
  obtain h1 s1 where
    ins: "xaset_insert_sort h (Some s) (Some m) True = Some (Inr (), h1, Some s1)"
    and rep: "xrep h1 s1 (xs_insert_sort cmp True m xs)"
    using xaset_insert_sort_correct [OF assms, of True] by blast
  have "m \<in> set (xs_insert_sort cmp True m xs)" by (simp add: mset_xs_insert_sort_dups)
  from xaset_remove_correct [OF rep this] show ?thesis
    using ins remove1_xs_insert_sort [OF assms(2), of cmp] by metis
qed

theorem xaset_remove_undoes_insert_sort_witness:
  "\<exists>h1 s1 h2 s2. xaset_insert_sort demo_mem (Some demo_set) (Some 7) True = Some (Inr (), h1, Some s1) \<and>
     xaset_remove h1 (Some s1) (Some 7) = Some (Inr (), h2, Some s2) \<and>
     xrep h2 s2 [5] \<and> h2 7 = \<lparr>xm_next = None, xm_prev = None\<rparr>"
  by (rule xaset_remove_undoes_insert_sort [of demo_mem demo_set "[5]" 7 "\<lambda>x y. int x - int y"])
    (auto simp: xrep_def demo_mem_def demo_set_def)

text \<open>\<open>xaset_copy\<close> returns, and the copy is a well-formed set of the copied members in the
  original order with the same compare callback, while the original set is left as it was: provided
  the copies are distinct blocks that are no members of the original.\<close>

theorem xaset_copy_is_exact:
  assumes rep: "xrep h s xs" and inj: "inj_on palloc (set xs)"
    and fresh: "palloc ` set xs \<inter> set xs = {}" and sz: "0 < msize"
  shows "\<exists>h' s'. xaset_copy None palloc msize h (Some s) = Some (Inr (h', Some s')) \<and>
           xrep h' s' (map palloc xs) \<and> xas_compare s' = xas_compare s \<and> xrep h' s xs"
proof -
  let ?new = "\<lparr>xas_list = None, xas_compare = xas_compare s\<rparr>"
  have "\<exists>h' s'. xaset_copy_loop (\<lambda>a. Some (palloc a)) h ?new Head (xas_list s) = Some (h', Some s') \<and>
          xrep h' s' (map palloc ([] @ xs)) \<and> xas_compare s' = xas_compare ?new \<and>
          (\<forall>a. a \<notin> palloc ` (set [] \<union> set xs) \<longrightarrow> h' a = h a)"
    by (rule xaset_copy_loop_correct [where q = None])
      (use rep inj fresh in \<open>auto simp: xrep_def\<close>)
  then obtain h' s' where
    L: "xaset_copy_loop (\<lambda>a. Some (palloc a)) h ?new Head (xas_list s) = Some (h', Some s')"
    and R: "xrep h' s' (map palloc xs)" "xas_compare s' = xas_compare s"
    and U: "\<And>a. a \<notin> palloc ` set xs \<Longrightarrow> h' a = h a"
    by auto
  have "dseg h' None (xas_list s) xs None = dseg h None (xas_list s) xs None"
    by (rule dseg_agree, rule U) (use fresh in auto)
  then have "xrep h' s xs" using rep by (simp add: xrep_def)
  with L R sz show ?thesis by (simp add: xaset_copy_def)
qed

theorem xaset_copy_is_exact_witness:
  "\<exists>h' s'. xaset_copy None (\<lambda>a. a + 100) 16 demo_mem (Some demo_set) = Some (Inr (h', Some s')) \<and>
     xrep h' s' (map (\<lambda>a. a + 100) [5]) \<and> xas_compare s' = xas_compare demo_set \<and>
     xrep h' demo_set [5]"
  by (rule xaset_copy_is_exact) (auto simp: xrep_def demo_mem_def demo_set_def)

end
