(* ===== verification/Table.thy ===== *)
theory Table
  imports Pr_Prelude
begin

unbundle bit_operations_syntax

text \<open>
  The hash table library of \<open>src/table.c\<close>. Entries and keys are objects in a store, named by numbers,
  because the code shares one key object between the entries of a multi-valued key and keeps entry
  pointers (\<open>cache_ent\<close>, \<open>val_iter_ent\<close>, \<open>tab_iter_ent\<close>) across calls. A chain is the list of its
  entries; the doubly-linked representation of such lists is the subject of the theory of sets.
  \<open>None\<close> as the outcome of an operation is a dereference of \<open>NULL\<close>. Calls of \<open>pr_signals_handle\<close>
  and the trace messages have no effect on the table and are left out.
\<close>

section \<open>Data\<close>

text \<open>\<open>pr_table_key_t\<close> and \<open>pr_table_entry_t\<close> of \<open>include/table.h\<close>; a block fresh from \<open>pcalloc\<close> or
  cleared by \<open>memset\<close> is \<open>zero_key\<close> and \<open>zero_entry\<close>. The address \<open>0\<close> is \<open>NULL\<close>.\<close>

record pr_table_key_t =
  tk_data :: "string ptr"
  tk_datasz :: nat
  tk_hash :: "32 word"
  tk_nents :: nat

record 'v pr_table_entry_t =
  te_idx :: nat
  te_key :: "nat option"
  te_value :: "'v ptr option"
  te_valuesz :: nat

definition zero_key :: pr_table_key_t where
  "zero_key = \<lparr>tk_data = (0, []), tk_datasz = 0, tk_hash = 0, tk_nents = 0\<rparr>"

definition zero_entry :: "'v pr_table_entry_t" where
  "zero_entry = \<lparr>te_idx = 0, te_key = None, te_value = None, te_valuesz = 0\<rparr>"

text \<open>\<open>struct table_rec\<close>, with the store of its entries and keys. \<open>t_next_ent\<close> and \<open>t_next_key\<close> stand
  for the table's pool: the next block it hands out.\<close>

record 'v pr_table_t =
  t_flags :: "64 word"
  t_seed :: "32 word"
  t_nmaxents :: nat
  t_chains :: "nat list list"
  t_nchains :: nat
  t_nents :: nat
  t_free_ents :: "nat list"
  t_free_keys :: "nat list"
  t_tab_iter_ent :: "nat option"
  t_val_iter_ent :: "nat option"
  t_cache_ent :: "nat option"
  t_keycmp :: "string ptr \<Rightarrow> nat \<Rightarrow> string ptr \<Rightarrow> nat \<Rightarrow> int"
  t_keyhash :: "string ptr \<Rightarrow> nat \<Rightarrow> 32 word"
  t_entinsert :: "nat list \<Rightarrow> nat \<Rightarrow> nat list"
  t_entremove :: "nat list \<Rightarrow> nat \<Rightarrow> nat list"
  t_ents :: "nat \<Rightarrow> 'v pr_table_entry_t"
  t_keys :: "nat \<Rightarrow> pr_table_key_t"
  t_next_ent :: nat
  t_next_key :: nat

abbreviation PR_TABLE_FL_MULTI_VALUE :: "64 word" where "PR_TABLE_FL_MULTI_VALUE \<equiv> 1"
abbreviation PR_TABLE_FL_USE_CACHE :: "64 word" where "PR_TABLE_FL_USE_CACHE \<equiv> 2"

definition has_flag :: "'v pr_table_t \<Rightarrow> 64 word \<Rightarrow> bool" where
  "has_flag t f \<longleftrightarrow> t_flags t AND f \<noteq> 0"

section \<open>Default callbacks\<close>

definition key_cmp :: "string ptr \<Rightarrow> nat \<Rightarrow> string ptr \<Rightarrow> nat \<Rightarrow> int" where
  "key_cmp key1 keysz1 key2 keysz2 =
     (if keysz1 \<noteq> keysz2 then (if keysz1 < keysz2 then -1 else 1)
      else if 1 \<le> keysz1 \<and> hd0 (pointee key1) \<noteq> hd0 (pointee key2) then
        (if schar (hd0 (pointee key1)) < schar (hd0 (pointee key2)) then -1 else 1)
      else if keysz1 = 1 then 0
      else c_strncmp (pointee key1) (pointee key2) keysz1)"

text \<open>The hash loop runs from the last byte to the first; \<open>char\<close> is converted to \<open>unsigned int\<close>, that
  is, sign-extended, and the arithmetic wraps at 32 bits.\<close>

fun key_hash_loop :: "string \<Rightarrow> nat \<Rightarrow> 32 word \<Rightarrow> 32 word" where
  "key_hash_loop k 0 i = i"
| "key_hash_loop k (Suc sz) i = key_hash_loop k sz (i * 33 + word_of_int (schar (k ! sz)))"

definition key_hash :: "string ptr \<Rightarrow> nat \<Rightarrow> 32 word" where
  "key_hash key keysz =
     key_hash_loop (pointee key) (if keysz = 0 then c_strlen (pointee key) else keysz) 0"

definition entry_insert :: "nat list \<Rightarrow> nat \<Rightarrow> nat list" where
  "entry_insert h e = (if h = [] then h else h @ [e])"

definition entry_remove :: "nat list \<Rightarrow> nat \<Rightarrow> nat list" where
  "entry_remove h e = remove1 e h"

section \<open>Keys and entries\<close>

definition tab_key_alloc :: "'v pr_table_t \<Rightarrow> nat \<times> 'v pr_table_t" where
  "tab_key_alloc t =
     (case t_free_keys t of
        k # ks \<Rightarrow> (k, t\<lparr>t_free_keys := ks\<rparr>)
      | [] \<Rightarrow> (t_next_key t,
               t\<lparr>t_keys := (t_keys t)(t_next_key t := zero_key), t_next_key := Suc (t_next_key t)\<rparr>))"

definition tab_key_free :: "'v pr_table_t \<Rightarrow> nat \<Rightarrow> 'v pr_table_t" where
  "tab_key_free t k =
     t\<lparr>t_keys := (t_keys t)(k := zero_key), t_free_keys := t_free_keys t @ [k]\<rparr>"

definition tab_entry_alloc :: "'v pr_table_t \<Rightarrow> nat \<times> 'v pr_table_t" where
  "tab_entry_alloc t =
     (case t_free_ents t of
        e # es \<Rightarrow> (e, t\<lparr>t_free_ents := es\<rparr>)
      | [] \<Rightarrow> (t_next_ent t,
               t\<lparr>t_ents := (t_ents t)(t_next_ent t := zero_entry), t_next_ent := Suc (t_next_ent t)\<rparr>))"

definition tab_entry_free :: "'v pr_table_t \<Rightarrow> nat \<Rightarrow> 'v pr_table_t" where
  "tab_entry_free t e =
     t\<lparr>t_ents := (t_ents t)(e := zero_entry), t_free_ents := t_free_ents t @ [e]\<rparr>"

definition upd_key :: "nat \<Rightarrow> (pr_table_key_t \<Rightarrow> pr_table_key_t) \<Rightarrow> 'v pr_table_t \<Rightarrow> 'v pr_table_t" where
  "upd_key k f t = t\<lparr>t_keys := (t_keys t)(k := f (t_keys t k))\<rparr>"

definition upd_ent ::
  "nat \<Rightarrow> ('v pr_table_entry_t \<Rightarrow> 'v pr_table_entry_t) \<Rightarrow> 'v pr_table_t \<Rightarrow> 'v pr_table_t" where
  "upd_ent e f t = t\<lparr>t_ents := (t_ents t)(e := f (t_ents t e))\<rparr>"

definition set_chain :: "nat \<Rightarrow> nat list \<Rightarrow> 'v pr_table_t \<Rightarrow> 'v pr_table_t" where
  "set_chain i c t = t\<lparr>t_chains := (t_chains t)[i := c]\<rparr>"

definition tab_entry_insert :: "'v pr_table_t \<Rightarrow> nat \<Rightarrow> 'v pr_table_t option" where
  "tab_entry_insert t e =
     (let i = te_idx (t_ents t e); h = t_chains t ! i;
          t1 = (if h \<noteq> [] \<and> hd h \<noteq> e then set_chain i (t_entinsert t h e) t else t)
      in case te_key (t_ents t e) of
           None \<Rightarrow> None
         | Some k \<Rightarrow>
             Some ((upd_key k (\<lambda>x. x\<lparr>tk_nents := Suc (tk_nents x)\<rparr>) t1)\<lparr>t_nents := Suc (t_nents t)\<rparr>))"

text \<open>The \<open>next\<close> field of an entry: its successor in its chain, or in the free list for an entry that
  has been freed.\<close>

definition succ_in :: "nat list \<Rightarrow> nat \<Rightarrow> nat option" where
  "succ_in xs e = (case dropWhile (\<lambda>x. x \<noteq> e) xs of _ # y # _ \<Rightarrow> Some y | _ \<Rightarrow> None)"

definition ent_next :: "'v pr_table_t \<Rightarrow> nat \<Rightarrow> nat option" where
  "ent_next t e =
     (if e \<in> set (t_chains t ! te_idx (t_ents t e)) then succ_in (t_chains t ! te_idx (t_ents t e)) e
      else succ_in (t_free_ents t) e)"

fun first_populated :: "nat list list \<Rightarrow> nat option" where
  "first_populated [] = None"
| "first_populated (c # cs) = (case c of e # _ \<Rightarrow> Some e | [] \<Rightarrow> first_populated cs)"

definition tab_entry_next :: "'v pr_table_t \<Rightarrow> nat option \<times> 'v pr_table_t" where
  "tab_entry_next t =
     (let ent =
        (case t_tab_iter_ent t of
           Some it \<Rightarrow>
             (case ent_next t it of
                Some e \<Rightarrow> Some e
              | None \<Rightarrow> first_populated (drop (Suc (te_idx (t_ents t it))) (t_chains t)))
         | None \<Rightarrow> first_populated (t_chains t))
      in (ent, t\<lparr>t_tab_iter_ent := ent\<rparr>))"

definition tab_entry_remove :: "'v pr_table_t \<Rightarrow> nat \<Rightarrow> 'v pr_table_t option" where
  "tab_entry_remove t e =
     (let i = te_idx (t_ents t e);
          t1 = set_chain i (t_entremove t (t_chains t ! i) e) t
      in case te_key (t_ents t e) of
           None \<Rightarrow> None
         | Some k \<Rightarrow>
             (let t2 = upd_key k (\<lambda>x. x\<lparr>tk_nents := tk_nents x - 1\<rparr>) t1;
                  t3 = (if tk_nents (t_keys t2 k) = 0
                        then upd_ent e (\<lambda>x. x\<lparr>te_key := None\<rparr>) (tab_key_free t2 k) else t2)
              in Some (t3\<lparr>t_nents := t_nents t3 - 1\<rparr>)))"

section \<open>The key-and-size operations\<close>

abbreviation tab_hash :: "'v pr_table_t \<Rightarrow> string ptr \<Rightarrow> nat \<Rightarrow> 32 word" where
  "tab_hash t key sz \<equiv> t_keyhash t key sz + t_seed t"

abbreviation tab_idx :: "'v pr_table_t \<Rightarrow> 32 word \<Rightarrow> nat" where
  "tab_idx t h \<equiv> unat h mod t_nchains t"

text \<open>The scan of \<open>pr_table_kadd\<close> over a chain: the key of the last entry with an identical key, or
  the \<open>EEXIST\<close> return of a table without multiple values.\<close>

fun kadd_scan ::
  "'v pr_table_t \<Rightarrow> 32 word \<Rightarrow> string ptr \<Rightarrow> nat \<Rightarrow> nat list \<Rightarrow> nat option \<Rightarrow>
   (nat option result) option" where
  "kadd_scan t h key sz [] acc = Some (Inr acc)"
| "kadd_scan t h key sz (ei # es) acc =
     (case te_key (t_ents t ei) of
        None \<Rightarrow> None
      | Some k \<Rightarrow>
          (if tk_hash (t_keys t k) \<noteq> h then kadd_scan t h key sz es acc
           else if t_keycmp t (tk_data (t_keys t k)) (tk_datasz (t_keys t k)) key sz = 0 then
             (if \<not> has_flag t PR_TABLE_FL_MULTI_VALUE then Some (Inl EEXIST)
              else kadd_scan t h key sz es (Some k))
           else kadd_scan t h key sz es acc))"

text \<open>What follows the scan: a new chain gets the entry as its head, an entry without a key gets a
  new one, and the entry is inserted.\<close>

definition kadd_attach ::
  "'v pr_table_t \<Rightarrow> nat \<Rightarrow> nat \<Rightarrow> 32 word \<Rightarrow> string ptr \<Rightarrow> nat \<Rightarrow> nat option \<Rightarrow>
   'v pr_table_t option" where
  "kadd_attach t n idx h key key_datasz found =
     (let t3 = (if t_chains t ! idx = [] then set_chain idx [n] t else t);
          t4 = (case found of
                  Some k \<Rightarrow> upd_ent n (\<lambda>x. x\<lparr>te_key := Some k\<rparr>) t3
                | None \<Rightarrow>
                    (let (k, t') = tab_key_alloc t3;
                         t'' = upd_key k (\<lambda>_. \<lparr>tk_data = key, tk_datasz = key_datasz,
                                              tk_hash = h, tk_nents = 0\<rparr>) t'
                     in upd_ent n (\<lambda>x. x\<lparr>te_key := Some k\<rparr>) t''))
      in tab_entry_insert t4 n)"

definition kadd_body ::
  "'v pr_table_t \<Rightarrow> string ptr \<Rightarrow> nat \<Rightarrow> 'v ptr option \<Rightarrow> nat \<Rightarrow>
   (unit result \<times> 'v pr_table_t) option" where
  "kadd_body t key key_datasz value_data value_datasz =
     (let h = tab_hash t key key_datasz;
          idx = tab_idx t h;
          (n, t1) = tab_entry_alloc t;
          t2 = upd_ent n (\<lambda>x. x\<lparr>te_value := value_data, te_valuesz := value_datasz,
                                te_idx := idx\<rparr>) t1;
          c = t_chains t2 ! idx
      in (case (if c = [] then Some (Inr None) else kadd_scan t2 h key key_datasz c None) of
            None \<Rightarrow> None
          | Some (Inl e) \<Rightarrow> Some (Inl e, t2)
          | Some (Inr found) \<Rightarrow>
              map_option (\<lambda>t'. (Inr (), t')) (kadd_attach t2 n idx h key key_datasz found)))"

definition pr_table_kadd ::
  "'v pr_table_t option \<Rightarrow> string ptr option \<Rightarrow> nat \<Rightarrow> 'v ptr option \<Rightarrow> nat \<Rightarrow>
   (unit result \<times> 'v pr_table_t option) option" where
  "pr_table_kadd tab key_data key_datasz value_data value_datasz =
     with_objx tab (\<lambda>t.
       case key_data of
         None \<Rightarrow> Some (Inl EINVAL, t)
       | Some key \<Rightarrow>
           if 0 < value_datasz \<and> value_data = None then Some (Inl EINVAL, t)
           else if t_nents t = t_nmaxents t then Some (Inl ENOSPC, t)
           else kadd_body t key key_datasz value_data value_datasz)"

text \<open>The entries whose key has the given hash and compares equal; all lookups test for it, in chain
  order, skipping an entry without a key.\<close>

definition ent_matches :: "'v pr_table_t \<Rightarrow> 32 word \<Rightarrow> string ptr \<Rightarrow> nat \<Rightarrow> nat \<Rightarrow> bool" where
  "ent_matches t h key sz e =
     (case te_key (t_ents t e) of
        None \<Rightarrow> False
      | Some k \<Rightarrow> tk_hash (t_keys t k) = h \<and>
          t_keycmp t (tk_data (t_keys t k)) (tk_datasz (t_keys t k)) key sz = 0)"

fun find_entry :: "'v pr_table_t \<Rightarrow> 32 word \<Rightarrow> string ptr \<Rightarrow> nat \<Rightarrow> nat list \<Rightarrow> nat option" where
  "find_entry t h key sz [] = None"
| "find_entry t h key sz (e # es) =
     (if ent_matches t h key sz e then Some e else find_entry t h key sz es)"

text \<open>The number of entries of the key of an entry, \<open>ent->key->nents\<close>, and the test
  \<open>ent->key->key_data == key_data\<close>; both fault on an entry without a key.\<close>

definition ent_key_nents :: "'v pr_table_t \<Rightarrow> nat \<Rightarrow> nat option" where
  "ent_key_nents t e = map_option (\<lambda>k. tk_nents (t_keys t k)) (te_key (t_ents t e))"

definition ent_same_ptr :: "'v pr_table_t \<Rightarrow> nat \<Rightarrow> string ptr \<Rightarrow> bool option" where
  "ent_same_ptr t e key =
     map_option (\<lambda>k. addr (tk_data (t_keys t k)) = addr key) (te_key (t_ents t e))"

text \<open>The condition \<open>ptr && ptr->key->key_data == key_data\<close> on one of the saved entry pointers.\<close>

definition saved_hit :: "'v pr_table_t \<Rightarrow> nat option \<Rightarrow> string ptr \<Rightarrow> bool option" where
  "saved_hit t p key = (case p of None \<Rightarrow> Some False | Some e \<Rightarrow> ent_same_ptr t e key)"

definition cache_hit :: "'v pr_table_t \<Rightarrow> string ptr \<Rightarrow> bool option" where
  "cache_hit t key =
     (if has_flag t PR_TABLE_FL_USE_CACHE then saved_hit t (t_cache_ent t) key else Some False)"

definition pr_table_kexists ::
  "'v pr_table_t option \<Rightarrow> string ptr option \<Rightarrow> nat \<Rightarrow>
   (nat result \<times> 'v pr_table_t option) option" where
  "pr_table_kexists tab key_data key_datasz =
     with_objx tab (\<lambda>t.
       case key_data of
         None \<Rightarrow> Some (Inl EINVAL, t)
       | Some key \<Rightarrow>
           if t_nents t = 0 then Some (Inl ENOENT, t)
           else
             (case cache_hit t key of
                None \<Rightarrow> None
              | Some True \<Rightarrow>
                  (case ent_key_nents t (the (t_cache_ent t)) of
                     None \<Rightarrow> None | Some n \<Rightarrow> Some (Inr n, t))
              | Some False \<Rightarrow>
                  (let h = tab_hash t key key_datasz; c = t_chains t ! tab_idx t h in
                   if c = [] then Some (Inr 0, t\<lparr>t_cache_ent := None\<rparr>)
                   else
                     (case find_entry t h key key_datasz c of
                        Some e \<Rightarrow>
                          (let t' = (if has_flag t PR_TABLE_FL_USE_CACHE
                                     then t\<lparr>t_cache_ent := Some e\<rparr> else t)
                           in case ent_key_nents t e of
                                None \<Rightarrow> None | Some n \<Rightarrow> Some (Inr n, t'))
                      | None \<Rightarrow> Some (Inr 0, t\<lparr>t_cache_ent := None\<rparr>)))))"

text \<open>Where a lookup or a replacement starts: after the entry of the running per-key iteration, after
  the cached entry, or at the head of the chain.\<close>

definition rest_after :: "'v pr_table_t \<Rightarrow> nat \<Rightarrow> nat list" where
  "rest_after t e =
     (let c = t_chains t ! te_idx (t_ents t e) in
      if e \<in> set c then tl (dropWhile (\<lambda>x. x \<noteq> e) c)
      else tl (dropWhile (\<lambda>x. x \<noteq> e) (t_free_ents t)))"

definition lookup_start :: "'v pr_table_t \<Rightarrow> string ptr \<Rightarrow> 32 word \<Rightarrow> nat list option" where
  "lookup_start t key h =
     (case saved_hit t (t_val_iter_ent t) key of
        None \<Rightarrow> None
      | Some True \<Rightarrow> Some (rest_after t (the (t_val_iter_ent t)))
      | Some False \<Rightarrow>
          (case cache_hit t key of
             None \<Rightarrow> None
           | Some True \<Rightarrow> Some (rest_after t (the (t_cache_ent t)))
           | Some False \<Rightarrow> Some (t_chains t ! tab_idx t h)))"

definition forget :: "'v pr_table_t \<Rightarrow> 'v pr_table_t" where
  "forget t = t\<lparr>t_cache_ent := None, t_val_iter_ent := None\<rparr>"

definition remember :: "nat \<Rightarrow> 'v pr_table_t \<Rightarrow> 'v pr_table_t" where
  "remember e t =
     t\<lparr>t_cache_ent := (if has_flag t PR_TABLE_FL_USE_CACHE then Some e else t_cache_ent t),
       t_val_iter_ent := (if has_flag t PR_TABLE_FL_MULTI_VALUE then Some e else t_val_iter_ent t)\<rparr>"

definition pr_table_kget ::
  "'v pr_table_t option \<Rightarrow> string ptr option \<Rightarrow> nat \<Rightarrow>
   (('v ptr option \<times> nat) result \<times> 'v pr_table_t option) option" where
  "pr_table_kget tab key_data key_datasz =
     with_objx tab (\<lambda>t.
       case key_data of
         None \<Rightarrow> Some (Inl ENOENT, forget t)
       | Some key \<Rightarrow>
           if t_nents t = 0 then Some (Inl ENOENT, forget t)
           else
             (let h = tab_hash t key key_datasz in
              case lookup_start t key h of
                None \<Rightarrow> None
              | Some c \<Rightarrow>
                  (case find_entry t h key key_datasz c of
                     Some e \<Rightarrow> Some (Inr (te_value (t_ents t e), te_valuesz (t_ents t e)), remember e t)
                   | None \<Rightarrow> Some (Inl ENOENT, forget t))))"

definition drop_entry :: "nat \<Rightarrow> 'v pr_table_t \<Rightarrow> 'v pr_table_t option" where
  "drop_entry e t =
     map_option (\<lambda>t'. (tab_entry_free t' e)\<lparr>t_cache_ent := None\<rparr>) (tab_entry_remove t e)"

definition pr_table_kremove ::
  "'v pr_table_t option \<Rightarrow> string ptr option \<Rightarrow> nat \<Rightarrow>
   (('v ptr option \<times> nat) result \<times> 'v pr_table_t option) option" where
  "pr_table_kremove tab key_data key_datasz =
     with_objx tab (\<lambda>t.
       case key_data of
         None \<Rightarrow> Some (Inl EINVAL, t)
       | Some key \<Rightarrow>
           if t_nents t = 0 then Some (Inl ENOENT, t)
           else
             (case cache_hit t key of
                None \<Rightarrow> None
              | Some True \<Rightarrow>
                  (let e = the (t_cache_ent t) in
                   map_option (\<lambda>t'. (Inr (te_value (t_ents t e), te_valuesz (t_ents t e)), t'))
                     (drop_entry e t))
              | Some False \<Rightarrow>
                  (let h = tab_hash t key key_datasz; c = t_chains t ! tab_idx t h in
                   if c = [] then Some (Inl ENOENT, t\<lparr>t_cache_ent := None\<rparr>)
                   else
                     (case find_entry t h key key_datasz c of
                        Some e \<Rightarrow>
                          map_option (\<lambda>t'. (Inr (te_value (t_ents t e), te_valuesz (t_ents t e)), t'))
                            (drop_entry e t)
                      | None \<Rightarrow> Some (Inl EINVAL, t\<lparr>t_cache_ent := None\<rparr>)))))"

text \<open>Pointer equality of two values, either of which may be \<open>NULL\<close>.\<close>

definition same_value_ptr :: "'v ptr option \<Rightarrow> 'v ptr option \<Rightarrow> bool" where
  "same_value_ptr a b \<longleftrightarrow> map_option addr a = map_option addr b"

definition pr_table_kset ::
  "'v pr_table_t option \<Rightarrow> string ptr option \<Rightarrow> nat \<Rightarrow> 'v ptr option \<Rightarrow> nat \<Rightarrow>
   (unit result \<times> 'v pr_table_t option) option" where
  "pr_table_kset tab key_data key_datasz value_data value_datasz =
     with_objx tab (\<lambda>t.
       case key_data of
         None \<Rightarrow> Some (Inl EINVAL, t)
       | Some key \<Rightarrow>
           if 0 < value_datasz \<and> value_data = None then Some (Inl EINVAL, t)
           else if t_nents t = 0 then Some (Inl ENOENT, t)
           else
             (let h = tab_hash t key key_datasz in
              case lookup_start t key h of
                None \<Rightarrow> None
              | Some c \<Rightarrow>
                  if c = [] then Some (Inl ENOENT, forget t)
                  else
                    (case find_entry t h key key_datasz c of
                       Some e \<Rightarrow>
                         if same_value_ptr (te_value (t_ents t e)) value_data then Some (Inl EEXIST, t)
                         else Some (Inr (), remember e
                                (upd_ent e (\<lambda>x. x\<lparr>te_value := value_data, te_valuesz := value_datasz\<rparr>) t))
                     | None \<Rightarrow> Some (Inl EINVAL, forget t))))"

section \<open>The string-keyed operations and the rest of the interface\<close>

text \<open>A string argument is its text; the bytes at its address are the text and the terminator. The
  argument \<open>vstrlen\<close> is \<open>strlen\<close> of the value, which the code calls when no value size is given.\<close>

definition c_str :: "string ptr \<Rightarrow> string ptr" where
  "c_str s = (addr s, pointee s @ [NUL])"

definition str_keysz :: "string ptr \<Rightarrow> nat" where
  "str_keysz s = length (pointee s) + 1"

definition value_size :: "('v \<Rightarrow> nat) \<Rightarrow> 'v ptr option \<Rightarrow> nat \<Rightarrow> nat" where
  "value_size vstrlen value_data value_datasz =
     (case value_data of
        Some v \<Rightarrow> (if value_datasz = 0 then vstrlen (pointee v) + 1 else value_datasz)
      | None \<Rightarrow> value_datasz)"

definition pr_table_add ::
  "('v \<Rightarrow> nat) \<Rightarrow> 'v pr_table_t option \<Rightarrow> string ptr option \<Rightarrow> 'v ptr option \<Rightarrow> nat \<Rightarrow>
   (unit result \<times> 'v pr_table_t option) option" where
  "pr_table_add vstrlen tab key_data value_data value_datasz =
     (case (tab, key_data) of
        (Some t, Some key) \<Rightarrow>
          pr_table_kadd tab (Some (c_str key)) (str_keysz key) value_data
            (value_size vstrlen value_data value_datasz)
      | _ \<Rightarrow> Some (Inl EINVAL, tab))"

text \<open>The duplicate lives in a block of the table's pool, at address \<open>dup\<close>; \<open>pcalloc\<close> of no bytes
  gives \<open>NULL\<close>.\<close>

definition pr_table_add_dup ::
  "('v \<Rightarrow> nat) \<Rightarrow> nat \<Rightarrow> 'v pr_table_t option \<Rightarrow> string ptr option \<Rightarrow> 'v ptr option \<Rightarrow> nat \<Rightarrow>
   (unit result \<times> 'v pr_table_t option) option" where
  "pr_table_add_dup vstrlen dup tab key_data value_data value_datasz =
     (case (tab, key_data) of
        (Some t, Some key) \<Rightarrow>
          (if value_data = None \<and> value_datasz \<noteq> 0 then Some (Inl EINVAL, tab)
           else
             (let sz = value_size vstrlen value_data value_datasz;
                  dup_data = (case value_data of
                                Some v \<Rightarrow> Some (dup, pointee v)
                              | None \<Rightarrow> None)
              in pr_table_add vstrlen tab key_data dup_data sz))
      | _ \<Rightarrow> Some (Inl EINVAL, tab))"

abbreviation PR_TABLE_DEFAULT_NCHAINS :: nat where "PR_TABLE_DEFAULT_NCHAINS \<equiv> 256"
abbreviation PR_TABLE_DEFAULT_MAX_ENTS :: nat where "PR_TABLE_DEFAULT_MAX_ENTS \<equiv> 8192"

text \<open>The seed is what \<open>tab_get_seed\<close> reads from the system's random source.\<close>

definition pr_table_nalloc :: "bool \<Rightarrow> 64 word \<Rightarrow> nat \<Rightarrow> 32 word \<Rightarrow> 'v pr_table_t result" where
  "pr_table_nalloc have_pool flags nchains seed =
     (if \<not> have_pool \<or> nchains = 0 then Inl EINVAL
      else Inr \<lparr>t_flags = flags, t_seed = seed, t_nmaxents = PR_TABLE_DEFAULT_MAX_ENTS,
                t_chains = replicate nchains [], t_nchains = nchains, t_nents = 0,
                t_free_ents = [], t_free_keys = [], t_tab_iter_ent = None, t_val_iter_ent = None,
                t_cache_ent = None, t_keycmp = key_cmp, t_keyhash = key_hash,
                t_entinsert = entry_insert, t_entremove = entry_remove,
                t_ents = (\<lambda>_. zero_entry), t_keys = (\<lambda>_. zero_key),
                t_next_ent = 0, t_next_key = 0\<rparr>)"

definition pr_table_alloc :: "bool \<Rightarrow> 64 word \<Rightarrow> 32 word \<Rightarrow> 'v pr_table_t result" where
  "pr_table_alloc have_pool flags seed =
     pr_table_nalloc have_pool flags PR_TABLE_DEFAULT_NCHAINS seed"

definition pr_table_count :: "'v pr_table_t option \<Rightarrow> nat result" where
  "pr_table_count tab = (case tab of None \<Rightarrow> Inl EINVAL | Some t \<Rightarrow> Inr (t_nents t))"

text \<open>\<open>pr_table_do\<close>: the callback gets the key, the value and the caller's data, which it may change.\<close>

type_synonym ('v, 'u) do_cb =
  "string ptr \<Rightarrow> nat \<Rightarrow> 'v ptr option \<Rightarrow> nat \<Rightarrow> 'u \<Rightarrow> int \<times> 'u"

fun table_do_loop ::
  "'v pr_table_t \<Rightarrow> ('v, 'u) do_cb \<Rightarrow> bool \<Rightarrow> nat list \<Rightarrow> 'u \<Rightarrow> (unit result \<times> 'u) option" where
  "table_do_loop t cb all [] u = Some (Inr (), u)"
| "table_do_loop t cb all (e # es) u =
     (case te_key (t_ents t e) of
        None \<Rightarrow> None
      | Some k \<Rightarrow>
          (let (res, u') = cb (tk_data (t_keys t k)) (tk_datasz (t_keys t k))
                             (te_value (t_ents t e)) (te_valuesz (t_ents t e)) u
           in if res < 0 \<and> \<not> all then Some (Inl EPERM, u') else table_do_loop t cb all es u'))"

abbreviation PR_TABLE_DO_FL_ALL :: "32 word" where "PR_TABLE_DO_FL_ALL \<equiv> 0x10"

definition pr_table_do ::
  "'v pr_table_t option \<Rightarrow> ('v, 'u) do_cb option \<Rightarrow> 'u \<Rightarrow> 32 word \<Rightarrow> (unit result \<times> 'u) option" where
  "pr_table_do tab cb u flags =
     (case (tab, cb) of
        (Some t, Some f) \<Rightarrow>
          (if t_nents t = 0 then Some (Inr (), u)
           else table_do_loop t f (flags AND PR_TABLE_DO_FL_ALL \<noteq> 0) (concat (t_chains t)) u)
      | _ \<Rightarrow> Some (Inl EINVAL, u))"

text \<open>\<open>pr_table_empty\<close>: the inner loop takes the head of a chain until the chain is empty.\<close>

partial_function (option) empty_chain :: "nat \<Rightarrow> 'v pr_table_t \<Rightarrow> 'v pr_table_t option" where
  "empty_chain i t =
     (case t_chains t ! i of
        [] \<Rightarrow> Some t
      | e # _ \<Rightarrow> Option.bind (tab_entry_remove t e) (\<lambda>t'. empty_chain i (tab_entry_free t' e)))"

fun empty_chains :: "nat \<Rightarrow> nat \<Rightarrow> 'v pr_table_t \<Rightarrow> 'v pr_table_t option" where
  "empty_chains 0 i t = Some t"
| "empty_chains (Suc n) i t =
     (case empty_chain i t of
        None \<Rightarrow> None
      | Some t' \<Rightarrow> empty_chains n (Suc i) (set_chain i [] t'))"

definition pr_table_empty ::
  "'v pr_table_t option \<Rightarrow> (unit result \<times> 'v pr_table_t option) option" where
  "pr_table_empty tab =
     with_objx tab (\<lambda>t.
       if t_nents t = 0 then Some (Inr (), t)
       else map_option (\<lambda>t'. (Inr (), t')) (empty_chains (t_nchains t) 0 t))"

definition pr_table_exists ::
  "'v pr_table_t option \<Rightarrow> string ptr option \<Rightarrow> (nat result \<times> 'v pr_table_t option) option" where
  "pr_table_exists tab key_data =
     (case (tab, key_data) of
        (Some t, Some key) \<Rightarrow> pr_table_kexists tab (Some (c_str key)) (str_keysz key)
      | _ \<Rightarrow> Some (Inl EINVAL, tab))"

text \<open>\<open>pr_table_free\<close> destroys the table's pool, so no table is left.\<close>

definition pr_table_free :: "'v pr_table_t option \<Rightarrow> unit result \<times> 'v pr_table_t option" where
  "pr_table_free tab =
     (case tab of
        None \<Rightarrow> (Inl EINVAL, None)
      | Some t \<Rightarrow> if t_nents t \<noteq> 0 then (Inl EPERM, tab) else (Inr (), None))"

definition pr_table_get ::
  "'v pr_table_t option \<Rightarrow> string ptr option \<Rightarrow>
   (('v ptr option \<times> nat) result \<times> 'v pr_table_t option) option" where
  "pr_table_get tab key_data =
     (case tab of
        None \<Rightarrow> Some (Inl EINVAL, None)
      | Some t \<Rightarrow>
          pr_table_kget tab (map_option c_str key_data)
            (case key_data of None \<Rightarrow> 0 | Some key \<Rightarrow> str_keysz key))"

text \<open>The loop of \<open>pr_table_next\<close> over the remaining entries of the previous key.\<close>

partial_function (option) table_next_loop ::
  "nat option \<Rightarrow> nat option \<Rightarrow> 'v pr_table_t \<Rightarrow> (nat option \<times> 'v pr_table_t) option" where
  "table_next_loop prev ent t =
     (case (ent, prev) of
        (Some e, Some p) \<Rightarrow>
          (if te_key (t_ents t e) = te_key (t_ents t p)
           then table_next_loop prev (fst (tab_entry_next t)) (snd (tab_entry_next t))
           else Some (ent, t))
      | _ \<Rightarrow> Some (ent, t))"

definition pr_table_next ::
  "'v pr_table_t option \<Rightarrow> (string ptr result \<times> 'v pr_table_t option) option" where
  "pr_table_next tab =
     with_objx tab (\<lambda>t.
       (let prev = t_tab_iter_ent t; (ent, t1) = tab_entry_next t in
        case table_next_loop prev ent t1 of
          None \<Rightarrow> None
        | Some (None, t2) \<Rightarrow> Some (Inl EPERM, t2)
        | Some (Some e, t2) \<Rightarrow>
            (case te_key (t_ents t2 e) of
               None \<Rightarrow> None
             | Some k \<Rightarrow> Some (Inr (tk_data (t_keys t2 k)), t2))))"

definition pr_table_remove ::
  "'v pr_table_t option \<Rightarrow> string ptr option \<Rightarrow>
   (('v ptr option \<times> nat) result \<times> 'v pr_table_t option) option" where
  "pr_table_remove tab key_data =
     (case (tab, key_data) of
        (Some t, Some key) \<Rightarrow> pr_table_kremove tab (Some (c_str key)) (str_keysz key)
      | _ \<Rightarrow> Some (Inl EINVAL, tab))"

definition pr_table_rewind :: "'v pr_table_t option \<Rightarrow> unit result \<times> 'v pr_table_t option" where
  "pr_table_rewind tab = with_obj tab (\<lambda>t. (Inr (), t\<lparr>t_tab_iter_ent := None\<rparr>))"

definition pr_table_set ::
  "('v \<Rightarrow> nat) \<Rightarrow> 'v pr_table_t option \<Rightarrow> string ptr option \<Rightarrow> 'v ptr option \<Rightarrow> nat \<Rightarrow>
   (unit result \<times> 'v pr_table_t option) option" where
  "pr_table_set vstrlen tab key_data value_data value_datasz =
     (case (tab, key_data) of
        (Some t, Some key) \<Rightarrow>
          pr_table_kset tab (Some (c_str key)) (str_keysz key) value_data
            (value_size vstrlen value_data value_datasz)
      | _ \<Rightarrow> Some (Inl EINVAL, tab))"

text \<open>The control commands with their arguments; an argument pointer may be \<open>NULL\<close>, and the code reads
  the argument of \<open>PR_TABLE_CTL_SET_MAX_ENTS\<close> without a check.\<close>

datatype table_ctl =
    CtlSetKeyHash "(string ptr \<Rightarrow> nat \<Rightarrow> 32 word) option"
  | CtlSetFlags "64 word option"
  | CtlSetKeyCmp "(string ptr \<Rightarrow> nat \<Rightarrow> string ptr \<Rightarrow> nat \<Rightarrow> int) option"
  | CtlSetEntInsert "(nat list \<Rightarrow> nat \<Rightarrow> nat list) option"
  | CtlSetEntRemove "(nat list \<Rightarrow> nat \<Rightarrow> nat list) option"
  | CtlSetNchains "nat option"
  | CtlSetMaxEnts "nat option"
  | CtlOther

fun table_ctl_apply :: "table_ctl \<Rightarrow> 'v pr_table_t \<Rightarrow> (unit result \<times> 'v pr_table_t) option" where
  "table_ctl_apply (CtlSetKeyHash arg) t =
     Some (Inr (), t\<lparr>t_keyhash := (case arg of Some f \<Rightarrow> f | None \<Rightarrow> key_hash)\<rparr>)"
| "table_ctl_apply (CtlSetFlags arg) t =
     (case arg of None \<Rightarrow> Some (Inl EINVAL, t) | Some f \<Rightarrow> Some (Inr (), t\<lparr>t_flags := f\<rparr>))"
| "table_ctl_apply (CtlSetKeyCmp arg) t =
     Some (Inr (), t\<lparr>t_keycmp := (case arg of Some f \<Rightarrow> f | None \<Rightarrow> key_cmp)\<rparr>)"
| "table_ctl_apply (CtlSetEntInsert arg) t =
     Some (Inr (), t\<lparr>t_entinsert := (case arg of Some f \<Rightarrow> f | None \<Rightarrow> entry_insert)\<rparr>)"
| "table_ctl_apply (CtlSetEntRemove arg) t =
     Some (Inr (), t\<lparr>t_entremove := (case arg of Some f \<Rightarrow> f | None \<Rightarrow> entry_remove)\<rparr>)"
| "table_ctl_apply (CtlSetNchains arg) t =
     (case arg of
        None \<Rightarrow> Some (Inl EINVAL, t)
      | Some n \<Rightarrow>
          if n = 0 then Some (Inl EINVAL, t)
          else Some (Inr (), t\<lparr>t_nchains := n, t_chains := replicate n []\<rparr>))"
| "table_ctl_apply (CtlSetMaxEnts arg) t =
     (case arg of
        None \<Rightarrow> None
      | Some n \<Rightarrow>
          if n = 0 then Some (Inl EINVAL, t)
          else if n < t_nents t then Some (Inl EPERM, t)
          else Some (Inr (), t\<lparr>t_nmaxents := n\<rparr>))"
| "table_ctl_apply CtlOther t = Some (Inl EINVAL, t)"

definition pr_table_ctl ::
  "'v pr_table_t option \<Rightarrow> table_ctl \<Rightarrow> (unit result \<times> 'v pr_table_t option) option" where
  "pr_table_ctl tab cmd =
     with_objx tab (\<lambda>t. if t_nents t \<noteq> 0 then Some (Inl EPERM, t) else table_ctl_apply cmd t)"

text \<open>The load is computed by an integer division before it is converted to \<open>float\<close>.\<close>

definition pr_table_load :: "'v pr_table_t option \<Rightarrow> nat result" where
  "pr_table_load tab =
     (case tab of None \<Rightarrow> Inl EINVAL | Some t \<Rightarrow> Inr (t_nents t div t_nchains t))"

end
