(* ===== verification/Table_Laws.thy ===== *)
theory Table_Laws
  imports Table
begin

text \<open>
  Correctness of the hash table of \<open>src/table.c\<close>. The abstract view of a table is \<open>tab_vals\<close>, the list
  of values of each key; \<open>tab_inv\<close> is the representation invariant. The locale \<open>table_keys\<close> states what
  the library needs of a key comparison callback (its zero is an equivalence) and proves each operation
  correct from that alone; it is interpreted on the default callback \<open>key_cmp\<close>.
\<close>

unbundle bit_operations_syntax

section \<open>Representation invariant and abstraction\<close>

definition same_key :: "'v pr_table_t \<Rightarrow> nat \<Rightarrow> nat \<Rightarrow> bool" where
  "same_key t k k' \<longleftrightarrow> tk_hash (t_keys t k) = tk_hash (t_keys t k') \<and>
     t_keycmp t (tk_data (t_keys t k)) (tk_datasz (t_keys t k))
                (tk_data (t_keys t k')) (tk_datasz (t_keys t k')) = 0"

definition ent_ok :: "'v pr_table_t \<Rightarrow> nat \<Rightarrow> nat list \<Rightarrow> nat \<Rightarrow> bool" where
  "ent_ok t i c e \<longleftrightarrow> te_idx (t_ents t e) = i \<and> e < t_next_ent t \<and> e \<notin> set (t_free_ents t) \<and>
     (\<exists>k. te_key (t_ents t e) = Some k \<and> k < t_next_key t \<and> k \<notin> set (t_free_keys t) \<and>
          tab_idx t (tk_hash (t_keys t k)) = i \<and>
          tk_nents (t_keys t k) = length (filter (\<lambda>x. te_key (t_ents t x) = Some k) c))"

definition keys_unique :: "'v pr_table_t \<Rightarrow> nat list \<Rightarrow> bool" where
  "keys_unique t c \<longleftrightarrow>
     (\<forall>e \<in> set c. \<forall>e' \<in> set c. \<forall>k k'. te_key (t_ents t e) = Some k \<longrightarrow>
        te_key (t_ents t e') = Some k' \<longrightarrow> same_key t k k' \<longrightarrow> k = k')"

definition chain_ok :: "'v pr_table_t \<Rightarrow> nat \<Rightarrow> nat list \<Rightarrow> bool" where
  "chain_ok t i c \<longleftrightarrow> distinct c \<and> (\<forall>e \<in> set c. ent_ok t i c e) \<and> keys_unique t c"

definition tab_inv :: "'v pr_table_t \<Rightarrow> bool" where
  "tab_inv t \<longleftrightarrow> 0 < t_nchains t \<and> length (t_chains t) = t_nchains t \<and>
     (\<forall>i < t_nchains t. chain_ok t i (t_chains t ! i)) \<and>
     distinct (t_free_ents t) \<and>
     (\<forall>e \<in> set (t_free_ents t). e < t_next_ent t \<and> t_ents t e = zero_entry) \<and>
     distinct (t_free_keys t) \<and> (\<forall>k \<in> set (t_free_keys t). k < t_next_key t) \<and>
     t_nents t = sum_list (map length (t_chains t)) \<and> t_nents t \<le> t_nmaxents t"

text \<open>Every entry object that has a key is linked into its chain, which makes the entry remembered by the
  cache, when it has a key, one that can be removed.\<close>

definition tab_linked :: "'v pr_table_t \<Rightarrow> bool" where
  "tab_linked t \<longleftrightarrow> (\<forall>e. te_key (t_ents t e) \<noteq> None \<longrightarrow>
     te_idx (t_ents t e) < t_nchains t \<and> e \<in> set (t_chains t ! te_idx (t_ents t e)))"

definition tab_std :: "'v pr_table_t \<Rightarrow> bool" where
  "tab_std t \<longleftrightarrow> t_entinsert t = entry_insert \<and> t_entremove t = entry_remove"

definition tab_vals :: "'v pr_table_t \<Rightarrow> string ptr \<Rightarrow> nat \<Rightarrow> ('v ptr option \<times> nat) list" where
  "tab_vals t key sz =
     (let h = tab_hash t key sz in
      map (\<lambda>e. (te_value (t_ents t e), te_valuesz (t_ents t e)))
        (filter (ent_matches t h key sz) (t_chains t ! tab_idx t h)))"

section \<open>Chains\<close>

lemma chain_frame:
  assumes "chain_ok t i c"
    and E: "\<And>e. e \<in> set c \<Longrightarrow> t_ents t' e = t_ents t e"
    and K: "\<And>e k. e \<in> set c \<Longrightarrow> te_key (t_ents t e) = Some k \<Longrightarrow> t_keys t' k = t_keys t k"
    and N: "t_next_ent t \<le> t_next_ent t'" "t_next_key t \<le> t_next_key t'"
    and FE: "set (t_free_ents t') \<inter> set c = {}"
    and FK: "\<And>e k. e \<in> set c \<Longrightarrow> te_key (t_ents t e) = Some k \<Longrightarrow> k \<notin> set (t_free_keys t')"
    and C: "t_nchains t' = t_nchains t" "t_keycmp t' = t_keycmp t"
  shows "chain_ok t' i c"
proof -
  have "ent_ok t' i c e" if e: "e \<in> set c" for e
  proof -
    have "ent_ok t i c e" using assms(1) e unfolding chain_ok_def by blast
    then obtain k where k: "te_key (t_ents t e) = Some k"
      "k < t_next_key t" "tab_idx t (tk_hash (t_keys t k)) = i"
      "tk_nents (t_keys t k) = length (filter (\<lambda>x. te_key (t_ents t x) = Some k) c)"
      and o: "te_idx (t_ents t e) = i" "e < t_next_ent t"
      unfolding ent_ok_def by blast
    have f: "filter (\<lambda>x. te_key (t_ents t' x) = Some k) c = filter (\<lambda>x. te_key (t_ents t x) = Some k) c"
      by (rule filter_cong [OF refl]) (simp add: E)
    have "k < t_next_key t'" "e < t_next_ent t'" using k(2) o(2) N by simp_all
    moreover have "e \<notin> set (t_free_ents t')" using FE e by blast
    ultimately show ?thesis
      unfolding ent_ok_def E [OF e] C
      using k o f K [OF e k(1)] FK [OF e k(1)] by simp
  qed
  moreover have "keys_unique t' c"
    unfolding keys_unique_def
  proof (intro ballI allI impI)
    fix e e' k k'
    assume a: "e \<in> set c" "e' \<in> set c" "te_key (t_ents t' e) = Some k"
      "te_key (t_ents t' e') = Some k'" "same_key t' k k'"
    then have k: "te_key (t_ents t e) = Some k" "te_key (t_ents t e') = Some k'"
      by (simp_all add: E)
    have "same_key t k k'"
      using a(5) unfolding same_key_def C K [OF a(1) k(1)] K [OF a(2) k(2)] .
    then show "k = k'" using assms(1) a(1,2) k unfolding chain_ok_def keys_unique_def by blast
  qed
  ultimately show ?thesis using assms(1) unfolding chain_ok_def by blast
qed

lemma tab_inv_chain: "tab_inv t \<Longrightarrow> i < t_nchains t \<Longrightarrow> chain_ok t i (t_chains t ! i)"
  by (simp add: tab_inv_def)

lemma tab_idx_less: "tab_inv t \<Longrightarrow> tab_idx t h < t_nchains t"
  by (simp add: tab_inv_def)

lemma chain_ok_has_key: "chain_ok t i c \<Longrightarrow> e \<in> set c \<Longrightarrow> \<exists>k. te_key (t_ents t e) = Some k"
  unfolding chain_ok_def ent_ok_def by fastforce

lemma chain_ok_keyD:
  "chain_ok t i c \<Longrightarrow> e \<in> set c \<Longrightarrow> te_key (t_ents t e) = Some k \<Longrightarrow>
   k < t_next_key t \<and> k \<notin> set (t_free_keys t) \<and> tab_idx t (tk_hash (t_keys t k)) = i \<and>
   tk_nents (t_keys t k) = length (filter (\<lambda>x. te_key (t_ents t x) = Some k) c)"
  unfolding chain_ok_def ent_ok_def by fastforce

lemma chain_ok_entD:
  "chain_ok t i c \<Longrightarrow> e \<in> set c \<Longrightarrow>
   te_idx (t_ents t e) = i \<and> e < t_next_ent t \<and> e \<notin> set (t_free_ents t)"
  unfolding chain_ok_def ent_ok_def by fastforce

lemma ent_matches_cong:
  "t_ents t' e = t_ents t e \<Longrightarrow>
   (\<And>k. te_key (t_ents t e) = Some k \<Longrightarrow>
      tk_data (t_keys t' k) = tk_data (t_keys t k) \<and> tk_datasz (t_keys t' k) = tk_datasz (t_keys t k) \<and>
      tk_hash (t_keys t' k) = tk_hash (t_keys t k)) \<Longrightarrow>
   t_keycmp t' = t_keycmp t \<Longrightarrow> ent_matches t' h key sz e = ent_matches t h key sz e"
  by (auto simp: ent_matches_def split: option.splits)

lemma kadd_scan_eq:
  assumes "\<forall>e \<in> set c. te_key (t_ents t e) \<noteq> None"
  shows "kadd_scan t h key sz c acc =
    Some (if filter (ent_matches t h key sz) c = [] then Inr acc
          else if has_flag t PR_TABLE_FL_MULTI_VALUE
          then Inr (te_key (t_ents t (last (filter (ent_matches t h key sz) c))))
          else Inl EEXIST)"
  using assms
proof (induction c arbitrary: acc)
  case (Cons e c)
  then obtain k where "te_key (t_ents t e) = Some k" by auto
  moreover from this have "ent_matches t h key sz e \<longleftrightarrow> tk_hash (t_keys t k) = h \<and>
      t_keycmp t (tk_data (t_keys t k)) (tk_datasz (t_keys t k)) key sz = 0"
    by (simp add: ent_matches_def)
  ultimately show ?case using Cons by simp
qed simp

lemma find_entry_eq:
  "find_entry t h key sz c =
     (case filter (ent_matches t h key sz) c of [] \<Rightarrow> None | e # _ \<Rightarrow> Some e)"
  by (induction c) auto

lemma find_entry_SomeD: "find_entry t h key sz c = Some e \<Longrightarrow> e \<in> set c \<and> ent_matches t h key sz e"
  by (induction c) (auto split: if_splits)

lemma tab_entry_alloc_fresh:
  assumes inv: "tab_inv t" and "tab_entry_alloc t = (n, t1)"
  shows "\<forall>i < t_nchains t. n \<notin> set (t_chains t ! i)"
    and "n < t_next_ent t1" "n \<notin> set (t_free_ents t1)" "t_next_ent t \<le> t_next_ent t1"
    and "set (t_free_ents t1) \<subseteq> set (t_free_ents t)" "distinct (t_free_ents t1)"
    and "t_ents t1 = (t_ents t)(n := zero_entry)"
    and "t1 = t\<lparr>t_ents := t_ents t1, t_free_ents := t_free_ents t1, t_next_ent := t_next_ent t1\<rparr>"
proof -
  have free: "n < t_next_ent t \<and> t_ents t n = zero_entry" if "n \<in> set (t_free_ents t)"
    using inv that by (simp add: tab_inv_def)
  have chain: "e < t_next_ent t \<and> e \<notin> set (t_free_ents t)"
    if "i < t_nchains t" "e \<in> set (t_chains t ! i)" for i e
    using chain_ok_entD [OF tab_inv_chain [OF inv that(1)] that(2)] by simp
  have dist: "distinct (t_free_ents t)" and lt: "\<forall>e \<in> set (t_free_ents t). e < t_next_ent t"
    using inv by (auto simp: tab_inv_def)
  show "\<forall>i < t_nchains t. n \<notin> set (t_chains t ! i)"
    using assms(2) chain by (fastforce simp: tab_entry_alloc_def split: list.splits)
  show "n < t_next_ent t1" "n \<notin> set (t_free_ents t1)" "t_next_ent t \<le> t_next_ent t1"
    "set (t_free_ents t1) \<subseteq> set (t_free_ents t)" "distinct (t_free_ents t1)"
    using assms(2) dist lt by (auto simp: tab_entry_alloc_def split: list.splits)
  show "t_ents t1 = (t_ents t)(n := zero_entry)"
    using assms(2) free by (auto simp: tab_entry_alloc_def split: list.splits)
  show "t1 = t\<lparr>t_ents := t_ents t1, t_free_ents := t_free_ents t1, t_next_ent := t_next_ent t1\<rparr>"
    using assms(2) by (auto simp: tab_entry_alloc_def split: list.splits)
qed

lemma tab_key_alloc_fresh:
  assumes "distinct (t_free_keys t)" and "\<forall>k \<in> set (t_free_keys t). k < t_next_key t"
    and "tab_key_alloc t = (n, t1)"
  shows "n < t_next_key t1" "n \<notin> set (t_free_keys t1)" "t_next_key t \<le> t_next_key t1"
    "set (t_free_keys t1) \<subseteq> set (t_free_keys t)" "distinct (t_free_keys t1)"
    "n \<in> set (t_free_keys t) \<or> n = t_next_key t"
    "\<And>k. k \<noteq> n \<Longrightarrow> t_keys t1 k = t_keys t k"
    "t1 = t\<lparr>t_keys := t_keys t1, t_free_keys := t_free_keys t1, t_next_key := t_next_key t1\<rparr>"
  using assms by (auto simp: tab_key_alloc_def split: list.splits)

lemma sum_list_length_update:
  "i < length cs \<Longrightarrow>
   sum_list (map length (cs[i := c])) + length (cs ! i) = sum_list (map length cs) + length c"
  by (induction cs arbitrary: i) (auto split: nat.splits)

section \<open>Linking and unlinking an entry\<close>

lemma tab_inv_link:
  assumes inv: "tab_inv t" and i: "i < t_nchains t"
    and chains: "t_chains t' = (t_chains t)[i := t_chains t ! i @ [n]]"
    and ents: "t_ents t' = (t_ents t)(n := e0)" "te_idx e0 = i" "te_key e0 = Some k"
    and n: "\<forall>j < t_nchains t. n \<notin> set (t_chains t ! j)" "n < t_next_ent t'"
      "n \<notin> set (t_free_ents t')" "t_next_ent t \<le> t_next_ent t'"
      "set (t_free_ents t') \<subseteq> set (t_free_ents t)" "distinct (t_free_ents t')"
    and keys: "\<forall>x. x \<noteq> k \<longrightarrow> t_keys t' x = t_keys t x"
    and k: "k < t_next_key t'" "k \<notin> set (t_free_keys t')" "t_next_key t \<le> t_next_key t'"
      "set (t_free_keys t') \<subseteq> set (t_free_keys t)" "distinct (t_free_keys t')"
      "tab_idx t (tk_hash (t_keys t' k)) = i"
      "tk_nents (t_keys t' k) =
         Suc (length (filter (\<lambda>x. te_key (t_ents t x) = Some k) (t_chains t ! i)))"
    and only: "\<forall>j < t_nchains t. j \<noteq> i \<longrightarrow> (\<forall>e \<in> set (t_chains t ! j). te_key (t_ents t e) \<noteq> Some k)"
    and uniq: "\<forall>e \<in> set (t_chains t ! i). \<forall>x. te_key (t_ents t e) = Some x \<longrightarrow>
      same_key t' k x \<or> same_key t' x k \<longrightarrow> x = k"
    and rest: "t_nchains t' = t_nchains t" "t_keycmp t' = t_keycmp t"
      "t_nents t' = Suc (t_nents t)" "t_nents t < t_nmaxents t" "t_nmaxents t' = t_nmaxents t"
  shows "tab_inv t'"
proof -
  let ?c = "t_chains t ! i"
  have len: "length (t_chains t) = t_nchains t" using inv by (simp add: tab_inv_def)
  have okc: "chain_ok t i ?c" by (rule tab_inv_chain [OF inv i])
  have other: "chain_ok t' j (t_chains t' ! j)" if j: "j < t_nchains t" "j \<noteq> i" for j
  proof -
    have ok: "chain_ok t j (t_chains t ! j)" by (rule tab_inv_chain [OF inv j(1)])
    have "chain_ok t' j (t_chains t ! j)"
    proof (rule chain_frame [OF ok _ _ n(4) k(3) _ _ rest(1,2)])
      show "t_ents t' e = t_ents t e" if "e \<in> set (t_chains t ! j)" for e
        using that n(1) j(1) ents(1) by auto
      show "t_keys t' x = t_keys t x"
        if "e \<in> set (t_chains t ! j)" "te_key (t_ents t e) = Some x" for e x
      proof -
        have "x \<noteq> k" using that only j by auto
        then show ?thesis using keys by simp
      qed
      show "set (t_free_ents t') \<inter> set (t_chains t ! j) = {}"
        using n(5) chain_ok_entD [OF ok] by blast
      show "x \<notin> set (t_free_keys t')"
        if "e \<in> set (t_chains t ! j)" "te_key (t_ents t e) = Some x" for e x
        using chain_ok_keyD [OF ok that] k(4) by blast
    qed
    then show ?thesis using j(2) chains by simp
  qed
  have E: "t_ents t' e = t_ents t e" if "e \<in> set ?c" for e using that n(1) i ents(1) by auto
  have cnt: "length (filter (\<lambda>x. te_key (t_ents t' x) = Some y) (?c @ [n])) =
      length (filter (\<lambda>x. te_key (t_ents t x) = Some y) ?c) + (if y = k then 1 else 0)" for y
  proof -
    have "filter (\<lambda>x. te_key (t_ents t' x) = Some y) ?c = filter (\<lambda>x. te_key (t_ents t x) = Some y) ?c"
      by (rule filter_cong [OF refl]) (simp add: E)
    then show ?thesis using ents by simp
  qed
  have new: "ent_ok t' i (?c @ [n]) n"
    unfolding ent_ok_def using ents n(2,3) k cnt [of k] rest(1) by simp
  have old: "ent_ok t' i (?c @ [n]) e" if e: "e \<in> set ?c" for e
  proof -
    obtain x where x: "te_key (t_ents t e) = Some x" using chain_ok_has_key [OF okc e] by blast
    note kd = chain_ok_keyD [OF okc e x] and ed = chain_ok_entD [OF okc e]
    have "tk_nents (t_keys t' x) = length (filter (\<lambda>z. te_key (t_ents t' z) = Some x) (?c @ [n]))"
      using cnt [of x] kd k(7) keys by (cases "x = k") auto
    moreover have "tab_idx t' (tk_hash (t_keys t' x)) = i"
      using kd k(6) keys rest(1) by (cases "x = k") auto
    ultimately show ?thesis
      unfolding ent_ok_def E [OF e] using x kd ed n(4,5) k(3,4) by auto
  qed
  have "keys_unique t' (?c @ [n])"
    unfolding keys_unique_def
  proof (intro ballI allI impI)
    fix e e' x y
    assume e: "e \<in> set (?c @ [n])" "e' \<in> set (?c @ [n])"
      and x: "te_key (t_ents t' e) = Some x" and y: "te_key (t_ents t' e') = Some y"
      and s: "same_key t' x y"
    have kn: "te_key (t_ents t' n) = Some k" using ents by simp
    have km: "te_key (t_ents t e) = Some x" if "e \<in> set ?c" using E [OF that] x by simp
    have km': "te_key (t_ents t e') = Some y" if "e' \<in> set ?c" using E [OF that] y by simp
    consider "e \<in> set ?c" "e' \<in> set ?c" "x \<noteq> k" "y \<noteq> k" | "x = k" "y = k"
      | "e \<in> set ?c" "y = k" "x \<noteq> k" | "e' \<in> set ?c" "x = k" "y \<noteq> k"
      using e x y kn by fastforce
    then show "x = y"
    proof cases
      case 1
      then have "same_key t x y" using s keys rest(2) by (simp add: same_key_def)
      then show ?thesis using okc 1 km km' unfolding chain_ok_def keys_unique_def by blast
    next
      case 3
      then show ?thesis using uniq km s by blast
    next
      case 4
      then show ?thesis using uniq km' s by blast
    qed simp
  qed
  then have "chain_ok t' i (?c @ [n])"
    unfolding chain_ok_def using okc n(1) i new old by (auto simp: chain_ok_def)
  then have all: "\<forall>j < t_nchains t'. chain_ok t' j (t_chains t' ! j)"
    using other rest(1) chains len i by (metis nth_list_update_eq)
  have "t_nents t' = sum_list (map length (t_chains t'))"
    using sum_list_length_update [of i "t_chains t" "?c @ [n]"] i len inv rest(3) chains
    by (simp add: tab_inv_def)
  moreover have "\<forall>e \<in> set (t_free_ents t'). e < t_next_ent t' \<and> t_ents t' e = zero_entry"
    using inv n(3,4,5) ents(1) by (fastforce simp: tab_inv_def)
  moreover have "\<forall>x \<in> set (t_free_keys t'). x < t_next_key t'"
    using inv k(3,4) by (fastforce simp: tab_inv_def)
  ultimately show ?thesis
    using all inv n(6) k(5) rest chains len by (simp add: tab_inv_def)
qed

lemma length_filter_remove1:
  "e \<in> set c \<Longrightarrow> length (filter P (remove1 e c)) = length (filter P c) - (if P e then 1 else 0)"
  by (simp add: filter_remove1 length_remove1)

lemma tab_inv_unlink:
  assumes inv: "tab_inv t" and i: "i < t_nchains t" and e: "e \<in> set (t_chains t ! i)"
    and k: "te_key (t_ents t e) = Some k"
    and chains: "t_chains t' = (t_chains t)[i := remove1 e (t_chains t ! i)]"
    and ents: "t_ents t' = (t_ents t)(e := zero_entry)"
    and fe: "t_free_ents t' = t_free_ents t @ [e]" "t_next_ent t' = t_next_ent t"
    and keys: "\<forall>x. x \<noteq> k \<longrightarrow> t_keys t' x = t_keys t x"
    and last: "tk_nents (t_keys t k) = 1 \<Longrightarrow> t_free_keys t' = t_free_keys t @ [k]"
    and more: "tk_nents (t_keys t k) \<noteq> 1 \<Longrightarrow> t_free_keys t' = t_free_keys t \<and>
      t_keys t' k = (t_keys t k)\<lparr>tk_nents := tk_nents (t_keys t k) - 1\<rparr>"
    and rest: "t_next_key t' = t_next_key t" "t_nchains t' = t_nchains t" "t_keycmp t' = t_keycmp t"
      "t_nents t' = t_nents t - 1" "t_nmaxents t' = t_nmaxents t"
  shows "tab_inv t'"
proof -
  let ?c = "t_chains t ! i"
  have len: "length (t_chains t) = t_nchains t" using inv by (simp add: tab_inv_def)
  have okc: "chain_ok t i ?c" by (rule tab_inv_chain [OF inv i])
  note kd = chain_ok_keyD [OF okc e k] and ed = chain_ok_entD [OF okc e]
  have fks: "set (t_free_keys t') \<subseteq> insert k (set (t_free_keys t))"
    using last more by (cases "tk_nents (t_keys t k) = 1") auto
  have e_only: "e \<notin> set (t_chains t ! j)" if "j < t_nchains t" "j \<noteq> i" for j
    using chain_ok_entD [OF tab_inv_chain [OF inv that(1)]] ed that by blast
  have k_only: "te_key (t_ents t x) \<noteq> Some k" if "j < t_nchains t" "j \<noteq> i" "x \<in> set (t_chains t ! j)" for j x
    using chain_ok_keyD [OF tab_inv_chain [OF inv that(1)] that(3)] kd that by blast
  have other: "chain_ok t' j (t_chains t' ! j)" if j: "j < t_nchains t" "j \<noteq> i" for j
  proof -
    have ok: "chain_ok t j (t_chains t ! j)" by (rule tab_inv_chain [OF inv j(1)])
    have "chain_ok t' j (t_chains t ! j)"
    proof (rule chain_frame [OF ok _ _ _ _ _ _ rest(2,3)])
      show "t_ents t' x = t_ents t x" if "x \<in> set (t_chains t ! j)" for x
        using that e_only [OF j] ents by auto
      show "t_keys t' y = t_keys t y"
        if "x \<in> set (t_chains t ! j)" "te_key (t_ents t x) = Some y" for x y
      proof -
        have "y \<noteq> k" using k_only [OF j that(1)] that(2) by auto
        then show ?thesis using keys by simp
      qed
      show "set (t_free_ents t') \<inter> set (t_chains t ! j) = {}"
        using fe e_only [OF j] chain_ok_entD [OF ok] by auto
      show "y \<notin> set (t_free_keys t')"
        if "x \<in> set (t_chains t ! j)" "te_key (t_ents t x) = Some y" for x y
        using chain_ok_keyD [OF ok that] fks k_only [OF j that(1)] that(2) by blast
    qed (simp_all add: fe rest)
    then show ?thesis using j(2) chains by simp
  qed
  have dc: "distinct ?c" using okc by (simp add: chain_ok_def)
  have E: "t_ents t' x = t_ents t x" if "x \<in> set (remove1 e ?c)" for x
    using that dc ents by auto
  have cnt: "length (filter (\<lambda>x. te_key (t_ents t' x) = Some y) (remove1 e ?c)) =
      length (filter (\<lambda>x. te_key (t_ents t x) = Some y) ?c) - (if y = k then 1 else 0)" for y
  proof -
    have "filter (\<lambda>x. te_key (t_ents t' x) = Some y) (remove1 e ?c) =
        filter (\<lambda>x. te_key (t_ents t x) = Some y) (remove1 e ?c)"
      by (rule filter_cong [OF refl]) (simp add: E)
    then show ?thesis using length_filter_remove1 [OF e] k by simp
  qed
  have old: "ent_ok t' i (remove1 e ?c) x" if x: "x \<in> set (remove1 e ?c)" for x
  proof -
    have xc: "x \<in> set ?c" "x \<noteq> e" using x dc by auto
    obtain y where y: "te_key (t_ents t x) = Some y" using chain_ok_has_key [OF okc xc(1)] by blast
    note yd = chain_ok_keyD [OF okc xc(1) y] and xd = chain_ok_entD [OF okc xc(1)]
    have two: "tk_nents (t_keys t k) \<noteq> 1" if "y = k"
    proof -
      have "x \<in> set (filter (\<lambda>z. te_key (t_ents t z) = Some k) (remove1 e ?c))"
        using x y that by simp
      then have "0 < length (filter (\<lambda>z. te_key (t_ents t z) = Some k) (remove1 e ?c))"
        by (rule length_pos_if_in_set)
      then show ?thesis using length_filter_remove1 [OF e, of "\<lambda>z. te_key (t_ents t z) = Some k"] k kd by simp
    qed
    have kf: "y \<notin> set (t_free_keys t') \<and> tk_hash (t_keys t' y) = tk_hash (t_keys t y) \<and>
        tk_nents (t_keys t' y) = tk_nents (t_keys t y) - (if y = k then 1 else 0)"
    proof (cases "y = k")
      case True
      then show ?thesis using more [OF two [OF True]] yd by simp
    next
      case False
      then show ?thesis using keys fks yd by auto
    qed
    then show ?thesis
      unfolding ent_ok_def E [OF x] using y yd xd cnt [of y] fe rest xc(2) by auto
  qed
  have "keys_unique t' (remove1 e ?c)"
    unfolding keys_unique_def
  proof (intro ballI allI impI)
    fix a b x y
    assume ab: "a \<in> set (remove1 e ?c)" "b \<in> set (remove1 e ?c)"
      and xy: "te_key (t_ents t' a) = Some x" "te_key (t_ents t' b) = Some y" and s: "same_key t' x y"
    have abc: "a \<in> set ?c" "b \<in> set ?c" using ab set_remove1_subset by fast+
    have xy': "te_key (t_ents t a) = Some x" "te_key (t_ents t b) = Some y"
      using xy E [OF ab(1)] E [OF ab(2)] by simp_all
    have same: "tk_hash (t_keys t' z) = tk_hash (t_keys t z) \<and> tk_data (t_keys t' z) = tk_data (t_keys t z) \<and>
        tk_datasz (t_keys t' z) = tk_datasz (t_keys t z)"
      if z: "d \<in> set (remove1 e ?c)" "te_key (t_ents t d) = Some z" for d z
    proof (cases "z = k")
      case True
      have "ent_ok t' i (remove1 e ?c) d" by (rule old [OF z(1)])
      then have "z \<notin> set (t_free_keys t')" using z E [OF z(1)] by (auto simp: ent_ok_def)
      then have "tk_nents (t_keys t k) \<noteq> 1" using last True by auto
      then show ?thesis using more True by simp
    next
      case False
      then show ?thesis using keys by simp
    qed
    have "same_key t x y"
      using s same [OF ab(1) xy'(1)] same [OF ab(2) xy'(2)] rest(3) by (simp add: same_key_def)
    then show "x = y" using okc abc xy' unfolding chain_ok_def keys_unique_def by blast
  qed
  then have "chain_ok t' i (remove1 e ?c)"
    unfolding chain_ok_def using dc old by auto
  then have all: "\<forall>j < t_nchains t'. chain_ok t' j (t_chains t' ! j)"
    using other rest(2) chains len i by (metis nth_list_update_eq)
  have l: "length (remove1 e ?c) = length ?c - 1" "0 < length ?c"
    using e by (auto simp: length_remove1)
  have "t_nents t = sum_list (map length (t_chains t))" using inv by (simp add: tab_inv_def)
  then have "t_nents t' = sum_list (map length (t_chains t'))"
    using sum_list_length_update [of i "t_chains t" "remove1 e ?c"] i len rest(4) l
    unfolding chains by linarith
  moreover have "\<forall>x \<in> set (t_free_ents t'). x < t_next_ent t' \<and> t_ents t' x = zero_entry"
    using inv fe ed ents by (auto simp: tab_inv_def)
  moreover have "distinct (t_free_ents t')" using inv fe(1) ed by (simp add: tab_inv_def)
  moreover have "distinct (t_free_keys t')"
    using inv last more kd by (cases "tk_nents (t_keys t k) = 1") (auto simp: tab_inv_def)
  moreover have "\<forall>x \<in> set (t_free_keys t'). x < t_next_key t'"
    using inv fks kd rest(1) by (auto simp: tab_inv_def)
  moreover have "t_nents t \<le> t_nmaxents t" using inv by (simp add: tab_inv_def)
  then have "t_nents t' \<le> t_nmaxents t'" using rest(4,5) by linarith
  ultimately show ?thesis
    using all inv rest(2) chains len by (simp add: tab_inv_def)
qed

definition same_conf :: "'v pr_table_t \<Rightarrow> 'v pr_table_t \<Rightarrow> bool" where
  "same_conf t t' \<longleftrightarrow> t_flags t' = t_flags t \<and> t_seed t' = t_seed t \<and> t_nmaxents t' = t_nmaxents t \<and>
     t_nchains t' = t_nchains t \<and> t_keycmp t' = t_keycmp t \<and> t_keyhash t' = t_keyhash t \<and>
     t_entinsert t' = t_entinsert t \<and> t_entremove t' = t_entremove t"

definition same_saved :: "'v pr_table_t \<Rightarrow> 'v pr_table_t \<Rightarrow> bool" where
  "same_saved t t' \<longleftrightarrow> t_tab_iter_ent t' = t_tab_iter_ent t \<and>
     t_val_iter_ent t' = t_val_iter_ent t \<and> t_cache_ent t' = t_cache_ent t"

definition same_arg :: "'v pr_table_t \<Rightarrow> string ptr \<Rightarrow> nat \<Rightarrow> string ptr \<Rightarrow> nat \<Rightarrow> bool" where
  "same_arg t key sz key' sz' \<longleftrightarrow>
     tab_hash t key sz = tab_hash t key' sz' \<and> t_keycmp t key sz key' sz' = 0"

lemma tab_linked_link:
  assumes "tab_linked t" and "t_ents t' = (t_ents t)(n := \<lparr>te_idx = i, te_key = k, te_value = v, te_valuesz = vsz\<rparr>)"
    and "t_chains t' = (t_chains t)[i := t_chains t ! i @ [n]]" and "same_conf t t'"
    and "i < t_nchains t" and "length (t_chains t) = t_nchains t"
  shows "tab_linked t'"
  using assms by (auto simp: tab_linked_def same_conf_def nth_list_update)

lemma tab_linked_unlink:
  assumes "tab_linked t" and "t_ents t' = (t_ents t)(e := zero_entry)"
    and "t_chains t' = (t_chains t)[i := remove1 e (t_chains t ! i)]" and "t_nchains t' = t_nchains t"
    and "i < t_nchains t" and "length (t_chains t) = t_nchains t"
  shows "tab_linked t'"
  using assms by (auto simp: tab_linked_def zero_entry_def nth_list_update in_set_remove1)

lemma tab_vals_link:
  assumes inv: "tab_inv t" and conf: "same_conf t t'" and i: "i = tab_idx t (tab_hash t key sz)"
    and chains: "t_chains t' = (t_chains t)[i := t_chains t ! i @ [n]]"
    and ents: "t_ents t' = (t_ents t)(n := e0)"
    and n: "\<forall>j < t_nchains t. n \<notin> set (t_chains t ! j)"
    and keys: "\<And>j e x. j < t_nchains t \<Longrightarrow> e \<in> set (t_chains t ! j) \<Longrightarrow> te_key (t_ents t e) = Some x \<Longrightarrow>
      tk_data (t_keys t' x) = tk_data (t_keys t x) \<and> tk_datasz (t_keys t' x) = tk_datasz (t_keys t x) \<and>
      tk_hash (t_keys t' x) = tk_hash (t_keys t x)"
    and new: "\<And>h' key' sz'. ent_matches t' h' key' sz' n \<longleftrightarrow>
      tab_hash t key sz = h' \<and> t_keycmp t key sz key' sz' = 0"
  shows "tab_vals t' key' sz' = tab_vals t key' sz' @
           (if same_arg t key sz key' sz' then [(te_value e0, te_valuesz e0)] else [])"
proof -
  let ?h' = "tab_hash t key' sz'" and ?i' = "tab_idx t (tab_hash t key' sz')"
  let ?c = "t_chains t ! ?i'"
  have len: "length (t_chains t) = t_nchains t" using inv by (simp add: tab_inv_def)
  have i': "?i' < t_nchains t" by (rule tab_idx_less [OF inv])
  have E: "t_ents t' e = t_ents t e" if "e \<in> set ?c" for e using that n i' ents by auto
  have m: "ent_matches t' ?h' key' sz' e = ent_matches t ?h' key' sz' e" if e: "e \<in> set ?c" for e
    by (rule ent_matches_cong [OF E [OF e]])
      (use keys [OF i' e] conf in \<open>auto simp: same_conf_def\<close>)
  have old: "map (\<lambda>e. (te_value (t_ents t' e), te_valuesz (t_ents t' e)))
                 (filter (ent_matches t' ?h' key' sz') ?c) =
             map (\<lambda>e. (te_value (t_ents t e), te_valuesz (t_ents t e)))
                 (filter (ent_matches t ?h' key' sz') ?c)"
  proof -
    have "filter (ent_matches t' ?h' key' sz') ?c = filter (ent_matches t ?h' key' sz') ?c"
      by (rule filter_cong [OF refl]) (rule m)
    then show ?thesis by (simp add: E)
  qed
  have hs: "tab_hash t' key' sz' = ?h'" "tab_idx t' ?h' = ?i'" using conf by (simp_all add: same_conf_def)
  show ?thesis
  proof (cases "?i' = i")
    case True
    then have "t_chains t' ! ?i' = ?c @ [n]" using chains len i' by simp
    then show ?thesis
      unfolding tab_vals_def Let_def hs
      using old new [of ?h' key' sz'] ents by (auto simp: same_arg_def)
  next
    case False
    then have "t_chains t' ! ?i' = ?c" using chains by simp
    moreover have "\<not> same_arg t key sz key' sz'" using False i by (auto simp: same_arg_def)
    ultimately show ?thesis unfolding tab_vals_def Let_def hs using old by simp
  qed
qed

lemma tab_entry_insert_link:
  assumes "tab_std t" and "te_idx (t_ents t n) = i" and "te_key (t_ents t n) = Some k"
    and "n \<notin> set c" and "i < length (t_chains t)" and "t_chains t ! i = (if c = [] then [n] else c)"
  shows "tab_entry_insert t n =
    Some (t\<lparr>t_chains := (t_chains t)[i := c @ [n]],
            t_keys := (t_keys t)(k := (t_keys t k)\<lparr>tk_nents := Suc (tk_nents (t_keys t k))\<rparr>),
            t_nents := Suc (t_nents t)\<rparr>)"
proof (cases "c = []")
  case True
  then have "(t_chains t)[i := c @ [n]] = t_chains t" using assms(6) by (simp add: list_update_same_conv assms(5))
  then show ?thesis using assms True by (simp add: tab_entry_insert_def upd_key_def Let_def)
next
  case False
  then have "hd c \<noteq> n" using assms(4) by auto
  then show ?thesis
    using assms False
    by (simp add: tab_entry_insert_def upd_key_def set_chain_def entry_insert_def tab_std_def Let_def)
qed

lemma saved_upd_matches [simp]:
  "ent_matches (t\<lparr>t_cache_ent := a\<rparr>) h key sz = ent_matches t h key sz"
  "ent_matches (t\<lparr>t_val_iter_ent := a\<rparr>) h key sz = ent_matches t h key sz"
  by (simp_all add: ent_matches_def fun_eq_iff split: option.split)

lemma tab_linked_saved [simp]:
  "tab_linked (t\<lparr>t_cache_ent := a\<rparr>) = tab_linked t" "tab_linked (t\<lparr>t_val_iter_ent := a\<rparr>) = tab_linked t"
  "tab_linked (t\<lparr>t_tab_iter_ent := a\<rparr>) = tab_linked t"
  by (simp_all add: tab_linked_def)

lemma saved_upd_vals [simp]:
  "tab_vals (t\<lparr>t_cache_ent := a\<rparr>) = tab_vals t"
  "tab_vals (t\<lparr>t_val_iter_ent := a\<rparr>) = tab_vals t"
  by (simp_all add: tab_vals_def fun_eq_iff Let_def)

lemma saved_upd_inv [simp]:
  "tab_inv (t\<lparr>t_cache_ent := a\<rparr>) = tab_inv t"
  "tab_inv (t\<lparr>t_val_iter_ent := a\<rparr>) = tab_inv t"
  "tab_inv (t\<lparr>t_tab_iter_ent := a\<rparr>) = tab_inv t"
  by (simp_all add: tab_inv_def chain_ok_def ent_ok_def keys_unique_def same_key_def)

text \<open>Reading all the values of a key, one call after the other.\<close>

fun kget_run :: "nat \<Rightarrow> 'v pr_table_t option \<Rightarrow> string ptr \<Rightarrow> nat \<Rightarrow> ('v ptr option \<times> nat) result list option" where
  "kget_run 0 t key sz = Some []"
| "kget_run (Suc n) t key sz =
     (case pr_table_kget t (Some key) sz of
        None \<Rightarrow> None
      | Some (r, t') \<Rightarrow> map_option ((#) r) (kget_run n t' key sz))"

lemma filter_after:
  assumes "distinct c" and "filter P c = pre @ e # post"
  shows "e \<in> set c" and "filter P (tl (dropWhile (\<lambda>x. x \<noteq> e) c)) = post"
proof -
  have "e \<in> set (filter P c)" using assms(2) by simp
  then show "e \<in> set c" by simp
  then obtain xs ys where c: "c = xs @ e # ys" and "e \<notin> set xs" by (metis split_list_first)
  have "dropWhile (\<lambda>x. x \<noteq> e) c = e # ys"
    using c \<open>e \<notin> set xs\<close> by (induction xs arbitrary: c) auto
  moreover have "P e" using \<open>e \<in> set (filter P c)\<close> by simp
  then have "filter P xs @ e # filter P ys = pre @ e # post" using assms(2) c by simp
  moreover have "e \<notin> set (filter P xs)" "e \<notin> set (filter P ys)" using assms(1) c by auto
  ultimately show "filter P (tl (dropWhile (\<lambda>x. x \<noteq> e) c)) = post"
    by (simp add: append_Cons_eq_iff)
qed

text \<open>A fresh lookup: no per-key iteration is in progress and the cache is not consulted.\<close>

definition fresh_lookup :: "'v pr_table_t \<Rightarrow> bool" where
  "fresh_lookup t \<longleftrightarrow> t_val_iter_ent t = None \<and>
     (has_flag t PR_TABLE_FL_USE_CACHE \<longrightarrow> t_cache_ent t = None)"

section \<open>What a key comparison must satisfy\<close>

locale table_keys =
  fixes kcmp :: "string ptr \<Rightarrow> nat \<Rightarrow> string ptr \<Rightarrow> nat \<Rightarrow> int"
  assumes kcmp_refl: "kcmp a m a m = 0"
    and kcmp_sym: "kcmp a m b n = 0 \<Longrightarrow> kcmp b n a m = 0"
    and kcmp_trans: "kcmp a m b n = 0 \<Longrightarrow> kcmp b n c l = 0 \<Longrightarrow> kcmp a m c l = 0"
begin

definition good :: "'v pr_table_t \<Rightarrow> bool" where
  "good t \<longleftrightarrow> tab_inv t \<and> tab_std t \<and> t_keycmp t = kcmp"

lemma good_saved_upd [simp]:
  "good (t\<lparr>t_cache_ent := a\<rparr>) = good t" "good (t\<lparr>t_val_iter_ent := a\<rparr>) = good t"
  by (simp_all add: good_def tab_std_def)

lemma kadd_finish:
  assumes g: "good t" and i: "i = tab_idx t h" and h: "h = tab_hash t key sz"
    and room: "t_nents t < t_nmaxents t"
    and n: "\<forall>j < t_nchains t. n \<notin> set (t_chains t ! j)" "n < t_next_ent t'"
      "n \<notin> set (t_free_ents t')" "t_next_ent t \<le> t_next_ent t'"
      "set (t_free_ents t') \<subseteq> set (t_free_ents t)" "distinct (t_free_ents t')"
    and k: "k < t_next_key t'" "k \<notin> set (t_free_keys t')" "t_next_key t \<le> t_next_key t'"
      "set (t_free_keys t') \<subseteq> set (t_free_keys t)" "distinct (t_free_keys t')"
    and ents: "t_ents t' = (t_ents t)(n := \<lparr>te_idx = i, te_key = Some k, te_value = v, te_valuesz = vsz\<rparr>)"
    and chains: "t_chains t' = (t_chains t)[i := t_chains t ! i @ [n]]"
    and conf: "same_conf t t'" and nents: "t_nents t' = Suc (t_nents t)"
    and keys: "\<forall>x. x \<noteq> k \<longrightarrow> t_keys t' x = t_keys t x"
    and kn: "tk_nents (t_keys t' k) =
         Suc (length (filter (\<lambda>x. te_key (t_ents t x) = Some k) (t_chains t ! i)))"
    and kd: "tk_hash (t_keys t' k) = h" "kcmp (tk_data (t_keys t' k)) (tk_datasz (t_keys t' k)) key sz = 0"
    and kt: "\<forall>j < t_nchains t. \<forall>e \<in> set (t_chains t ! j). te_key (t_ents t e) = Some k \<longrightarrow>
      j = i \<and> tk_data (t_keys t' k) = tk_data (t_keys t k) \<and>
      tk_datasz (t_keys t' k) = tk_datasz (t_keys t k) \<and> tk_hash (t_keys t' k) = tk_hash (t_keys t k)"
    and uniq: "\<forall>e \<in> set (t_chains t ! i). ent_matches t h key sz e \<longrightarrow> te_key (t_ents t e) = Some k"
  shows "good t' \<and> (\<forall>key' sz'. tab_vals t' key' sz' = tab_vals t key' sz' @
           (if same_arg t key sz key' sz' then [(v, vsz)] else []))"
proof -
  have inv: "tab_inv t" and std: "tab_std t" and kc: "t_keycmp t = kcmp" using g by (auto simp: good_def)
  have kc': "t_keycmp t' = kcmp" using conf kc by (simp add: same_conf_def)
  have il: "i < t_nchains t" using i tab_idx_less [OF inv] by simp
  have ent_kt: "tk_data (t_keys t' x) = tk_data (t_keys t x) \<and> tk_datasz (t_keys t' x) = tk_datasz (t_keys t x) \<and>
      tk_hash (t_keys t' x) = tk_hash (t_keys t x)"
    if "j < t_nchains t" "e \<in> set (t_chains t ! j)" "te_key (t_ents t e) = Some x" for j e x
  proof (cases "x = k")
    case True
    then show ?thesis using kt that by blast
  next
    case False
    then show ?thesis using keys by simp
  qed
  have new: "ent_matches t' h' key' sz' n \<longleftrightarrow> tab_hash t key sz = h' \<and> t_keycmp t key sz key' sz' = 0"
    for h' key' sz'
  proof -
    have "kcmp (tk_data (t_keys t' k)) (tk_datasz (t_keys t' k)) key' sz' = 0 \<longleftrightarrow> kcmp key sz key' sz' = 0"
      using kd(2) kcmp_sym kcmp_trans by blast
    then show ?thesis using kd(1) h by (simp add: ent_matches_def ents kc kc')
  qed
  have um: "x = k" if e: "e \<in> set (t_chains t ! i)" "te_key (t_ents t e) = Some x"
    and s: "same_key t' k x \<or> same_key t' x k" for e x
  proof -
    have "tk_hash (t_keys t' x) = h" "kcmp (tk_data (t_keys t' x)) (tk_datasz (t_keys t' x)) key sz = 0"
      using s kd(1) kcmp_trans [OF _ kd(2)] kcmp_trans [OF kcmp_sym kd(2)]
      unfolding same_key_def kc' by metis+
    then have "ent_matches t h key sz e"
      using e ent_kt [OF il e] by (simp add: ent_matches_def kc)
    then have "te_key (t_ents t e) = Some k" using uniq e(1) by blast
    then show ?thesis using e(2) by simp
  qed
  have "tab_inv t'"
  proof (rule tab_inv_link [OF inv il chains ents _ _ n keys k])
    show "tab_idx t (tk_hash (t_keys t' k)) = i" using kd(1) i by simp
    show "\<forall>j < t_nchains t. j \<noteq> i \<longrightarrow> (\<forall>e \<in> set (t_chains t ! j). te_key (t_ents t e) \<noteq> Some k)"
      using kt by blast
    show "\<forall>e \<in> set (t_chains t ! i). \<forall>x. te_key (t_ents t e) = Some x \<longrightarrow>
      same_key t' k x \<or> same_key t' x k \<longrightarrow> x = k"
      using um by blast
  qed (use kn conf nents room in \<open>auto simp: same_conf_def\<close>)
  moreover have "tab_std t'" using std conf by (simp add: tab_std_def same_conf_def)
  moreover have "tab_vals t' key' sz' = tab_vals t key' sz' @
      (if same_arg t key sz key' sz' then [(v, vsz)] else [])" for key' sz'
    using tab_vals_link [where key' = key' and sz' = sz', OF inv conf _ chains ents n(1) ent_kt new] i h
    by simp
  ultimately show ?thesis using kc' by (simp add: good_def)
qed

lemma matches_same_key:
  assumes g: "good t" and ok: "chain_ok t i c" and "e \<in> set c" and "e' \<in> set c"
    and "ent_matches t h key sz e" and "ent_matches t h key sz e'" and k: "te_key (t_ents t e') = Some k"
  shows "te_key (t_ents t e) = Some k"
proof -
  have kc: "t_keycmp t = kcmp" using g by (simp add: good_def)
  obtain x where x: "te_key (t_ents t e) = Some x" using chain_ok_has_key [OF ok assms(3)] by blast
  have "tk_hash (t_keys t x) = h" "kcmp (tk_data (t_keys t x)) (tk_datasz (t_keys t x)) key sz = 0"
    "tk_hash (t_keys t k) = h" "kcmp (tk_data (t_keys t k)) (tk_datasz (t_keys t k)) key sz = 0"
    using assms(5,6) x k kc by (auto simp: ent_matches_def)
  then have "same_key t x k" unfolding same_key_def kc by (metis kcmp_sym kcmp_trans)
  then have "x = k" using ok assms(3,4) x k unfolding chain_ok_def keys_unique_def by blast
  with x show ?thesis by simp
qed

lemma matches_same_arg:
  assumes "good t" and "same_arg t key sz key' sz'"
  shows "ent_matches t (tab_hash t key sz) key' sz' e = ent_matches t (tab_hash t key sz) key sz e"
proof -
  have kc: "t_keycmp t = kcmp" using assms(1) by (simp add: good_def)
  have "kcmp a m key' sz' = 0 \<longleftrightarrow> kcmp a m key sz = 0" for a m
    using assms(2) unfolding same_arg_def kc by (metis kcmp_sym kcmp_trans)
  then show ?thesis by (simp add: ent_matches_def kc split: option.splits)
qed

lemma matches_same_arg2:
  assumes "good t" and "ent_matches t (tab_hash t key sz) key sz e"
    and "ent_matches t (tab_hash t key' sz') key' sz' e"
  shows "same_arg t key sz key' sz'"
proof -
  have kc: "t_keycmp t = kcmp" using assms(1) by (simp add: good_def)
  obtain k where "te_key (t_ents t e) = Some k"
    using assms(2) by (auto simp: ent_matches_def split: option.splits)
  then have "tab_hash t key sz = tab_hash t key' sz'"
    "kcmp (tk_data (t_keys t k)) (tk_datasz (t_keys t k)) key sz = 0"
    "kcmp (tk_data (t_keys t k)) (tk_datasz (t_keys t k)) key' sz' = 0"
    using assms(2,3) kc by (auto simp: ent_matches_def)
  then show ?thesis unfolding same_arg_def kc by (metis kcmp_sym kcmp_trans)
qed

lemma kadd_links:
  assumes g: "good t" and room: "t_nents t < t_nmaxents t" and v: "\<not> (0 < vsz \<and> v = None)"
    and multi: "has_flag t PR_TABLE_FL_MULTI_VALUE \<or> tab_vals t key sz = []"
  shows "\<exists>t'. pr_table_kadd (Some t) (Some key) sz v vsz = Some (Inr (), Some t') \<and> good t' \<and>
           (tab_linked t \<longrightarrow> tab_linked t') \<and> same_conf t t' \<and> same_saved t t' \<and> t_nents t' = Suc (t_nents t) \<and>
           (\<forall>key' sz'. tab_vals t' key' sz' = tab_vals t key' sz' @
             (if same_arg t key sz key' sz' then [(v, vsz)] else []))"
proof -
  have inv: "tab_inv t" and std: "tab_std t" and kc: "t_keycmp t = kcmp" using g by (auto simp: good_def)
  define h where "h = tab_hash t key sz"
  define i where "i = tab_idx t h"
  define c where "c = t_chains t ! i"
  define ms where "ms = filter (ent_matches t h key sz) c"
  have il: "i < t_nchains t" unfolding i_def by (rule tab_idx_less [OF inv])
  have len: "length (t_chains t) = t_nchains t" using inv by (simp add: tab_inv_def)
  have okc: "chain_ok t i c" unfolding c_def by (rule tab_inv_chain [OF inv il])
  obtain n t1 where al: "tab_entry_alloc t = (n, t1)" by fastforce
  note fr = tab_entry_alloc_fresh [OF inv al]
  let ?e = "\<lparr>te_idx = i, te_key = None, te_value = v, te_valuesz = vsz\<rparr>"
  define t2 where "t2 = t\<lparr>t_ents := (t_ents t)(n := ?e), t_free_ents := t_free_ents t1,
                         t_next_ent := t_next_ent t1\<rparr>"
  have t2: "upd_ent n (\<lambda>x. x\<lparr>te_value := v, te_valuesz := vsz, te_idx := i\<rparr>) t1 = t2"
    by (subst fr(8)) (simp add: upd_ent_def t2_def fr(7) zero_entry_def)
  have nc: "n \<notin> set c" using fr(1) il by (simp add: c_def)
  have "filter (ent_matches t2 h key sz) c = ms"
    unfolding ms_def
    by (rule filter_cong [OF refl], rule ent_matches_cong) (use nc in \<open>auto simp: t2_def\<close>)
  moreover have "\<forall>e \<in> set c. te_key (t_ents t2 e) \<noteq> None"
    using chain_ok_has_key [OF okc] nc by (fastforce simp: t2_def)
  moreover have "te_key (t_ents t2 (last ms)) = te_key (t_ents t (last ms))" if "ms \<noteq> []"
  proof -
    have "last ms \<in> set ms" using that by simp
    then have "last ms \<in> set c" by (simp add: ms_def)
    then have "last ms \<noteq> n" using nc by blast
    then show ?thesis by (simp add: t2_def)
  qed
  moreover have "ms = [] \<or> has_flag t PR_TABLE_FL_MULTI_VALUE"
    using multi by (auto simp: tab_vals_def ms_def c_def i_def h_def Let_def)
  moreover have "has_flag t2 f = has_flag t f" for f by (simp add: has_flag_def t2_def)
  ultimately have scan: "(if c = [] then Some (Inr None) else kadd_scan t2 h key sz c None) =
      Some (Inr (if ms = [] then None else te_key (t_ents t (last ms))))"
    by (auto simp: kadd_scan_eq ms_def)
  define found where "found = (if ms = [] then None else te_key (t_ents t (last ms)))"
  have c2: "t_chains t2 ! i = c" by (simp add: t2_def c_def)
  have body: "kadd_body t key sz v vsz =
      map_option (\<lambda>t'. (Inr (), t')) (kadd_attach t2 n i h key sz found)"
    unfolding kadd_body_def Let_def al prod.case h_def [symmetric] i_def [symmetric] t2 c2 scan
      found_def [symmetric] by simp
  have "pr_table_kadd (Some t) (Some key) sz v vsz =
      map_option (\<lambda>t'. (Inr (), Some t')) (kadd_attach t2 n i h key sz found)"
    using room v by (auto simp: pr_table_kadd_def body option.map_comp comp_def
        map_option_case split: option.splits)
  moreover have "\<exists>t'. kadd_attach t2 n i h key sz found = Some t' \<and> good t' \<and>
      (tab_linked t \<longrightarrow> tab_linked t') \<and> same_conf t t' \<and>
      same_saved t t' \<and> t_nents t' = Suc (t_nents t) \<and>
      (\<forall>key' sz'. tab_vals t' key' sz' = tab_vals t key' sz' @
             (if same_arg t key sz key' sz' then [(v, vsz)] else []))"
  proof (cases "ms = []")
    case True
    define t3 where "t3 = (if c = [] then set_chain i [n] t2 else t2)"
    obtain k t' where ka: "tab_key_alloc t3 = (k, t')" by fastforce
    have fks: "distinct (t_free_keys t3)" "\<forall>x \<in> set (t_free_keys t3). x < t_next_key t3"
      using inv by (auto simp: tab_inv_def t2_def t3_def set_chain_def)
    note fk = tab_key_alloc_fresh [OF fks ka]
    have k3: "t_keys t3 = t_keys t" "t_free_keys t3 = t_free_keys t" "t_next_key t3 = t_next_key t"
      by (simp_all add: t2_def t3_def set_chain_def)
    have kfresh: "te_key (t_ents t e) \<noteq> Some k" if "j < t_nchains t" "e \<in> set (t_chains t ! j)" for j e
      using chain_ok_keyD [OF tab_inv_chain [OF inv that(1)] that(2)] fk(6) k3 by auto
    let ?kk = "\<lparr>tk_data = key, tk_datasz = sz, tk_hash = h, tk_nents = 0\<rparr>"
    define t4 where "t4 = upd_ent n (\<lambda>x. x\<lparr>te_key := Some k\<rparr>) (upd_key k (\<lambda>_. ?kk) t')"
    have t4e: "t4 = t3\<lparr>t_keys := (t_keys t')(k := ?kk), t_free_keys := t_free_keys t',
        t_next_key := t_next_key t',
        t_ents := (t_ents t)(n := \<lparr>te_idx = i, te_key = Some k, te_value = v, te_valuesz = vsz\<rparr>)\<rparr>"
      unfolding t4_def by (subst fk(8)) (simp add: upd_ent_def upd_key_def t2_def t3_def set_chain_def)
    define t5 where "t5 = t4\<lparr>t_chains := (t_chains t4)[i := c @ [n]],
            t_keys := (t_keys t4)(k := (t_keys t4 k)\<lparr>tk_nents := Suc (tk_nents (t_keys t4 k))\<rparr>),
            t_nents := Suc (t_nents t4)\<rparr>"
    have ins: "tab_entry_insert t4 n = Some t5"
      unfolding t5_def by (rule tab_entry_insert_link)
        (use std nc il len in \<open>auto simp: t4e tab_std_def t3_def set_chain_def t2_def c_def\<close>)
    have conf: "same_conf t t5" "same_saved t t5"
      by (auto simp: same_conf_def same_saved_def t5_def t4e t3_def t2_def set_chain_def)
    have e5: "t_ents t5 = (t_ents t)(n := \<lparr>te_idx = i, te_key = Some k, te_value = v, te_valuesz = vsz\<rparr>)"
      by (simp add: t5_def t4e)
    have c5: "t_chains t5 = (t_chains t)[i := t_chains t ! i @ [n]]"
      by (simp add: t5_def t4e t3_def t2_def set_chain_def c_def)
    have kk5: "t_keys t5 k = ?kk\<lparr>tk_nents := 1\<rparr>" "\<forall>x. x \<noteq> k \<longrightarrow> t_keys t5 x = t_keys t x"
      using fk(7) k3 by (simp_all add: t5_def t4e)
    have fe: "t_free_ents t5 = t_free_ents t1" "t_next_ent t5 = t_next_ent t1"
      "t_free_keys t5 = t_free_keys t'" "t_next_key t5 = t_next_key t'" "t_nents t5 = Suc (t_nents t)"
      by (simp_all add: t5_def t4e t3_def t2_def set_chain_def)
    have nn: "n < t_next_ent t5" "n \<notin> set (t_free_ents t5)" "t_next_ent t \<le> t_next_ent t5"
      "set (t_free_ents t5) \<subseteq> set (t_free_ents t)" "distinct (t_free_ents t5)"
      using fr(2-6) unfolding fe by blast+
    have kn: "k < t_next_key t5" "k \<notin> set (t_free_keys t5)" "t_next_key t \<le> t_next_key t5"
      "set (t_free_keys t5) \<subseteq> set (t_free_keys t)" "distinct (t_free_keys t5)"
      using fk(1-5) unfolding fe k3 by blast+
    have none: "filter (\<lambda>x. te_key (t_ents t x) = Some k) (t_chains t ! i) = []"
      using kfresh [OF il] by (simp add: filter_empty_conv)
    have "good t5 \<and> (\<forall>key' sz'. tab_vals t5 key' sz' = tab_vals t key' sz' @
           (if same_arg t key sz key' sz' then [(v, vsz)] else []))"
    proof (rule kadd_finish [OF g i_def h_def room fr(1) nn kn e5 c5 conf(1) fe(5) kk5(2)])
      show "\<forall>e \<in> set (t_chains t ! i). ent_matches t h key sz e \<longrightarrow> te_key (t_ents t e) = Some k"
        using True unfolding ms_def c_def [symmetric] filter_empty_conv by blast
      show "\<forall>j < t_nchains t. \<forall>e \<in> set (t_chains t ! j). te_key (t_ents t e) = Some k \<longrightarrow>
        j = i \<and> tk_data (t_keys t5 k) = tk_data (t_keys t k) \<and>
        tk_datasz (t_keys t5 k) = tk_datasz (t_keys t k) \<and> tk_hash (t_keys t5 k) = tk_hash (t_keys t k)"
        using kfresh by blast
      show "tk_nents (t_keys t5 k) = Suc (length (filter (\<lambda>x. te_key (t_ents t x) = Some k) (t_chains t ! i)))"
        by (simp only: kk5(1) none) simp
      show "kcmp (tk_data (t_keys t5 k)) (tk_datasz (t_keys t5 k)) key sz = 0"
        by (simp only: kk5(1)) (simp add: kcmp_refl)
      show "tk_hash (t_keys t5 k) = h" by (simp only: kk5(1)) simp
    qed
    moreover have "kadd_attach t2 n i h key sz found = Some t5"
      using True ins ka c2 by (simp add: kadd_attach_def found_def Let_def t3_def t4_def)
    moreover have "tab_linked t \<longrightarrow> tab_linked t5" using tab_linked_link [OF _ e5 c5 conf(1) il len] by blast
    ultimately show ?thesis using conf fe(5) by blast
  next
    case False
    then have lm: "last ms \<in> set c" "ent_matches t h key sz (last ms)"
      using last_in_set [OF False] by (auto simp: ms_def)
    then obtain k where k: "te_key (t_ents t (last ms)) = Some k"
      using chain_ok_has_key [OF okc] by blast
    have cne: "c \<noteq> []" using lm by auto
    note kd = chain_ok_keyD [OF okc lm(1) k]
    have hk: "tk_hash (t_keys t k) = h" "kcmp (tk_data (t_keys t k)) (tk_datasz (t_keys t k)) key sz = 0"
      using lm(2) k kc by (auto simp: ent_matches_def)
    define t4 where "t4 = upd_ent n (\<lambda>x. x\<lparr>te_key := Some k\<rparr>) t2"
    have t4e: "t4 = t2\<lparr>t_ents := (t_ents t)(n := \<lparr>te_idx = i, te_key = Some k, te_value = v, te_valuesz = vsz\<rparr>)\<rparr>"
      by (simp add: t4_def upd_ent_def t2_def)
    define t5 where "t5 = t4\<lparr>t_chains := (t_chains t4)[i := c @ [n]],
            t_keys := (t_keys t4)(k := (t_keys t4 k)\<lparr>tk_nents := Suc (tk_nents (t_keys t4 k))\<rparr>),
            t_nents := Suc (t_nents t4)\<rparr>"
    have ins: "tab_entry_insert t4 n = Some t5"
      unfolding t5_def by (rule tab_entry_insert_link)
        (use std nc il len cne in \<open>auto simp: t4e tab_std_def t2_def c_def\<close>)
    have conf: "same_conf t t5" "same_saved t t5"
      by (auto simp: same_conf_def same_saved_def t5_def t4e t2_def)
    have e5: "t_ents t5 = (t_ents t)(n := \<lparr>te_idx = i, te_key = Some k, te_value = v, te_valuesz = vsz\<rparr>)"
      by (simp add: t5_def t4e)
    have c5: "t_chains t5 = (t_chains t)[i := t_chains t ! i @ [n]]"
      by (simp add: t5_def t4e t2_def c_def)
    have kk5: "t_keys t5 k = (t_keys t k)\<lparr>tk_nents := Suc (tk_nents (t_keys t k))\<rparr>"
      "\<forall>x. x \<noteq> k \<longrightarrow> t_keys t5 x = t_keys t x"
      by (simp_all add: t5_def t4e t2_def)
    have fe: "t_free_ents t5 = t_free_ents t1" "t_next_ent t5 = t_next_ent t1"
      "t_free_keys t5 = t_free_keys t" "t_next_key t5 = t_next_key t" "t_nents t5 = Suc (t_nents t)"
      by (simp_all add: t5_def t4e t2_def)
    have dk: "distinct (t_free_keys t)" using inv by (simp add: tab_inv_def)
    have nn: "n < t_next_ent t5" "n \<notin> set (t_free_ents t5)" "t_next_ent t \<le> t_next_ent t5"
      "set (t_free_ents t5) \<subseteq> set (t_free_ents t)" "distinct (t_free_ents t5)"
      using fr(2-6) unfolding fe by blast+
    have kn: "k < t_next_key t5" "k \<notin> set (t_free_keys t5)" "t_next_key t \<le> t_next_key t5"
      "set (t_free_keys t5) \<subseteq> set (t_free_keys t)" "distinct (t_free_keys t5)"
      using kd dk unfolding fe by auto
    have "good t5 \<and> (\<forall>key' sz'. tab_vals t5 key' sz' = tab_vals t key' sz' @
           (if same_arg t key sz key' sz' then [(v, vsz)] else []))"
    proof (rule kadd_finish [OF g i_def h_def room fr(1) nn kn e5 c5 conf(1) fe(5) kk5(2)])
      show "\<forall>e \<in> set (t_chains t ! i). ent_matches t h key sz e \<longrightarrow> te_key (t_ents t e) = Some k"
        unfolding c_def [symmetric]
        by (intro ballI impI) (rule matches_same_key [OF g okc _ lm(1) _ lm(2) k])
      show "\<forall>j < t_nchains t. \<forall>e \<in> set (t_chains t ! j). te_key (t_ents t e) = Some k \<longrightarrow>
        j = i \<and> tk_data (t_keys t5 k) = tk_data (t_keys t k) \<and>
        tk_datasz (t_keys t5 k) = tk_datasz (t_keys t k) \<and> tk_hash (t_keys t5 k) = tk_hash (t_keys t k)"
      proof (intro allI ballI impI)
        fix j e assume "j < t_nchains t" "e \<in> set (t_chains t ! j)" "te_key (t_ents t e) = Some k"
        then have "tab_idx t (tk_hash (t_keys t k)) = j"
          using chain_ok_keyD [OF tab_inv_chain [OF inv]] by blast
        then show "j = i \<and> tk_data (t_keys t5 k) = tk_data (t_keys t k) \<and>
          tk_datasz (t_keys t5 k) = tk_datasz (t_keys t k) \<and> tk_hash (t_keys t5 k) = tk_hash (t_keys t k)"
          using kd by (simp only: kk5(1)) simp
      qed
      show "tk_nents (t_keys t5 k) = Suc (length (filter (\<lambda>x. te_key (t_ents t x) = Some k) (t_chains t ! i)))"
        using kd by (simp only: kk5(1)) (simp add: c_def)
      show "kcmp (tk_data (t_keys t5 k)) (tk_datasz (t_keys t5 k)) key sz = 0"
        using hk by (simp only: kk5(1)) simp
      show "tk_hash (t_keys t5 k) = h" using hk by (simp only: kk5(1)) simp
    qed
    moreover have "kadd_attach t2 n i h key sz found = Some t5"
      using False ins c2 k cne by (simp add: kadd_attach_def found_def Let_def t4_def)
    moreover have "tab_linked t \<longrightarrow> tab_linked t5" using tab_linked_link [OF _ e5 c5 conf(1) il len] by blast
    ultimately show ?thesis using conf fe(5) by blast
  qed
  ultimately show ?thesis by auto
qed

lemma kadd_ok:
  assumes "good t" and "t_nents t < t_nmaxents t" and "\<not> (0 < vsz \<and> v = None)"
    and "has_flag t PR_TABLE_FL_MULTI_VALUE \<or> tab_vals t key sz = []"
  shows "\<exists>t'. pr_table_kadd (Some t) (Some key) sz v vsz = Some (Inr (), Some t') \<and> good t' \<and>
           same_conf t t' \<and> same_saved t t' \<and> t_nents t' = Suc (t_nents t) \<and>
           (\<forall>key' sz'. tab_vals t' key' sz' = tab_vals t key' sz' @
             (if same_arg t key sz key' sz' then [(v, vsz)] else []))"
  using kadd_links [OF assms] by blast

lemma drop_entry_ok:
  assumes g: "good t" and i: "i < t_nchains t" and e: "e \<in> set (t_chains t ! i)"
  shows "\<exists>t'. drop_entry e t = Some t' \<and> good t' \<and> same_conf t t' \<and>
           t_chains t' = (t_chains t)[i := remove1 e (t_chains t ! i)] \<and>
           t_ents t' = (t_ents t)(e := zero_entry) \<and> t_nents t' = t_nents t - 1 \<and>
           t_val_iter_ent t' = t_val_iter_ent t \<and> t_tab_iter_ent t' = t_tab_iter_ent t \<and>
           t_cache_ent t' = None \<and>
           (\<forall>j < t_nchains t. \<forall>x \<in> set (t_chains t ! j). x \<noteq> e \<longrightarrow>
              (\<forall>h key sz. ent_matches t' h key sz x = ent_matches t h key sz x))"
proof -
  have inv: "tab_inv t" and std: "tab_std t" and kc: "t_keycmp t = kcmp" using g by (auto simp: good_def)
  have okc: "chain_ok t i (t_chains t ! i)" by (rule tab_inv_chain [OF inv i])
  obtain k where k: "te_key (t_ents t e) = Some k" using chain_ok_has_key [OF okc e] by blast
  note kd = chain_ok_keyD [OF okc e k] and ed = chain_ok_entD [OF okc e]
  have "e \<in> set (filter (\<lambda>x. te_key (t_ents t x) = Some k) (t_chains t ! i))" using e k by simp
  then have "0 < length (filter (\<lambda>x. te_key (t_ents t x) = Some k) (t_chains t ! i))"
    by (rule length_pos_if_in_set)
  then have pos: "0 < tk_nents (t_keys t k)" using kd by simp
  define b where "b \<longleftrightarrow> tk_nents (t_keys t k) = 1"
  define t' where "t' = t\<lparr>t_chains := (t_chains t)[i := remove1 e (t_chains t ! i)],
      t_ents := (t_ents t)(e := zero_entry), t_free_ents := t_free_ents t @ [e],
      t_keys := (t_keys t)(k := (if b then zero_key
                   else (t_keys t k)\<lparr>tk_nents := tk_nents (t_keys t k) - 1\<rparr>)),
      t_free_keys := (if b then t_free_keys t @ [k] else t_free_keys t),
      t_nents := t_nents t - 1, t_cache_ent := None\<rparr>"
  have drop: "drop_entry e t = Some t'"
    using k ed std pos
    by (simp add: drop_entry_def tab_entry_remove_def tab_entry_free_def tab_key_free_def upd_key_def
        upd_ent_def set_chain_def entry_remove_def tab_std_def Let_def t'_def b_def)
  have "tab_inv t'"
    by (rule tab_inv_unlink [OF inv i e k]) (simp_all add: t'_def b_def)
  then have "good t'" using std kc by (simp add: good_def tab_std_def t'_def)
  moreover have "ent_matches t' h key sz x = ent_matches t h key sz x"
    if x: "j < t_nchains t" "x \<in> set (t_chains t ! j)" "x \<noteq> e" for j x h key sz
  proof (rule ent_matches_cong)
    show "t_ents t' x = t_ents t x" "t_keycmp t' = t_keycmp t" using x(3) by (simp_all add: t'_def)
    fix y assume y: "te_key (t_ents t x) = Some y"
    show "tk_data (t_keys t' y) = tk_data (t_keys t y) \<and> tk_datasz (t_keys t' y) = tk_datasz (t_keys t y) \<and>
      tk_hash (t_keys t' y) = tk_hash (t_keys t y)"
    proof (cases "y = k")
      case True
      have ji: "j = i"
        using chain_ok_keyD [OF tab_inv_chain [OF inv x(1)] x(2) y] kd True by simp
      have "x \<in> set (filter (\<lambda>z. te_key (t_ents t z) = Some k) (remove1 e (t_chains t ! i)))"
        using x y True ji okc by (simp add: chain_ok_def)
      then have "0 < length (filter (\<lambda>z. te_key (t_ents t z) = Some k) (remove1 e (t_chains t ! i)))"
        by (rule length_pos_if_in_set)
      then have "\<not> b"
        using length_filter_remove1 [OF e, of "\<lambda>z. te_key (t_ents t z) = Some k"] k kd by (simp add: b_def)
      then show ?thesis using True by (simp add: t'_def)
    qed (simp add: t'_def)
  qed
  ultimately show ?thesis using drop by (auto simp: t'_def same_conf_def)
qed

lemma tab_vals_drop_first:
  assumes g: "good t" and f: "find_entry t (tab_hash t key sz) key sz (t_chains t ! tab_idx t (tab_hash t key sz)) = Some e"
  shows "\<exists>t'. drop_entry e t = Some t' \<and> good t' \<and> same_conf t t' \<and> t_nents t' = t_nents t - 1 \<and>
           t_val_iter_ent t' = t_val_iter_ent t \<and> t_cache_ent t' = None \<and>
           (\<forall>key' sz'. tab_vals t' key' sz' =
              (if same_arg t key sz key' sz' then tl (tab_vals t key' sz') else tab_vals t key' sz'))"
proof -
  have inv: "tab_inv t" and kc: "t_keycmp t = kcmp" using g by (auto simp: good_def)
  define h where "h = tab_hash t key sz"
  define i where "i = tab_idx t h"
  define c where "c = t_chains t ! i"
  have il: "i < t_nchains t" unfolding i_def by (rule tab_idx_less [OF inv])
  have len: "length (t_chains t) = t_nchains t" using inv by (simp add: tab_inv_def)
  have e: "e \<in> set c" "ent_matches t h key sz e"
    using find_entry_SomeD [OF f] by (auto simp: c_def i_def h_def)
  obtain ms where ms: "filter (ent_matches t h key sz) c = e # ms"
    using f by (auto simp: find_entry_eq c_def i_def h_def split: list.splits)
  obtain t' where d: "drop_entry e t = Some t'" "good t'" and conf: "same_conf t t'"
    and ch: "t_chains t' = (t_chains t)[i := remove1 e c]" and en: "t_ents t' = (t_ents t)(e := zero_entry)"
    and o: "t_nents t' = t_nents t - 1" "t_val_iter_ent t' = t_val_iter_ent t" "t_cache_ent t' = None"
    and m: "\<And>j x h key sz. j < t_nchains t \<Longrightarrow> x \<in> set (t_chains t ! j) \<Longrightarrow> x \<noteq> e \<Longrightarrow>
              ent_matches t' h key sz x = ent_matches t h key sz x"
    using drop_entry_ok [OF g il e(1) [unfolded c_def]] unfolding c_def by blast
  have dc: "distinct c" using tab_inv_chain [OF inv il] by (simp add: chain_ok_def c_def)
  have "tab_vals t' key' sz' =
      (if same_arg t key sz key' sz' then tl (tab_vals t key' sz') else tab_vals t key' sz')" for key' sz'
  proof -
    define h' where "h' = tab_hash t key' sz'"
    define i' where "i' = tab_idx t h'"
    have i'l: "i' < t_nchains t" unfolding i'_def by (rule tab_idx_less [OF inv])
    have hs: "tab_hash t' key' sz' = h'" "tab_idx t' h' = i'"
      using conf by (simp_all add: same_conf_def h'_def i'_def)
    have vals: "tab_vals t' key' sz' = map (\<lambda>x. (te_value (t_ents t' x), te_valuesz (t_ents t' x)))
        (filter (ent_matches t' h' key' sz') (t_chains t' ! i'))"
      by (simp only: tab_vals_def Let_def hs)
    have keep: "map (\<lambda>x. (te_value (t_ents t' x), te_valuesz (t_ents t' x)))
          (filter (ent_matches t' h' key' sz') xs) =
        map (\<lambda>x. (te_value (t_ents t x), te_valuesz (t_ents t x)))
          (filter (ent_matches t h' key' sz') xs)" if "set xs \<subseteq> set (t_chains t ! i')" "e \<notin> set xs" for xs
    proof -
      have "filter (ent_matches t' h' key' sz') xs = filter (ent_matches t h' key' sz') xs"
        by (rule filter_cong [OF refl], rule m [OF i'l]) (use that in auto)
      moreover have "t_ents t' x = t_ents t x" if "x \<in> set xs" for x using that \<open>e \<notin> set xs\<close> en by auto
      ultimately show ?thesis by simp
    qed
    show ?thesis
    proof (cases "i' = i")
      case True
      have v: "tab_vals t' key' sz' = map (\<lambda>x. (te_value (t_ents t x), te_valuesz (t_ents t x)))
          (remove1 e (filter (ent_matches t h' key' sz') c))"
        unfolding vals using keep [of "remove1 e c"] True ch len il dc
        by (simp add: c_def filter_remove1 [symmetric] set_remove1_subset)
      have v0: "tab_vals t key' sz' = map (\<lambda>x. (te_value (t_ents t x), te_valuesz (t_ents t x)))
          (filter (ent_matches t h' key' sz') c)"
        using True by (simp add: tab_vals_def Let_def h'_def i'_def c_def)
      show ?thesis
      proof (cases "same_arg t key sz key' sz'")
        case s: True
        then have hh: "h' = h" by (simp add: same_arg_def h_def h'_def)
        have "ent_matches t h' key' sz' = ent_matches t h key sz"
          using matches_same_arg [OF g s] unfolding hh h_def by (rule ext)
        then show ?thesis using s v v0 ms by simp
      next
        case s: False
        have "\<not> ent_matches t h' key' sz' e"
          using s e(2) matches_same_arg2 [OF g] unfolding h_def h'_def by blast
        then have "e \<notin> set (filter (ent_matches t h' key' sz') c)" by simp
        then show ?thesis using s v v0 by (simp add: remove1_idem)
      qed
    next
      case False
      then have "\<not> same_arg t key sz key' sz'" by (auto simp: same_arg_def h_def h'_def i_def i'_def)
      moreover have "e \<notin> set (t_chains t ! i')"
        using chain_ok_entD [OF tab_inv_chain [OF inv i'l]] chain_ok_entD [OF tab_inv_chain [OF inv il]]
          e(1) False unfolding c_def by blast
      ultimately show ?thesis
        unfolding vals using keep [of "t_chains t ! i'"] False ch
        by (simp add: tab_vals_def Let_def h'_def i'_def)
    qed
  qed
  then show ?thesis using d conf o by blast
qed

lemma vals_empty_iff:
  "tab_vals t key sz = [] \<longleftrightarrow>
   find_entry t (tab_hash t key sz) key sz (t_chains t ! tab_idx t (tab_hash t key sz)) = None"
  by (simp add: tab_vals_def find_entry_eq Let_def split: list.splits)

lemma find_entry_hd_vals:
  "find_entry t (tab_hash t key sz) key sz (t_chains t ! tab_idx t (tab_hash t key sz)) = Some e \<Longrightarrow>
   tab_vals t key sz \<noteq> [] \<and> hd (tab_vals t key sz) = (te_value (t_ents t e), te_valuesz (t_ents t e))"
  by (auto simp: tab_vals_def find_entry_eq Let_def split: list.splits)

lemma nents_0_vals: "good t \<Longrightarrow> t_nents t = 0 \<Longrightarrow> tab_vals t key sz = []"
proof -
  assume g: "good t" and z: "t_nents t = 0"
  then have inv: "tab_inv t" by (simp add: good_def)
  have "\<forall>c \<in> set (t_chains t). c = []"
    using inv z by (auto simp: tab_inv_def sum_list_eq_0_iff)
  then have "t_chains t ! tab_idx t (tab_hash t key sz) = []"
    using tab_idx_less [OF inv] inv by (simp add: tab_inv_def)
  then show "tab_vals t key sz = []" by (simp add: tab_vals_def Let_def)
qed

lemma cache_miss: "fresh_lookup t \<Longrightarrow> cache_hit t key = Some False"
  by (simp add: fresh_lookup_def cache_hit_def saved_hit_def)

lemma kremove_ok:
  assumes g: "good t" and f: "fresh_lookup t"
  shows "\<exists>t'. pr_table_kremove (Some t) (Some key) sz =
             Some (case tab_vals t key sz of [] \<Rightarrow> Inl (if t_nents t = 0 then ENOENT
                      else if t_chains t ! tab_idx t (tab_hash t key sz) = [] then ENOENT else EINVAL)
                   | v # _ \<Rightarrow> Inr v, Some t') \<and>
           good t' \<and> same_conf t t' \<and> fresh_lookup t' \<and>
           t_nents t' = (if tab_vals t key sz = [] then t_nents t else t_nents t - 1) \<and>
           (\<forall>key' sz'. tab_vals t' key' sz' =
              (if same_arg t key sz key' sz' then tl (tab_vals t key' sz') else tab_vals t key' sz'))"
proof (cases "tab_vals t key sz")
  case Nil
  have same: "tab_vals t key' sz' = []" if "same_arg t key sz key' sz'" for key' sz'
  proof -
    have "tab_hash t key' sz' = tab_hash t key sz" using that by (simp add: same_arg_def)
    then show ?thesis
      using Nil matches_same_arg [OF g that] by (simp add: tab_vals_def Let_def filter_empty_conv)
  qed
  let ?t' = "if t_nents t = 0 then t else t\<lparr>t_cache_ent := None\<rparr>"
  have eq: "pr_table_kremove (Some t) (Some key) sz =
      Some (Inl (if t_nents t = 0 then ENOENT
                 else if t_chains t ! tab_idx t (tab_hash t key sz) = [] then ENOENT else EINVAL), Some ?t')"
    using Nil [unfolded vals_empty_iff]
    by (simp add: pr_table_kremove_def cache_miss [OF f] Let_def)
  have v: "tab_vals ?t' key' sz' = tab_vals t key' sz'" for key' sz' by simp
  have "good ?t'" using g by simp
  moreover have "fresh_lookup ?t'" "same_conf t ?t'" using f by (simp_all add: fresh_lookup_def same_conf_def has_flag_def)
  moreover have "t_nents ?t' = t_nents t" by simp
  ultimately show ?thesis using eq v same Nil by (intro exI [of _ ?t']) auto
next
  case (Cons v vs)
  then obtain e where e: "find_entry t (tab_hash t key sz) key sz
      (t_chains t ! tab_idx t (tab_hash t key sz)) = Some e"
    using vals_empty_iff [of t key sz] by auto
  from tab_vals_drop_first [OF g e] obtain t' where t': "drop_entry e t = Some t'" "good t'"
    "same_conf t t'" "t_nents t' = t_nents t - 1" "t_val_iter_ent t' = t_val_iter_ent t"
    "t_cache_ent t' = None"
    and vals: "\<And>key' sz'. tab_vals t' key' sz' =
      (if same_arg t key sz key' sz' then tl (tab_vals t key' sz') else tab_vals t key' sz')"
    by blast
  have ne: "t_nents t \<noteq> 0" using nents_0_vals [OF g, of key sz] Cons by auto
  have cne: "t_chains t ! tab_idx t (tab_hash t key sz) \<noteq> []" using find_entry_SomeD [OF e] by auto
  have v: "(te_value (t_ents t e), te_valuesz (t_ents t e)) = v"
    using find_entry_hd_vals [OF e] Cons by simp
  have "pr_table_kremove (Some t) (Some key) sz = Some (Inr v, Some t')"
    using ne cne e t'(1) v by (simp add: pr_table_kremove_def cache_miss [OF f] Let_def)
  moreover have "fresh_lookup t'" using f t'(5,6) by (simp add: fresh_lookup_def)
  ultimately show ?thesis using Cons t' vals by auto
qed

lemma kget_ok:
  assumes g: "good t" and f: "fresh_lookup t"
  shows "\<exists>t'. pr_table_kget (Some t) (Some key) sz =
             Some (case tab_vals t key sz of [] \<Rightarrow> Inl ENOENT | v # _ \<Rightarrow> Inr v, Some t') \<and>
           good t' \<and> tab_vals t' = tab_vals t \<and> same_conf t t' \<and> t_nents t' = t_nents t"
proof (cases "tab_vals t key sz")
  case Nil
  then show ?thesis
    using g cache_miss [OF f] f [unfolded fresh_lookup_def] Nil [unfolded vals_empty_iff]
    by (simp add: pr_table_kget_def lookup_start_def saved_hit_def Let_def forget_def same_conf_def)
next
  case (Cons v vs)
  then obtain e where e: "find_entry t (tab_hash t key sz) key sz
      (t_chains t ! tab_idx t (tab_hash t key sz)) = Some e"
    using vals_empty_iff [of t key sz] by auto
  have ne: "t_nents t \<noteq> 0" using nents_0_vals [OF g, of key sz] Cons by auto
  show ?thesis
    using g find_entry_hd_vals [OF e] Cons ne e cache_miss [OF f] f [unfolded fresh_lookup_def]
    by (simp add: pr_table_kget_def lookup_start_def saved_hit_def Let_def remember_def same_conf_def)
qed

lemma kexists_ok:
  assumes g: "good t" and f: "fresh_lookup t"
  shows "\<exists>t'. pr_table_kexists (Some t) (Some key) sz =
             Some (if t_nents t = 0 then Inl ENOENT else Inr (length (tab_vals t key sz)), Some t') \<and>
           same_conf t t' \<and> t_nents t' = t_nents t"
proof (cases "t_nents t = 0")
  case True
  then show ?thesis by (simp add: pr_table_kexists_def same_conf_def)
next
  case ne: False
  have inv: "tab_inv t" using g by (simp add: good_def)
  let ?h = "tab_hash t key sz"
  let ?c = "t_chains t ! tab_idx t ?h"
  have okc: "chain_ok t (tab_idx t ?h) ?c" by (rule tab_inv_chain [OF inv tab_idx_less [OF inv]])
  show ?thesis
  proof (cases "find_entry t ?h key sz ?c")
    case None
    then have "tab_vals t key sz = []" by (simp add: vals_empty_iff)
    then show ?thesis
      using ne None cache_miss [OF f] by (auto simp: pr_table_kexists_def Let_def same_conf_def)
  next
    case (Some e)
    note e = find_entry_SomeD [OF Some]
    obtain k where k: "te_key (t_ents t e) = Some k" using chain_ok_has_key [OF okc] e by blast
    have "ent_matches t ?h key sz x \<longleftrightarrow> te_key (t_ents t x) = Some k" if x: "x \<in> set ?c" for x
    proof
      assume "ent_matches t ?h key sz x"
      then show "te_key (t_ents t x) = Some k"
        using matches_same_key [OF g okc x _ _ _ k, of ?h key sz] e by blast
    next
      assume "te_key (t_ents t x) = Some k"
      then show "ent_matches t ?h key sz x" using e k by (simp add: ent_matches_def)
    qed
    then have "filter (ent_matches t ?h key sz) ?c = filter (\<lambda>x. te_key (t_ents t x) = Some k) ?c"
      by (rule filter_cong [OF refl])
    then have "length (tab_vals t key sz) = tk_nents (t_keys t k)"
      using chain_ok_keyD [OF okc _ k] e by (simp add: tab_vals_def Let_def)
    then show ?thesis
      using ne Some k e cache_miss [OF f]
      by (auto simp: pr_table_kexists_def Let_def same_conf_def ent_key_nents_def)
  qed
qed

lemma kadd_dup:
  assumes g: "good t" and room: "t_nents t < t_nmaxents t" and v: "\<not> (0 < vsz \<and> v = None)"
    and single: "\<not> has_flag t PR_TABLE_FL_MULTI_VALUE" and dup: "tab_vals t key sz \<noteq> []"
  shows "\<exists>t'. pr_table_kadd (Some t) (Some key) sz v vsz = Some (Inl EEXIST, Some t') \<and> good t' \<and>
           (tab_linked t \<longrightarrow> tab_linked t') \<and>
           same_conf t t' \<and> t_nents t' = t_nents t \<and> tab_vals t' = tab_vals t"
proof -
  have inv: "tab_inv t" and std: "tab_std t" and kc: "t_keycmp t = kcmp" using g by (auto simp: good_def)
  define h where "h = tab_hash t key sz"
  define i where "i = tab_idx t h"
  define c where "c = t_chains t ! i"
  have il: "i < t_nchains t" unfolding i_def by (rule tab_idx_less [OF inv])
  have okc: "chain_ok t i c" unfolding c_def by (rule tab_inv_chain [OF inv il])
  obtain n t1 where al: "tab_entry_alloc t = (n, t1)" by fastforce
  note fr = tab_entry_alloc_fresh [OF inv al]
  define t2 where "t2 = upd_ent n (\<lambda>x. x\<lparr>te_value := v, te_valuesz := vsz, te_idx := i\<rparr>) t1"
  have t2: "t2 = t\<lparr>t_ents := (t_ents t)(n := \<lparr>te_idx = i, te_key = None, te_value = v, te_valuesz = vsz\<rparr>),
      t_free_ents := t_free_ents t1, t_next_ent := t_next_ent t1\<rparr>"
    unfolding t2_def by (subst fr(8)) (simp add: upd_ent_def fr(7) zero_entry_def)
  have E: "t_ents t2 e = t_ents t e" if "j < t_nchains t" "e \<in> set (t_chains t ! j)" for j e
    using that fr(1) by (auto simp: t2)
  have m: "ent_matches t2 h' key' sz' e = ent_matches t h' key' sz' e"
    if "j < t_nchains t" "e \<in> set (t_chains t ! j)" for j e h' key' sz'
    by (rule ent_matches_cong [OF E [OF that]]) (simp_all add: t2)
  have vals: "tab_vals t2 = tab_vals t"
  proof (intro ext)
    fix key' sz'
    let ?h = "tab_hash t key' sz'"
    let ?i = "tab_idx t ?h"
    have il': "?i < t_nchains t" by (rule tab_idx_less [OF inv])
    have "filter (ent_matches t2 ?h key' sz') (t_chains t ! ?i) = filter (ent_matches t ?h key' sz') (t_chains t ! ?i)"
      by (rule filter_cong [OF refl]) (rule m [OF il'])
    moreover have "tab_hash t2 key' sz' = ?h" "tab_idx t2 ?h = ?i" "t_chains t2 = t_chains t" by (simp_all add: t2)
    ultimately show "tab_vals t2 key' sz' = tab_vals t key' sz'"
      using E [OF il'] by (simp add: tab_vals_def Let_def)
  qed
  have "chain_ok t2 j (t_chains t ! j)" if j: "j < t_nchains t" for j
  proof -
    note ok = tab_inv_chain [OF inv j]
    show ?thesis
      by (rule chain_frame [OF ok])
        (use E [OF j] fr(4,5) chain_ok_entD [OF ok] chain_ok_keyD [OF ok] in \<open>auto simp: t2\<close>)
  qed
  moreover have "\<forall>e \<in> set (t_free_ents t2). e < t_next_ent t2 \<and> t_ents t2 e = zero_entry"
    using inv fr(3,4,5) by (fastforce simp: t2 tab_inv_def)
  ultimately have "tab_inv t2" using inv fr(6) by (simp add: tab_inv_def t2)
  then have "good t2" using std kc by (simp add: good_def tab_std_def t2)
  moreover have "kadd_body t key sz v vsz = Some (Inl EEXIST, t2)"
  proof -
    have "filter (ent_matches t2 h key sz) c = filter (ent_matches t h key sz) c"
      by (rule filter_cong [OF refl]) (use m [OF il] in \<open>simp add: c_def\<close>)
    then have "filter (ent_matches t2 h key sz) c \<noteq> []"
      using dup by (simp add: tab_vals_def Let_def c_def i_def h_def)
    moreover have "\<forall>e \<in> set c. te_key (t_ents t2 e) \<noteq> None"
      using chain_ok_has_key [OF okc] E [OF il] by (fastforce simp: c_def)
    moreover have "\<not> has_flag t2 PR_TABLE_FL_MULTI_VALUE" using single by (simp add: t2 has_flag_def)
    ultimately have scan: "(if c = [] then Some (Inr None) else kadd_scan t2 h key sz c None) = Some (Inl EEXIST)"
      by (auto simp: kadd_scan_eq)
    have c2: "t_chains t2 ! i = c" by (simp add: t2 c_def)
    show ?thesis
      unfolding kadd_body_def Let_def al prod.case h_def [symmetric] i_def [symmetric]
        t2_def [symmetric] c2 scan by simp
  qed
  ultimately show ?thesis
    using room v vals by (auto simp: pr_table_kadd_def t2 same_conf_def tab_linked_def)
qed

lemma kget_next:
  assumes g: "good t" and k: "te_key (t_ents t e) = Some k" "addr (tk_data (t_keys t k)) = addr key"
    and ms: "filter (ent_matches t (tab_hash t key sz) key sz)
               (t_chains t ! tab_idx t (tab_hash t key sz)) = pre @ e # post"
    and it: "t_val_iter_ent t = Some e"
  shows "pr_table_kget (Some t) (Some key) sz =
    Some (case post of [] \<Rightarrow> (Inl ENOENT, Some (forget t))
          | y # _ \<Rightarrow> (Inr (te_value (t_ents t y), te_valuesz (t_ents t y)), Some (remember y t)))"
proof -
  have inv: "tab_inv t" using g by (simp add: good_def)
  let ?h = "tab_hash t key sz"
  let ?c = "t_chains t ! tab_idx t ?h"
  have okc: "chain_ok t (tab_idx t ?h) ?c" by (rule tab_inv_chain [OF inv tab_idx_less [OF inv]])
  then have dc: "distinct ?c" by (simp add: chain_ok_def)
  note fa = filter_after [OF dc ms]
  have "te_idx (t_ents t e) = tab_idx t ?h" using chain_ok_entD [OF okc fa(1)] by simp
  then have "rest_after t e = tl (dropWhile (\<lambda>x. x \<noteq> e) ?c)" using fa(1) by (simp add: rest_after_def Let_def)
  then have "find_entry t ?h key sz (rest_after t e) = (case post of [] \<Rightarrow> None | y # _ \<Rightarrow> Some y)"
    using fa(2) by (simp add: find_entry_eq)
  moreover have "lookup_start t key ?h = Some (rest_after t e)"
    using it k by (simp add: lookup_start_def saved_hit_def ent_same_ptr_def)
  moreover have "tab_vals t key sz \<noteq> []" using ms by (simp add: tab_vals_def Let_def)
  then have "t_nents t \<noteq> 0" using nents_0_vals [OF g, of key sz] by blast
  ultimately show ?thesis by (simp add: pr_table_kget_def Let_def split: list.splits)
qed

lemma kget_run_rest:
  assumes "good t" and "has_flag t PR_TABLE_FL_MULTI_VALUE" and "\<not> has_flag t PR_TABLE_FL_USE_CACHE"
    and "\<And>x k. ent_matches t (tab_hash t key sz) key sz x \<Longrightarrow> te_key (t_ents t x) = Some k \<Longrightarrow>
      addr (tk_data (t_keys t k)) = addr key"
    and "filter (ent_matches t (tab_hash t key sz) key sz)
               (t_chains t ! tab_idx t (tab_hash t key sz)) = pre @ e # post"
    and "t_val_iter_ent t = Some e"
  shows "kget_run (Suc (length post)) (Some t) key sz =
    Some (map (\<lambda>x. Inr (te_value (t_ents t x), te_valuesz (t_ents t x))) post @ [Inl ENOENT])"
  using assms
proof (induction post arbitrary: t pre e)
  case (Nil t pre e)
  have "e \<in> set (filter (ent_matches t (tab_hash t key sz) key sz)
               (t_chains t ! tab_idx t (tab_hash t key sz)))" using Nil.prems(5) by simp
  then have e: "ent_matches t (tab_hash t key sz) key sz e" by simp
  then obtain k where k: "te_key (t_ents t e) = Some k" by (auto simp: ent_matches_def split: option.splits)
  show ?case
    using kget_next [OF Nil.prems(1) k Nil.prems(4) [OF e k] Nil.prems(5,6)] by simp
next
  case (Cons y post t pre e)
  let ?t' = "t\<lparr>t_val_iter_ent := Some y\<rparr>"
  have "e \<in> set (filter (ent_matches t (tab_hash t key sz) key sz)
               (t_chains t ! tab_idx t (tab_hash t key sz)))" using Cons.prems(5) by simp
  then have e: "ent_matches t (tab_hash t key sz) key sz e" by simp
  then obtain k where k: "te_key (t_ents t e) = Some k" by (auto simp: ent_matches_def split: option.splits)
  have rem: "remember y t = ?t'"
    using Cons.prems(2,3) by (simp add: remember_def)
  have "kget_run (Suc (length post)) (Some ?t') key sz =
      Some (map (\<lambda>x. Inr (te_value (t_ents ?t' x), te_valuesz (t_ents ?t' x))) post @ [Inl ENOENT])"
  proof (rule Cons.IH)
    show "filter (ent_matches ?t' (tab_hash ?t' key sz) key sz)
        (t_chains ?t' ! tab_idx ?t' (tab_hash ?t' key sz)) = (pre @ [e]) @ y # post"
      using Cons.prems(5) by simp
  qed (use Cons.prems(1-4) in \<open>auto simp: has_flag_def\<close>)
  then show ?case
    using kget_next [OF Cons.prems(1) k Cons.prems(4) [OF e k] Cons.prems(5,6)] rem by simp
qed

lemma kget_run_all:
  assumes g: "good t" and multi: "has_flag t PR_TABLE_FL_MULTI_VALUE"
    and nocache: "\<not> has_flag t PR_TABLE_FL_USE_CACHE" and it: "t_val_iter_ent t = None"
    and stored: "\<And>x k. ent_matches t (tab_hash t key sz) key sz x \<Longrightarrow> te_key (t_ents t x) = Some k \<Longrightarrow>
      addr (tk_data (t_keys t k)) = addr key"
  shows "kget_run (Suc (length (tab_vals t key sz))) (Some t) key sz =
    Some (map Inr (tab_vals t key sz) @ [Inl ENOENT])"
proof -
  let ?h = "tab_hash t key sz"
  let ?c = "t_chains t ! tab_idx t ?h"
  have start: "lookup_start t key ?h = Some ?c"
    using it nocache by (simp add: lookup_start_def saved_hit_def cache_hit_def)
  show ?thesis
  proof (cases "filter (ent_matches t ?h key sz) ?c")
    case Nil
    then have "tab_vals t key sz = []" by (simp add: tab_vals_def Let_def)
    then show ?thesis
      using Nil start by (simp add: pr_table_kget_def Let_def find_entry_eq)
  next
    case (Cons e post)
    let ?t' = "t\<lparr>t_val_iter_ent := Some e\<rparr>"
    have vals: "tab_vals t key sz = map (\<lambda>x. (te_value (t_ents t x), te_valuesz (t_ents t x))) (e # post)"
      using Cons by (simp add: tab_vals_def Let_def)
    have "kget_run (Suc (length post)) (Some ?t') key sz =
        Some (map (\<lambda>x. Inr (te_value (t_ents ?t' x), te_valuesz (t_ents ?t' x))) post @ [Inl ENOENT])"
      by (rule kget_run_rest [where pre = "[]" and e = e])
        (use g multi nocache stored Cons in \<open>auto simp: has_flag_def\<close>)
    moreover have "t_nents t \<noteq> 0" using nents_0_vals [OF g, of key sz] vals by auto
    then have "pr_table_kget (Some t) (Some key) sz =
        Some (Inr (te_value (t_ents t e), te_valuesz (t_ents t e)), Some ?t')"
      using start Cons multi nocache by (simp add: pr_table_kget_def Let_def find_entry_eq remember_def)
    ultimately show ?thesis using vals by (simp add: comp_def)
  qed
qed

lemma remove_free_ok:
  assumes g: "good t" and i: "i < t_nchains t" and e: "e \<in> set (t_chains t ! i)"
  shows "\<exists>t1. tab_entry_remove t e = Some t1 \<and> good (tab_entry_free t1 e) \<and>
           (tab_linked t \<longrightarrow> tab_linked (tab_entry_free t1 e)) \<and> same_conf t (tab_entry_free t1 e) \<and>
           t_chains (tab_entry_free t1 e) = (t_chains t)[i := remove1 e (t_chains t ! i)]"
proof -
  from drop_entry_ok [OF assms] obtain t' where d: "drop_entry e t = Some t'" and g': "good t'"
    and c: "same_conf t t'" "t_chains t' = (t_chains t)[i := remove1 e (t_chains t ! i)]"
    and ents: "t_ents t' = (t_ents t)(e := zero_entry)" by blast
  have nc: "t_nchains t' = t_nchains t" using c by (simp add: same_conf_def)
  have len: "length (t_chains t) = t_nchains t" using g by (simp add: good_def tab_inv_def)
  have l: "tab_linked t \<longrightarrow> tab_linked t'" using tab_linked_unlink [OF _ ents c(2) nc i len] by blast
  obtain t1 where t1: "tab_entry_remove t e = Some t1" "t' = (tab_entry_free t1 e)\<lparr>t_cache_ent := None\<rparr>"
    using d by (auto simp: drop_entry_def)
  show ?thesis using t1 g' c l by (auto simp: same_conf_def)
qed

lemma empty_chain_ok:
  "good t \<Longrightarrow> i < t_nchains t \<Longrightarrow> t_chains t ! i = c \<Longrightarrow>
   \<exists>t'. empty_chain i t = Some t' \<and> good t' \<and> (tab_linked t \<longrightarrow> tab_linked t') \<and> same_conf t t' \<and> t_chains t' = (t_chains t)[i := []]"
proof (induction c arbitrary: t)
  case Nil
  then show ?case
    by (simp add: empty_chain.simps [of i t] same_conf_def) (metis list_update_id)
next
  case (Cons e c)
  have e: "e \<in> set (t_chains t ! i)" using Cons.prems(3) by simp
  obtain t1 where t1: "tab_entry_remove t e = Some t1" "good (tab_entry_free t1 e)"
    "same_conf t (tab_entry_free t1 e)"
    and l: "tab_linked t \<longrightarrow> tab_linked (tab_entry_free t1 e)"
    and ch: "t_chains (tab_entry_free t1 e) = (t_chains t)[i := remove1 e (t_chains t ! i)]"
    using remove_free_ok [OF Cons.prems(1,2) e] by blast
  have len: "i < length (t_chains t)" using Cons.prems(1,2) by (simp add: good_def tab_inv_def)
  have "i < t_nchains (tab_entry_free t1 e)" using t1(3) Cons.prems(2) by (simp add: same_conf_def)
  moreover have "t_chains (tab_entry_free t1 e) ! i = c" using ch Cons.prems(3) len by simp
  ultimately obtain t' where t': "empty_chain i (tab_entry_free t1 e) = Some t'" "good t'"
    "same_conf (tab_entry_free t1 e) t'" "t_chains t' = (t_chains (tab_entry_free t1 e))[i := []]"
    "tab_linked (tab_entry_free t1 e) \<longrightarrow> tab_linked t'"
    using Cons.IH [OF t1(2)] by blast
  have "empty_chain i t = Some t'"
    using t1(1) t'(1) Cons.prems(3) by (simp add: empty_chain.simps [of i t])
  moreover have "same_conf t t'" using t1(3) t'(3) by (simp add: same_conf_def)
  moreover have "t_chains t' = (t_chains t)[i := []]" using t'(4) ch by simp
  ultimately show ?case using t'(2,5) l by blast
qed

lemma empty_chains_ok:
  "good t \<Longrightarrow> i + n = t_nchains t \<Longrightarrow> (\<forall>j < i. t_chains t ! j = []) \<Longrightarrow>
   \<exists>t'. empty_chains n i t = Some t' \<and> good t' \<and> (tab_linked t \<longrightarrow> tab_linked t') \<and> same_conf t t' \<and>
     (\<forall>j < t_nchains t. t_chains t' ! j = [])"
proof (induction n arbitrary: i t)
  case 0
  then show ?case by (simp add: same_conf_def)
next
  case (Suc n)
  have il: "i < t_nchains t" using Suc.prems(2) by simp
  obtain t' where t': "empty_chain i t = Some t'" "good t'" "same_conf t t'"
    "t_chains t' = (t_chains t)[i := []]" "tab_linked t \<longrightarrow> tab_linked t'"
    using empty_chain_ok [OF Suc.prems(1) il refl] by blast
  have same: "set_chain i [] t' = t'" using t'(4) by (simp add: set_chain_def)
  have len: "i < length (t_chains t)" using Suc.prems(1) il by (simp add: good_def tab_inv_def)
  have n': "Suc i + n = t_nchains t'" using Suc.prems(2) t'(3) by (simp add: same_conf_def)
  moreover have "\<forall>j < Suc i. t_chains t' ! j = []"
    using Suc.prems(3) t'(4) len by (simp add: nth_list_update less_Suc_eq)
  ultimately obtain t'' where t'': "empty_chains n (Suc i) t' = Some t''" "good t''" "same_conf t' t''"
    "\<forall>j < t_nchains t'. t_chains t'' ! j = []" "tab_linked t' \<longrightarrow> tab_linked t''"
    using Suc.IH [OF t'(2)] by blast
  have "empty_chains (Suc n) i t = Some t''" using t'(1) t''(1) same by simp
  moreover have "same_conf t t''" using t'(3) t''(3) by (simp add: same_conf_def)
  moreover have "\<forall>j < t_nchains t. t_chains t'' ! j = []" using t''(4) t'(3) by (simp add: same_conf_def)
  ultimately show ?case using t'(5) t''(2,5) by blast
qed

lemma pr_table_empty_ok:
  assumes "good t"
  shows "\<exists>t'. pr_table_empty (Some t) = Some (Inr (), Some t') \<and> good t' \<and>
           (tab_linked t \<longrightarrow> tab_linked t') \<and> same_conf t t' \<and>
           t_nents t' = 0 \<and> (\<forall>key sz. tab_vals t' key sz = [])"
proof (cases "t_nents t = 0")
  case True
  then show ?thesis using assms nents_0_vals by (auto simp: pr_table_empty_def same_conf_def)
next
  case False
  obtain t' where t': "empty_chains (t_nchains t) 0 t = Some t'" "good t'" "same_conf t t'"
    "\<forall>j < t_nchains t. t_chains t' ! j = []" "tab_linked t \<longrightarrow> tab_linked t'"
    using empty_chains_ok [OF assms, of 0 "t_nchains t"] by auto
  have inv: "tab_inv t'" using t'(2) by (simp add: good_def)
  have "\<forall>c \<in> set (t_chains t'). c = []"
    using inv t'(3,4) by (auto simp: tab_inv_def same_conf_def in_set_conv_nth)
  then have "t_nents t' = 0" using inv by (simp add: tab_inv_def sum_list_eq_0_iff)
  then show ?thesis using t' False nents_0_vals [OF t'(2)] by (auto simp: pr_table_empty_def)
qed

text \<open>Changing the value of an entry that has a key keeps the table well-formed.\<close>

lemma good_upd_value:
  assumes g: "good t" and k: "te_key (t_ents t e) \<noteq> None"
  shows "good (upd_ent e (\<lambda>x. x\<lparr>te_value := v, te_valuesz := vsz\<rparr>) t)"
proof -
  let ?t' = "upd_ent e (\<lambda>x. x\<lparr>te_value := v, te_valuesz := vsz\<rparr>) t"
  have inv: "tab_inv t" using g by (simp add: good_def)
  have "e \<notin> set (t_free_ents t)" using inv k by (auto simp: tab_inv_def zero_entry_def)
  moreover have "te_key (t_ents ?t' x) = te_key (t_ents t x)" "te_idx (t_ents ?t' x) = te_idx (t_ents t x)" for x
    by (simp_all add: upd_ent_def)
  then have "chain_ok ?t' i c = chain_ok t i c" for i c
    by (simp add: chain_ok_def ent_ok_def keys_unique_def same_key_def upd_ent_def)
  ultimately have "tab_inv ?t'" using inv by (auto simp: tab_inv_def upd_ent_def)
  then show ?thesis using g by (simp add: good_def tab_std_def upd_ent_def)
qed

end

section \<open>The default callbacks\<close>

lemma key_cmp_zero_iff:
  "key_cmp a m b n = 0 \<longleftrightarrow> m = n \<and> take m (c_text (pointee a)) = take m (c_text (pointee b))"
proof (cases "m = n")
  case True
  have one: "take 1 (c_text xs) = take 1 (c_text ys) \<longleftrightarrow> hd0 xs = hd0 ys" for xs ys
    by (cases xs; cases ys) (auto simp: c_text_def)
  have first: "hd0 xs = hd0 ys" if "take m (c_text xs) = take m (c_text ys)" "1 \<le> m" for xs ys
  proof -
    have "take 1 (take m (c_text xs)) = take 1 (take m (c_text ys))" using that by simp
    then show ?thesis using that(2) one by (simp add: min_def)
  qed
  show ?thesis
  proof (cases "1 \<le> m \<and> hd0 (pointee a) \<noteq> hd0 (pointee b)")
    case diff: True
    then have "take m (c_text (pointee a)) \<noteq> take m (c_text (pointee b))" using first by blast
    moreover have "key_cmp a m b n \<noteq> 0" using True diff by (simp add: key_cmp_def)
    ultimately show ?thesis by blast
  next
    case same: False
    show ?thesis
    proof (cases "m = 1")
      case m: True
      then have "hd0 (pointee a) = hd0 (pointee b)" using same by simp
      then show ?thesis using True m one by (simp add: key_cmp_def)
    next
      case False
      have "key_cmp a m b n = c_strncmp (pointee a) (pointee b) m"
        unfolding key_cmp_def using True same False by auto
      then show ?thesis using True by (simp add: c_strncmp_zero_iff)
    qed
  qed
qed (simp add: key_cmp_def)

interpretation tk: table_keys key_cmp
  by unfold_locales (auto simp: key_cmp_zero_iff)

definition tab_ok :: "'v pr_table_t \<Rightarrow> bool" where
  "tab_ok t \<longleftrightarrow> tab_inv t \<and> tab_std t \<and> t_keycmp t = key_cmp"

lemma good_tab_ok [simp]: "tk.good t = tab_ok t"
  by (simp add: tk.good_def tab_ok_def)

lemma tab_ok_nalloc:
  assumes "pr_table_nalloc True flags n seed = Inr t"
  shows "tab_ok t \<and> t_nents t = 0 \<and> fresh_lookup t"
proof -
  have n: "n \<noteq> 0" and t: "t_chains t = replicate n []" "t_nchains t = n" "t_nents t = 0"
    "t_free_ents t = []" "t_free_keys t = []" "t_val_iter_ent t = None" "t_cache_ent t = None"
    "t_keycmp t = key_cmp" "tab_std t" "t_nmaxents t = 8192"
    using assms by (auto simp: pr_table_nalloc_def tab_std_def split: if_splits)
  have "chain_ok t i []" for i by (simp add: chain_ok_def keys_unique_def)
  then show ?thesis using n t by (simp add: tab_ok_def tab_inv_def fresh_lookup_def sum_list_replicate)
qed

section \<open>String keys\<close>

definition str_vals :: "'v pr_table_t \<Rightarrow> string \<Rightarrow> ('v ptr option \<times> nat) list" where
  "str_vals t s = tab_vals t (c_str (0, s)) (str_keysz (0, s))"

lemma key_hash_loop_addr: "key_hash (a, s) n = key_hash (b, s) n"
  by (simp add: key_hash_def)

lemma same_arg_str:
  assumes "NUL \<notin> set (pointee a)" and "NUL \<notin> set (pointee b)"
    and "t_keycmp t = key_cmp" and "t_keyhash t = key_hash"
  shows "same_arg t (c_str a) (str_keysz a) (c_str b) (str_keysz b) \<longleftrightarrow> pointee a = pointee b"
proof
  assume "pointee a = pointee b"
  then show "same_arg t (c_str a) (str_keysz a) (c_str b) (str_keysz b)"
    using assms by (simp add: same_arg_def str_keysz_def c_str_def key_cmp_zero_iff key_hash_def)
next
  assume "same_arg t (c_str a) (str_keysz a) (c_str b) (str_keysz b)"
  then have "key_cmp (c_str a) (str_keysz a) (c_str b) (str_keysz b) = 0"
    using assms(3) by (simp add: same_arg_def)
  then have "length (pointee a) = length (pointee b)"
    and "take (str_keysz a) (pointee a) = take (str_keysz a) (pointee b)"
    using assms(1,2) unfolding key_cmp_zero_iff c_str_def snd_conv by (auto simp: str_keysz_def)
  then show "pointee a = pointee b" unfolding str_keysz_def by simp
qed

section \<open>Tables in use\<close>

text \<open>The states a table can get into: any sequence of calls, with any arguments, on a table from
  \<open>pr_table_nalloc\<close>. The string-keyed calls are the key-and-size calls on the bytes of the string;
  the callback of \<open>pr_table_do\<close> leaves the table alone, as \<open>table.h\<close> demands, so the table after that
  call is the table before. The other restriction is on \<open>pr_table_ctl\<close>: a table keeps the library's own callbacks for comparing keys and
  for linking and unlinking entries, since nothing can be said of a table whose chains are kept by a
  caller's function. Its hash function, its flags, its number of chains and its maximum may be set.\<close>

fun ctl_own_callbacks :: "table_ctl \<Rightarrow> bool" where
  "ctl_own_callbacks (CtlSetKeyCmp arg) = (arg = None)"
| "ctl_own_callbacks (CtlSetEntInsert arg) = (arg = None)"
| "ctl_own_callbacks (CtlSetEntRemove arg) = (arg = None)"
| "ctl_own_callbacks _ = True"

inductive table_step :: "'v pr_table_t \<Rightarrow> 'v pr_table_t \<Rightarrow> bool" where
  kadd: "pr_table_kadd (Some t) key sz v vsz = Some (r, Some t') \<Longrightarrow> table_step t t'"
| kremove: "pr_table_kremove (Some t) key sz = Some (r, Some t') \<Longrightarrow> table_step t t'"
| kget: "pr_table_kget (Some t) key sz = Some (r, Some t') \<Longrightarrow> table_step t t'"
| kset: "pr_table_kset (Some t) key sz v vsz = Some (r, Some t') \<Longrightarrow> table_step t t'"
| kexists: "pr_table_kexists (Some t) key sz = Some (r, Some t') \<Longrightarrow> table_step t t'"
| empty: "pr_table_empty (Some t) = Some (r, Some t') \<Longrightarrow> table_step t t'"
| do_all: "pr_table_do (Some t) cb (u :: string) fl = Some (r, u') \<Longrightarrow> table_step t t"
| nxt: "pr_table_next (Some t) = Some (r, Some t') \<Longrightarrow> table_step t t'"
| rewind: "pr_table_rewind (Some t) = (r, Some t') \<Longrightarrow> table_step t t'"
| ctl: "pr_table_ctl (Some t) cmd = Some (r, Some t') \<Longrightarrow> ctl_own_callbacks cmd \<Longrightarrow> table_step t t'"

inductive table_reach :: "64 word \<Rightarrow> nat \<Rightarrow> 32 word \<Rightarrow> 'v pr_table_t \<Rightarrow> bool"
  for flags n seed where
  alloc: "pr_table_nalloc True flags n seed = Inr t \<Longrightarrow> table_reach flags n seed t"
| step: "table_reach flags n seed t \<Longrightarrow> table_step t t' \<Longrightarrow> table_reach flags n seed t'"

lemma cache_hit_off: "\<not> has_flag t PR_TABLE_FL_USE_CACHE \<Longrightarrow> cache_hit t key = Some False"
  by (simp add: cache_hit_def)

abbreviation tab_full :: "'v pr_table_t \<Rightarrow> bool" where
  "tab_full t \<equiv> tab_ok t \<and> tab_linked t"

lemma step_kadd:
  assumes ok: "tab_full t" and run: "pr_table_kadd (Some t) key sz v vsz = Some (r, Some t')"
  shows "tab_full t'"
proof -
  have le: "t_nents t \<le> t_nmaxents t" using ok by (simp add: tab_ok_def tab_inv_def)
  show ?thesis
  proof (cases "key = None \<or> (0 < vsz \<and> v = None) \<or> t_nents t = t_nmaxents t")
    case True
    then show ?thesis using ok run
      by (auto simp: pr_table_kadd_def split: option.splits if_splits)
  next
    case False
    then obtain k where k: "key = Some k" and room: "t_nents t < t_nmaxents t"
      and v: "\<not> (0 < vsz \<and> v = None)" using le by auto
    show ?thesis
    proof (cases "has_flag t PR_TABLE_FL_MULTI_VALUE \<or> tab_vals t k sz = []")
      case True
      then show ?thesis using tk.kadd_links [of t vsz v k sz] ok room v run k by auto
    next
      case False
      then show ?thesis using tk.kadd_dup [of t vsz v k sz] ok room v run k by auto
    qed
  qed
qed

lemma drop_entry_full:
  assumes "tab_full t" and "te_key (t_ents t e) \<noteq> None" and "drop_entry e t = Some t'"
  shows "tab_full t'"
proof -
  let ?i = "te_idx (t_ents t e)"
  have i: "?i < t_nchains t" "e \<in> set (t_chains t ! ?i)" using assms(1,2) by (auto simp: tab_linked_def)
  have len: "length (t_chains t) = t_nchains t" using assms(1) by (simp add: tab_ok_def tab_inv_def)
  have "tab_ok t'" "t_nchains t' = t_nchains t" "t_ents t' = (t_ents t)(e := zero_entry)"
    "t_chains t' = (t_chains t)[?i := remove1 e (t_chains t ! ?i)]"
    using tk.drop_entry_ok [OF _ i] assms by (auto simp: same_conf_def)
  then show ?thesis using tab_linked_unlink [OF _ _ _ _ i(1) len] assms(1) by blast
qed

lemma tab_ok_saved_upd [simp]:
  "tab_ok (t\<lparr>t_cache_ent := a\<rparr>) = tab_ok t" "tab_ok (t\<lparr>t_val_iter_ent := a\<rparr>) = tab_ok t"
  "tab_ok (t\<lparr>t_tab_iter_ent := a\<rparr>) = tab_ok t"
  by (simp_all add: tab_ok_def tab_std_def)

lemma find_entry_key: "find_entry t h key sz c = Some e \<Longrightarrow> te_key (t_ents t e) \<noteq> None"
  using find_entry_SomeD by (fastforce simp: ent_matches_def split: option.splits)

lemma cache_hit_key: "cache_hit t key = Some True \<Longrightarrow> te_key (t_ents t (the (t_cache_ent t))) \<noteq> None"
  by (auto simp: cache_hit_def saved_hit_def ent_same_ptr_def split: if_splits option.splits)

lemma step_kremove:
  assumes ok: "tab_full t" and run: "pr_table_kremove (Some t) key sz = Some (r, Some t')"
  shows "tab_full t'"
proof -
  consider "t' = t" | "t' = t\<lparr>t_cache_ent := None\<rparr>"
    | e where "te_key (t_ents t e) \<noteq> None" "drop_entry e t = Some t'"
    using run cache_hit_key [of t] find_entry_key [of t]
    by (auto simp: pr_table_kremove_def Let_def split: option.splits if_splits bool.splits; metis)
  then show ?thesis using ok drop_entry_full [OF ok] by cases auto
qed

lemma step_kget:
  assumes "tab_full t" and "pr_table_kget (Some t) key sz = Some (r, Some t')"
  shows "tab_full t'"
  using assms
  by (auto simp: pr_table_kget_def forget_def remember_def Let_def
      split: option.splits if_splits)

lemma step_kexists:
  assumes "tab_full t" and "pr_table_kexists (Some t) key sz = Some (r, Some t')"
  shows "tab_full t'"
  using assms
  by (auto simp: pr_table_kexists_def Let_def
      split: option.splits if_splits bool.splits)

lemma step_kset:
  assumes ok: "tab_full t" and run: "pr_table_kset (Some t) key sz v vsz = Some (r, Some t')"
  shows "tab_full t'"
proof -
  have upd: "tab_full (upd_ent e (\<lambda>x. x\<lparr>te_value := v, te_valuesz := vsz\<rparr>) t)"
    if "find_entry t h k sz c = Some e" for h k c e
    using tk.good_upd_value [where t = t and e = e and v = v and vsz = vsz] ok find_entry_key [OF that]
    by (simp add: tab_linked_def upd_ent_def)
  show ?thesis
    using run ok upd
    by (auto simp: pr_table_kset_def forget_def remember_def Let_def
        split: option.splits if_splits)
qed

lemma table_next_loop_state:
  assumes "table_next_loop prev ent t = Some r"
  shows "\<exists>it. snd r = t\<lparr>t_tab_iter_ent := it\<rparr>"
proof (rule table_next_loop.raw_induct [OF _ assms])
  fix rec prev ent r and t :: "'a pr_table_t"
  assume IH: "\<And>prev ent t y. rec prev ent t = Some y \<Longrightarrow> \<exists>it. snd y = t\<lparr>t_tab_iter_ent := it\<rparr>"
    and run: "(case (ent, prev) of (None, b) \<Rightarrow> Some (ent, t)
      | (Some e, None) \<Rightarrow> Some (ent, t)
      | (Some e, Some p) \<Rightarrow>
          if te_key (t_ents t e) = te_key (t_ents t p)
          then rec prev (fst (tab_entry_next t)) (snd (tab_entry_next t)) else Some (ent, t)) = Some r"
  have self: "\<exists>it. t = t\<lparr>t_tab_iter_ent := it\<rparr>" by (rule exI [of _ "t_tab_iter_ent t"]) simp
  have "\<exists>it. snd y = t\<lparr>t_tab_iter_ent := it\<rparr>" if "rec p e (snd (tab_entry_next t)) = Some y" for p e y
    using IH [OF that] by (simp add: tab_entry_next_def Let_def)
  then show "\<exists>it. snd r = t\<lparr>t_tab_iter_ent := it\<rparr>"
    using run self by (auto split: option.splits if_splits)
qed

lemma step_next:
  assumes "tab_full t" and "pr_table_next (Some t) = Some (r, Some t')"
  shows "tab_full t'"
proof -
  obtain ent it where n: "tab_entry_next t = (ent, t\<lparr>t_tab_iter_ent := it\<rparr>)"
    by (auto simp: tab_entry_next_def Let_def)
  from assms(2) obtain ent' where "table_next_loop (t_tab_iter_ent t) ent (t\<lparr>t_tab_iter_ent := it\<rparr>) = Some (ent', t')"
    by (auto simp: pr_table_next_def n split: option.splits)
  then obtain it' where "t' = t\<lparr>t_tab_iter_ent := it'\<rparr>" using table_next_loop_state by fastforce
  then show ?thesis using assms(1) by simp
qed

text \<open>A table without entries has no entry object with a key, whatever its chains become.\<close>

lemma empty_table_keyless:
  assumes "tab_full t" and "t_nents t = 0"
  shows "te_key (t_ents t e) = None"
proof (rule ccontr)
  assume k: "te_key (t_ents t e) \<noteq> None"
  let ?c = "t_chains t ! te_idx (t_ents t e)"
  have "?c \<in> set (t_chains t)" "e \<in> set ?c"
    using assms(1) k by (auto simp: tab_linked_def tab_ok_def tab_inv_def)
  then show False using assms by (force simp: tab_ok_def tab_inv_def sum_list_eq_0_iff)
qed

lemma empty_table_rebuild:
  assumes "tab_full t" and "t_nents t = 0" and "t_nents t' = 0" and "tab_std t'" and "t_keycmp t' = key_cmp"
    and "t_ents t' = t_ents t" "t_keys t' = t_keys t" "t_free_ents t' = t_free_ents t"
      "t_free_keys t' = t_free_keys t" "t_next_ent t' = t_next_ent t" "t_next_key t' = t_next_key t"
    and "\<forall>c \<in> set (t_chains t'). c = []" and "length (t_chains t') = t_nchains t'" and "0 < t_nchains t'"
  shows "tab_full t'"
proof -
  have e: "t_chains t' ! i = []" if "i < t_nchains t'" for i using that assms(12,13) by simp
  have "chain_ok t' i []" for i by (simp add: chain_ok_def keys_unique_def)
  then have "\<forall>i < t_nchains t'. chain_ok t' i (t_chains t' ! i)" using e by simp
  moreover have "sum_list (map length (t_chains t')) = 0" using assms(12) by (simp add: sum_list_eq_0_iff)
  ultimately have "tab_inv t'" using assms by (simp add: tab_inv_def tab_ok_def)
  moreover have "tab_linked t'" using empty_table_keyless [OF assms(1,2)] assms(6) by (simp add: tab_linked_def)
  ultimately show ?thesis using assms(4,5) by (simp add: tab_ok_def)
qed

lemma step_ctl:
  assumes ok: "tab_full t" and run: "pr_table_ctl (Some t) cmd = Some (r, Some t')"
    and own: "ctl_own_callbacks cmd"
  shows "tab_full t'"
proof (cases "t_nents t = 0")
  case True
  have c: "\<forall>c \<in> set (t_chains t). c = []" "length (t_chains t) = t_nchains t" "0 < t_nchains t"
    using ok True by (auto simp: tab_ok_def tab_inv_def sum_list_eq_0_iff)
  have s: "t_entinsert t = entry_insert" "t_entremove t = entry_remove" "t_keycmp t = key_cmp"
    using ok by (simp_all add: tab_ok_def tab_std_def)
  have "table_ctl_apply cmd t = Some (r, t')" using run True by (auto simp: pr_table_ctl_def split: option.splits)
  then show ?thesis
    using own True c s
    by (cases cmd; intro empty_table_rebuild [OF ok True])
      (auto simp: tab_std_def split: option.splits if_splits)
next
  case False
  then show ?thesis using run ok by (auto simp: pr_table_ctl_def)
qed

lemma table_step_full: "table_step t t' \<Longrightarrow> tab_full t \<Longrightarrow> tab_full t'"
proof (induction rule: table_step.induct)
  case (empty t r t')
  then show ?case using tk.pr_table_empty_ok [of t] by auto
next
  case (rewind t r t')
  then show ?case by (auto simp: pr_table_rewind_def)
next
  case (do_all t cb u fl r u')
  then show ?case by blast
qed (rule step_kadd step_kremove step_kget step_kset step_kexists step_next step_ctl; assumption)+

section \<open>Properties\<close>

text \<open>C1. Whatever sequence of calls is made on an allocated table, with whatever arguments, it stays
  well-formed: every entry sits in the chain of its key's hash, the entries of one key share one key
  object that counts them, the free lists hold no live object, every entry object with a key is linked
  into its chain, and the number of entries is the total length of the chains and never exceeds the
  table's maximum. The calls are those on keys, emptying, iterating, rewinding, \<open>pr_table_do\<close> with a
  callback that leaves the table alone, and \<open>pr_table_ctl\<close> with every command except the installation of a caller's function for
  comparing keys or for linking and unlinking entries.\<close>

theorem table_always_well_formed:
  assumes "table_reach flags n seed t"
  shows "tab_inv t \<and> tab_linked t \<and> t_nents t = sum_list (map length (t_chains t)) \<and>
    t_nents t \<le> t_nmaxents t"
proof -
  have "tab_full t"
    using assms
  proof (induction rule: table_reach.induct)
    case (alloc t)
    have "tab_linked t" using alloc by (auto simp: pr_table_nalloc_def tab_linked_def zero_entry_def split: if_splits)
    then show ?case using tab_ok_nalloc [OF alloc] by simp
  next
    case (step t t')
    then show ?case using table_step_full by blast
  qed
  then show ?thesis by (auto simp: tab_ok_def tab_inv_def)
qed

text \<open>Keys of given sizes are compared up to their first zero byte only, and the hash does not tell
  these two apart, so a table takes them for the same key.\<close>

lemma opaque_keys_collide:
  assumes "t_keycmp t = key_cmp" and "t_keyhash t = key_hash"
  shows "same_arg t (a, [CHR 0x00, CHR 0x22, CHR 0x01]) 3 (b, [CHR 0x00, CHR 0x01, CHR 0x02]) 3"
  using assms
  by (simp add: same_arg_def key_cmp_zero_iff key_hash_def numeral_3_eq_3 schar_def c_text_def)

definition demo_tab :: "string pr_table_t" where
  "demo_tab = (case pr_table_nalloc True PR_TABLE_FL_MULTI_VALUE 4 7 of Inr t \<Rightarrow> t)"

definition demo_key :: "string ptr" where
  "demo_key = (100, ''dir'' @ [NUL])"

definition demo_tab1 :: "string pr_table_t" where
  "demo_tab1 = (case pr_table_kadd (Some demo_tab) (Some demo_key) 4 (Some (200, ''/srv'')) 5 of
                  Some (_, Some t) \<Rightarrow> t | _ \<Rightarrow> demo_tab)"

lemma demo_tab_alloc: "pr_table_nalloc True PR_TABLE_FL_MULTI_VALUE 4 7 = Inr demo_tab"
  by (simp add: demo_tab_def pr_table_nalloc_def)

lemma demo_tab_fields:
  "t_nents demo_tab = 0" "t_nmaxents demo_tab = 8192" "t_val_iter_ent demo_tab = None"
  "t_flags demo_tab = 1" "t_keycmp demo_tab = key_cmp" "t_keyhash demo_tab = key_hash"
  by (simp_all add: demo_tab_def pr_table_nalloc_def)

lemma demo_tab_ok: "tab_ok demo_tab" "fresh_lookup demo_tab"
  using tab_ok_nalloc [OF demo_tab_alloc] by auto

lemma demo_vals: "tab_vals demo_tab key sz = []"
  using tk.nents_0_vals [of demo_tab key sz] demo_tab_ok demo_tab_fields by simp

lemma demo_tab1_ok:
  "tab_ok demo_tab1 \<and> same_conf demo_tab demo_tab1 \<and> same_saved demo_tab demo_tab1 \<and>
   tab_vals demo_tab1 demo_key 4 = [(Some (200, ''/srv''), 5)] \<and> t_nents demo_tab1 = 1"
proof -
  have "\<exists>t'. pr_table_kadd (Some demo_tab) (Some demo_key) 4 (Some (200, ''/srv'')) 5 =
        Some (Inr (), Some t') \<and> tk.good t' \<and> same_conf demo_tab t' \<and> same_saved demo_tab t' \<and>
      t_nents t' = Suc (t_nents demo_tab) \<and>
      (\<forall>key' sz'. tab_vals t' key' sz' = tab_vals demo_tab key' sz' @
         (if same_arg demo_tab demo_key 4 key' sz' then [(Some (200, ''/srv''), 5)] else []))"
    by (rule tk.kadd_ok) (simp_all add: demo_tab_ok demo_tab_fields demo_vals)
  then show ?thesis
    by (auto simp: demo_tab1_def demo_vals demo_tab_fields same_arg_def key_cmp_zero_iff
        simp del: split_paired_All)
qed

lemma demo_tab1_fresh: "fresh_lookup demo_tab1"
  using demo_tab1_ok demo_tab_ok(2) by (simp add: fresh_lookup_def same_conf_def same_saved_def has_flag_def)

theorem table_always_well_formed_witness:
  "table_reach PR_TABLE_FL_MULTI_VALUE 4 7 demo_tab1 \<and> tab_inv demo_tab1 \<and> tab_linked demo_tab1 \<and>
   t_nents demo_tab1 = sum_list (map length (t_chains demo_tab1)) \<and>
   t_nents demo_tab1 \<le> t_nmaxents demo_tab1"
proof -
  have "\<exists>t'. pr_table_kadd (Some demo_tab) (Some demo_key) 4 (Some (200, ''/srv'')) 5 = Some (Inr (), Some t')"
    using tk.kadd_ok [of demo_tab 5 "Some (200, ''/srv'')" demo_key 4] demo_tab_ok demo_tab_fields demo_vals
    by auto
  then have "pr_table_kadd (Some demo_tab) (Some demo_key) 4 (Some (200, ''/srv'')) 5 =
      Some (Inr (), Some demo_tab1)"
    by (auto simp: demo_tab1_def)
  then have r: "table_reach PR_TABLE_FL_MULTI_VALUE 4 7 demo_tab1"
    by (rule table_reach.step [OF table_reach.alloc [OF demo_tab_alloc] table_step.kadd])
  show ?thesis using r table_always_well_formed [OF r] by simp
qed






lemma demo_tab1_store:
  "te_key (t_ents demo_tab1 e) = (if e = 0 then Some 0 else None)"
  "tk_data (t_keys demo_tab1 0) = demo_key"
proof -
  let ?h = "tab_hash demo_tab demo_key 4"
  have i: "tab_idx demo_tab ?h < 4" by (simp add: demo_tab_def pr_table_nalloc_def)
  have kadd: "\<exists>t'. pr_table_kadd (Some demo_tab) (Some demo_key) 4 (Some (200, ''/srv'')) 5 =
      Some (Inr (), Some t') \<and>
      te_key (t_ents t' e) = (if e = 0 then Some 0 else None) \<and> tk_data (t_keys t' 0) = demo_key" for e
    using i
    by (simp add: pr_table_kadd_def kadd_body_def demo_tab_def pr_table_nalloc_def tab_entry_alloc_def
        upd_ent_def kadd_attach_def tab_key_alloc_def upd_key_def set_chain_def tab_entry_insert_def
        zero_entry_def Let_def)
  show "te_key (t_ents demo_tab1 e) = (if e = 0 then Some 0 else None)"
    "tk_data (t_keys demo_tab1 0) = demo_key"
    using kadd [of e] kadd [of 0] by (auto simp: demo_tab1_def)
qed


text \<open>\<open>pr_table_kexists\<close> returns the number of values stored under the key.\<close>

theorem pr_table_kexists_counts:
  assumes "tab_ok t" and "fresh_lookup t" and "t_nents t \<noteq> 0"
  shows "\<exists>t'. pr_table_kexists (Some t) (Some key) sz = Some (Inr (length (tab_vals t key sz)), Some t')"
  using tk.kexists_ok [of t key sz] assms by auto

theorem pr_table_kexists_counts_witness:
  "t_nents demo_tab1 \<noteq> 0 \<and> (\<exists>t'. pr_table_kexists (Some demo_tab1) (Some demo_key) 4 = Some (Inr 1, Some t'))"
  using pr_table_kexists_counts [of demo_tab1 demo_key 4] demo_tab1_ok demo_tab1_fresh by simp

text \<open>C32. The pointer of the per-key iteration survives the removal of its entry. In a multi-valued
  table that holds another entry too, getting a key with one value and then removing it leaves
  \<open>val_iter_ent\<close> at a freed entry, and the next \<open>pr_table_kget\<close>, for any key, dereferences that
  entry's \<open>NULL\<close> key.\<close>

theorem pr_table_kget_stale_iteration_faults:
  assumes ok: "tab_ok t" and multi: "has_flag t PR_TABLE_FL_MULTI_VALUE"
    and nc: "\<not> has_flag t PR_TABLE_FL_USE_CACHE" and it: "t_val_iter_ent t = None"
    and one: "tab_vals t key sz = [v]" and two: "2 \<le> t_nents t"
  shows "\<exists>t1 t2. pr_table_kget (Some t) (Some key) sz = Some (Inr v, Some t1) \<and>
           pr_table_kremove (Some t1) (Some key) sz = Some (Inr v, Some t2) \<and>
           (\<forall>key' sz'. pr_table_kget (Some t2) (Some key') sz' = None)"
proof -
  let ?h = "tab_hash t key sz"
  let ?c = "t_chains t ! tab_idx t ?h"
  have inv: "tab_inv t" using ok by (simp add: tab_ok_def)
  obtain e where e: "find_entry t ?h key sz ?c = Some e" using one tk.vals_empty_iff [of t key sz] by auto
  have v: "(te_value (t_ents t e), te_valuesz (t_ents t e)) = v" using tk.find_entry_hd_vals [OF e] one by simp
  let ?t1 = "t\<lparr>t_val_iter_ent := Some e\<rparr>"
  have get: "pr_table_kget (Some t) (Some key) sz = Some (Inr v, Some ?t1)"
    using two e v it nc multi
    by (simp add: pr_table_kget_def lookup_start_def saved_hit_def cache_hit_off remember_def Let_def)
  have e1: "find_entry ?t1 ?h key sz ?c = Some e" using e by (simp add: find_entry_eq)
  obtain t2 where d: "drop_entry e ?t1 = Some t2" "t_ents t2 = (t_ents t)(e := zero_entry)"
    "t_nents t2 = t_nents t - 1" "t_val_iter_ent t2 = Some e"
    using tk.drop_entry_ok [of ?t1 "tab_idx t ?h" e] ok tab_idx_less [OF inv] find_entry_SomeD [OF e]
    by auto
  have cne: "?c \<noteq> []" using find_entry_SomeD [OF e] by auto
  have "cache_hit ?t1 key = Some False" using nc by (simp add: cache_hit_def has_flag_def)
  then have rem: "pr_table_kremove (Some ?t1) (Some key) sz = Some (Inr v, Some t2)"
    using two e1 v cne d(1) by (simp add: pr_table_kremove_def Let_def)
  have "pr_table_kget (Some t2) (Some key') sz' = None" for key' sz'
    using d two
    by (simp add: pr_table_kget_def lookup_start_def saved_hit_def ent_same_ptr_def zero_entry_def Let_def)
  with get rem show ?thesis by blast
qed

definition demo_key2 :: "string ptr" where
  "demo_key2 = (101, ''x'' @ [NUL])"

definition demo_tab2 :: "string pr_table_t" where
  "demo_tab2 = (case pr_table_kadd (Some demo_tab1) (Some demo_key2) 2 (Some (201, ''/tmp'')) 5 of
                  Some (_, Some t) \<Rightarrow> t | _ \<Rightarrow> demo_tab)"

lemma demo_tab2_ok:
  "tab_ok demo_tab2 \<and> same_conf demo_tab demo_tab2 \<and> same_saved demo_tab demo_tab2 \<and>
   tab_vals demo_tab2 demo_key 4 = [(Some (200, ''/srv''), 5)] \<and> t_nents demo_tab2 = 2"
proof -
  have multi: "has_flag demo_tab1 PR_TABLE_FL_MULTI_VALUE" and kc: "t_keycmp demo_tab1 = key_cmp"
    and room: "t_nents demo_tab1 < t_nmaxents demo_tab1"
    using demo_tab1_ok demo_tab_fields by (simp_all add: has_flag_def same_conf_def)
  have "\<exists>t'. pr_table_kadd (Some demo_tab1) (Some demo_key2) 2 (Some (201, ''/tmp'')) 5 =
        Some (Inr (), Some t') \<and> tk.good t' \<and> same_conf demo_tab1 t' \<and> same_saved demo_tab1 t' \<and>
      t_nents t' = Suc (t_nents demo_tab1) \<and>
      (\<forall>key' sz'. tab_vals t' key' sz' = tab_vals demo_tab1 key' sz' @
         (if same_arg demo_tab1 demo_key2 2 key' sz' then [(Some (201, ''/tmp''), 5)] else []))"
    by (rule tk.kadd_ok) (use demo_tab1_ok multi room in simp_all)
  then show ?thesis
    using demo_tab1_ok kc
    by (auto simp: demo_tab2_def same_arg_def key_cmp_zero_iff same_conf_def same_saved_def
        simp del: split_paired_All)
qed

theorem pr_table_kget_stale_iteration_faults_witness:
  "\<exists>t1 t2. pr_table_kget (Some demo_tab2) (Some demo_key) 4 = Some (Inr (Some (200, ''/srv''), 5), Some t1) \<and>
     pr_table_kremove (Some t1) (Some demo_key) 4 = Some (Inr (Some (200, ''/srv''), 5), Some t2) \<and>
     (\<forall>key' sz'. pr_table_kget (Some t2) (Some key') sz' = None)"
  by (rule pr_table_kget_stale_iteration_faults)
    (use demo_tab2_ok demo_tab_fields in \<open>auto simp: has_flag_def same_conf_def same_saved_def\<close>)

end
