(* ===== verification/Var.thy ===== *)
theory Var
  imports Table_Laws
begin

text \<open>
  The variables API of \<open>src/var.c\<close>, a client of the hash table: named variables \<open>%{...}\<close> whose values
  are strings or callbacks. Its properties rest on the contract of the table.
\<close>

section \<open>Data\<close>

abbreviation PR_VAR_TYPE_STR :: int where "PR_VAR_TYPE_STR \<equiv> 1"
abbreviation PR_VAR_TYPE_FUNC :: int where "PR_VAR_TYPE_FUNC \<equiv> 2"

text \<open>What \<open>v_val\<close> points to: text, or a function of the registered data (a pointer, \<open>None\<close> for \<open>NULL\<close>)
  and its size.\<close>

datatype var_val = ValStr string | ValFunc "nat option \<Rightarrow> nat \<Rightarrow> string"

record var =
  v_type :: int
  v_desc :: "string option"
  v_val :: var_val
  v_data :: "nat option"
  v_datasz :: nat

text \<open>The static variables \<open>var_pool\<close> (whether the pool exists) and \<open>var_tab\<close>.\<close>

record var_state =
  var_pool :: bool
  var_tab :: "var pr_table_t option"

section \<open>Operations\<close>

text \<open>\<open>pr_table_remove(...) ? 0 : -1\<close>: a removed \<open>NULL\<close> value counts as a failure too.\<close>

definition pr_var_delete :: "var_state \<Rightarrow> string ptr option \<Rightarrow> (unit result \<times> var_state) option" where
  "pr_var_delete st name =
     (case var_tab st of
        None \<Rightarrow> Some (Inl EPERM, st)
      | Some t \<Rightarrow>
          (case name of
             None \<Rightarrow> Some (Inl EINVAL, st)
           | Some n \<Rightarrow>
               (case pr_table_remove (Some t) (Some n) of
                  None \<Rightarrow> None
                | Some (r, tab) \<Rightarrow>
                    Some (case r of
                            Inl e \<Rightarrow> Inl e
                          | Inr (v, _) \<Rightarrow> (if v = None then Inl EINVAL else Inr ()),
                          st\<lparr>var_tab := tab\<rparr>))))"

definition pr_var_exists :: "var_state \<Rightarrow> string ptr option \<Rightarrow> (bool result \<times> var_state) option" where
  "pr_var_exists st name =
     (case var_tab st of
        None \<Rightarrow> Some (Inl EPERM, st)
      | Some t \<Rightarrow>
          (case name of
             None \<Rightarrow> Some (Inl EINVAL, st)
           | Some n \<Rightarrow>
               (case pr_table_exists (Some t) (Some n) of
                  None \<Rightarrow> None
                | Some (r, tab) \<Rightarrow>
                    Some (Inr (case r of Inl _ \<Rightarrow> False | Inr c \<Rightarrow> 0 < c), st\<lparr>var_tab := tab\<rparr>))))"

text \<open>The value of a variable; reading a function as text or text as a function is undefined.\<close>

definition var_value :: "var \<Rightarrow> string result option" where
  "var_value v =
     (if v_type v = PR_VAR_TYPE_STR then
        (case v_val v of ValStr s \<Rightarrow> Some (Inr s) | ValFunc _ \<Rightarrow> None)
      else if v_type v = PR_VAR_TYPE_FUNC then
        (case v_val v of ValFunc f \<Rightarrow> Some (Inr (f (v_data v) (v_datasz v))) | ValStr _ \<Rightarrow> None)
      else Some (Inl EINVAL))"

definition pr_var_get :: "var_state \<Rightarrow> string ptr option \<Rightarrow> (string result \<times> var_state) option" where
  "pr_var_get st name =
     (case var_tab st of
        None \<Rightarrow> Some (Inl EPERM, st)
      | Some t \<Rightarrow>
          (case name of
             None \<Rightarrow> Some (Inl EINVAL, st)
           | Some n \<Rightarrow>
               (case pr_table_get (Some t) (Some n) of
                  None \<Rightarrow> None
                | Some (Inl e, tab) \<Rightarrow> Some (Inl e, st\<lparr>var_tab := tab\<rparr>)
                | Some (Inr (None, _), tab) \<Rightarrow> Some (Inl ENOENT, st\<lparr>var_tab := tab\<rparr>)
                | Some (Inr (Some v, _), tab) \<Rightarrow>
                    map_option (\<lambda>r. (r, st\<lparr>var_tab := tab\<rparr>)) (var_value (pointee v)))))"

definition pr_var_next ::
  "var_state \<Rightarrow> ((string ptr \<times> string option) result \<times> var_state) option" where
  "pr_var_next st =
     (case var_tab st of
        None \<Rightarrow> Some (Inl EPERM, st)
      | Some t \<Rightarrow>
          (case pr_table_next (Some t) of
             None \<Rightarrow> None
           | Some (Inl e, tab) \<Rightarrow> Some (Inl e, st\<lparr>var_tab := tab\<rparr>)
           | Some (Inr name, tab) \<Rightarrow>
               (case pr_table_get tab (Some (addr name, c_text (pointee name))) of
                  None \<Rightarrow> None
                | Some (r, tab') \<Rightarrow>
                    Some (Inr (name, case r of Inr (Some v, _) \<Rightarrow> v_desc (pointee v) | _ \<Rightarrow> None),
                          st\<lparr>var_tab := tab'\<rparr>))))"

definition pr_var_rewind :: "var_state \<Rightarrow> var_state" where
  "pr_var_rewind st =
     (case var_tab st of
        None \<Rightarrow> st
      | Some t \<Rightarrow> st\<lparr>var_tab := snd (pr_table_rewind (Some t))\<rparr>)"

text \<open>The argument checks of \<open>pr_var_set\<close>, in their order.\<close>

definition var_args_ok ::
  "bool \<Rightarrow> string ptr option \<Rightarrow> int \<Rightarrow> var_val option \<Rightarrow> nat option \<Rightarrow> nat \<Rightarrow> bool" where
  "var_args_ok have_pool name vtype val data datasz =
     (case (name, val) of
        (Some n, Some v) \<Rightarrow>
          have_pool \<and>
          \<not> length (pointee n) < 4 \<and>
          \<not> (vtype \<noteq> PR_VAR_TYPE_STR \<and> vtype \<noteq> PR_VAR_TYPE_FUNC) \<and>
          \<not> (data \<noteq> None \<and> datasz = 0) \<and>
          \<not> (data = None \<and> 0 < datasz) \<and>
          take 2 (pointee n) = ''%{'' \<and> last (pointee n) = CHR ''}''
      | _ \<Rightarrow> False)"

text \<open>The \<open>struct var\<close> that is stored.\<close>

definition mk_var :: "string option \<Rightarrow> int \<Rightarrow> var_val \<Rightarrow> nat option \<Rightarrow> nat \<Rightarrow> var option" where
  "mk_var desc vtype val data datasz =
     (if vtype = PR_VAR_TYPE_STR then
        (case val of
           ValStr s \<Rightarrow> Some \<lparr>v_type = vtype, v_desc = desc, v_val = ValStr s, v_data = None,
                            v_datasz = length s\<rparr>
         | ValFunc _ \<Rightarrow> None)
      else Some \<lparr>v_type = vtype, v_desc = desc, v_val = val, v_data = data,
                 v_datasz = (if data = None then 0 else datasz)\<rparr>)"

text \<open>\<open>new_addr\<close> is the address of the block from \<open>pcalloc\<close>, \<open>sizeof_var\<close> the size of the struct.\<close>

definition pr_var_set ::
  "nat \<Rightarrow> nat \<Rightarrow> var_state \<Rightarrow> bool \<Rightarrow> string ptr option \<Rightarrow> string option \<Rightarrow> int \<Rightarrow> var_val option \<Rightarrow>
   nat option \<Rightarrow> nat \<Rightarrow> (unit result \<times> var_state) option" where
  "pr_var_set sizeof_var new_addr st have_pool name desc vtype val data datasz =
     (if var_tab st = None then Some (Inl EPERM, st)
      else if \<not> var_args_ok have_pool name vtype val data datasz then Some (Inl EINVAL, st)
      else
        (case (name, val) of
           (Some n, Some v) \<Rightarrow>
             (case pr_var_delete st (Some n) of
                None \<Rightarrow> None
              | Some (_, st1) \<Rightarrow>
                  (case mk_var desc vtype v data datasz of
                     None \<Rightarrow> None
                   | Some x \<Rightarrow>
                       (case pr_table_add (\<lambda>_. 0) (var_tab st1) (Some n) (Some (new_addr, x)) sizeof_var of
                          None \<Rightarrow> None
                        | Some (r, tab) \<Rightarrow> Some (r, st1\<lparr>var_tab := tab\<rparr>))))
         | _ \<Rightarrow> Some (Inl EINVAL, st)))"

definition var_init :: "32 word \<Rightarrow> var_state \<Rightarrow> var_state" where
  "var_init seed st =
     (let st1 = st\<lparr>var_pool := True\<rparr> in
      if var_tab st1 = None
      then st1\<lparr>var_tab := (case pr_table_alloc True 0 seed of Inr t \<Rightarrow> Some t | Inl _ \<Rightarrow> None)\<rparr>
      else st1)"

definition var_free :: "var_state \<Rightarrow> var_state option" where
  "var_free st =
     (if var_pool st then
        (case var_tab st of
           None \<Rightarrow> Some \<lparr>var_pool = False, var_tab = None\<rparr>
         | Some t \<Rightarrow>
             (case pr_table_empty (Some t) of
                None \<Rightarrow> None
              | Some (_, tab) \<Rightarrow>
                  (case pr_table_free tab of
                     (_, _) \<Rightarrow> Some \<lparr>var_pool = False, var_tab = None\<rparr>)))
      else Some st)"

section \<open>The registry as a map\<close>

text \<open>What the table holds for a name, and the invariant: one typed value at most for each name.\<close>

definition var_map :: "var_state \<Rightarrow> string \<Rightarrow> var option" where
  "var_map st n =
     (case var_tab st of
        None \<Rightarrow> None
      | Some t \<Rightarrow> (case str_vals t n of [] \<Rightarrow> None | (v, _) # _ \<Rightarrow> map_option pointee v))"

definition slot_ok :: "(var ptr option \<times> nat) list \<Rightarrow> bool" where
  "slot_ok vs = (case vs of
     [] \<Rightarrow> True
   | [(Some v, _)] \<Rightarrow> var_value (pointee v) \<noteq> None
   | _ \<Rightarrow> False)"

definition var_ok :: "var pr_table_t \<Rightarrow> bool" where
  "var_ok t \<longleftrightarrow> tab_ok t \<and> t_keyhash t = key_hash \<and> t_flags t = 0 \<and> t_val_iter_ent t = None \<and>
     (\<forall>n. NUL \<notin> set n \<longrightarrow> slot_ok (str_vals t n))"

lemma slot_ok_iff:
  "slot_ok vs \<longleftrightarrow> vs = [] \<or> (\<exists>v sz. vs = [(Some v, sz)] \<and> var_value (pointee v) \<noteq> None)"
  by (cases vs; cases "fst (hd vs)"; cases "tl vs") (auto simp: slot_ok_def split: prod.splits option.splits)

lemma var_okD:
  assumes "var_ok t"
  shows "tab_ok t" "fresh_lookup t" "t_keyhash t = key_hash" "t_keycmp t = key_cmp" "t_flags t = 0"
    "\<not> has_flag t f"
  using assms by (simp_all add: var_ok_def fresh_lookup_def has_flag_def tab_ok_def)

lemma str_vals_at:
  assumes "var_ok t"
  shows "tab_vals t (c_str (a, n)) (str_keysz (a, n)) = str_vals t n"
proof -
  have k: "key_cmp x y (a, s) z = key_cmp x y (0, s) z" "key_hash (a, s) z = key_hash (0, s) z" for x y s z
    by (simp_all add: key_cmp_def key_hash_def)
  have "ent_matches t h (a, s) z = ent_matches t h (0, s) z" for h s z
    using var_okD(4) [OF assms] by (intro ext) (simp add: ent_matches_def k split: option.split)
  then show ?thesis
    using var_okD(3) [OF assms] by (simp add: str_vals_def tab_vals_def c_str_def str_keysz_def k(2) Let_def)
qed

lemma same_name:
  assumes "var_ok t" and "NUL \<notin> set n" and "NUL \<notin> set m"
  shows "same_arg t (c_str (a, n)) (str_keysz (a, n)) (c_str (b, m)) (str_keysz (b, m)) \<longleftrightarrow> n = m"
  using same_arg_str [of "(a, n)" "(b, m)" t] var_okD [OF assms(1)] assms(2,3) by simp

text \<open>Reading a variable.\<close>

lemma var_get_ok:
  assumes ok: "var_ok t" and t: "var_tab st = Some t" and n: "NUL \<notin> set n"
  shows "\<exists>t'. pr_var_get st (Some (a, n)) =
           Some (case var_map st n of None \<Rightarrow> Inl ENOENT | Some v \<Rightarrow> the (var_value v), st\<lparr>var_tab := Some t'\<rparr>)"
proof -
  obtain t' where t': "pr_table_kget (Some t) (Some (c_str (a, n))) (str_keysz (a, n)) =
      Some (case str_vals t n of [] \<Rightarrow> Inl ENOENT | v # _ \<Rightarrow> Inr v, Some t')"
    using tk.kget_ok [of t "c_str (a, n)" "str_keysz (a, n)"] var_okD [OF ok] str_vals_at [OF ok] by auto
  have s: "slot_ok (str_vals t n)" using ok n by (simp add: var_ok_def)
  then show ?thesis
    using t t'
    by (auto simp: pr_var_get_def pr_table_get_def var_map_def slot_ok_iff)
qed

text \<open>Removing one.\<close>

lemma var_delete_ok:
  assumes ok: "var_ok t" and t: "var_tab st = Some t" and n: "NUL \<notin> set n"
  shows "\<exists>r t'. pr_var_delete st (Some (a, n)) = Some (r, st\<lparr>var_tab := Some t'\<rparr>) \<and>
           (r = Inr () \<longleftrightarrow> var_map st n \<noteq> None) \<and> var_ok t' \<and> same_conf t t' \<and> t_nents t' \<le> t_nents t \<and>
           (\<forall>m. NUL \<notin> set m \<longrightarrow> str_vals t' m = (if m = n then [] else str_vals t m))"
proof -
  obtain r t' where r: "pr_table_kremove (Some t) (Some (c_str (a, n))) (str_keysz (a, n)) = Some (r, Some t')"
    and res: "case str_vals t n of [] \<Rightarrow> \<exists>e. r = Inl e | v # _ \<Rightarrow> r = Inr v"
    and t': "tab_ok t'" "same_conf t t'" "fresh_lookup t'" "t_nents t' \<le> t_nents t"
    and vals: "\<And>key' sz'. tab_vals t' key' sz' =
       (if same_arg t (c_str (a, n)) (str_keysz (a, n)) key' sz' then tl (tab_vals t key' sz') else tab_vals t key' sz')"
    using tk.kremove_ok [of t "c_str (a, n)" "str_keysz (a, n)"] var_okD [OF ok] str_vals_at [OF ok, of a n]
    by (auto split: list.splits simp del: split_paired_All)
  have v: "str_vals t' m = (if m = n then [] else str_vals t m)" if m: "NUL \<notin> set m" for m
  proof -
    have "slot_ok (str_vals t m)" using ok m by (simp add: var_ok_def)
    then have tl: "tl (str_vals t m) = []" by (auto simp: slot_ok_iff)
    have "str_vals t' m = (if m = n then tl (str_vals t m) else str_vals t m)"
      using vals [of "c_str (0, m)" "str_keysz (0, m)"] same_name [OF ok n m, of a 0]
      unfolding str_vals_def by auto
    then show ?thesis using tl by (cases "m = n") simp_all
  qed
  have ok': "var_ok t'"
    using ok t' v by (auto simp: var_ok_def same_conf_def fresh_lookup_def slot_ok_iff)
  have s: "slot_ok (str_vals t n)" using ok n by (simp add: var_ok_def)
  have "r' = Inr () \<longleftrightarrow> var_map st n \<noteq> None"
    if "r' = (case r of Inl e \<Rightarrow> Inl e | Inr (v, _) \<Rightarrow> if v = None then Inl EINVAL else Inr ())" for r' :: "unit result"
    using that res s t by (auto simp: var_map_def slot_ok_iff)
  then show ?thesis
    using r t t' ok' v by (auto simp: pr_var_delete_def pr_table_remove_def)
qed

text \<open>Registering one.\<close>

lemma var_set_ok:
  assumes ok: "var_ok t" and t: "var_tab st = Some t" and room: "t_nents t < t_nmaxents t"
    and n: "NUL \<notin> set n" and args: "var_args_ok True (Some (a, n)) vtype (Some v) data datasz"
    and x: "mk_var desc vtype v data datasz = Some x" and sz: "0 < sizeof_var" and wt: "var_value x \<noteq> None"
  shows "\<exists>t'. pr_var_set sizeof_var new_addr st True (Some (a, n)) desc vtype (Some v) data datasz =
             Some (Inr (), st\<lparr>var_tab := Some t'\<rparr>) \<and> var_ok t' \<and>
           (\<forall>m. NUL \<notin> set m \<longrightarrow> var_map (st\<lparr>var_tab := Some t'\<rparr>) m = (if m = n then Some x else var_map st m))"
proof -
  obtain r t1 where d: "pr_var_delete st (Some (a, n)) = Some (r, st\<lparr>var_tab := Some t1\<rparr>)"
    and t1: "var_ok t1" "same_conf t t1" "t_nents t1 \<le> t_nents t"
    and v1: "\<And>m. NUL \<notin> set m \<Longrightarrow> str_vals t1 m = (if m = n then [] else str_vals t m)"
    using var_delete_ok [OF ok t n, of a] by auto
  let ?key = "c_str (a, n)" and ?sz = "str_keysz (a, n)"
  have room1: "t_nents t1 < t_nmaxents t1" using room t1 by (simp add: same_conf_def)
  have none: "tab_vals t1 ?key ?sz = []" using str_vals_at [OF t1(1)] v1 [OF n] by simp
  obtain t' where t': "pr_table_kadd (Some t1) (Some ?key) ?sz (Some (new_addr, x)) sizeof_var = Some (Inr (), Some t')"
    "tab_ok t'" "same_conf t1 t'" "same_saved t1 t'"
    and vals: "\<And>key' sz'. tab_vals t' key' sz' = tab_vals t1 key' sz' @
       (if same_arg t1 ?key ?sz key' sz' then [(Some (new_addr, x), sizeof_var)] else [])"
    using tk.kadd_ok [of t1 sizeof_var "Some (new_addr, x)" ?key ?sz] var_okD [OF t1(1)] room1 none
    by (auto simp del: split_paired_All)
  have v': "str_vals t' m = (if m = n then [(Some (new_addr, x), sizeof_var)] else str_vals t m)"
    if m: "NUL \<notin> set m" for m
    using vals [of "c_str (0, m)" "str_keysz (0, m)"] same_name [OF t1(1) n m, of a 0] v1 [OF m]
    unfolding str_vals_def by auto
  have ok': "var_ok t'"
    using t1 t' ok v' wt by (auto simp: var_ok_def same_conf_def same_saved_def slot_ok_iff)
  have "pr_var_set sizeof_var new_addr st True (Some (a, n)) desc vtype (Some v) data datasz =
      Some (Inr (), st\<lparr>var_tab := Some t'\<rparr>)"
    using t args x d t'(1) sz by (simp add: pr_var_set_def pr_table_add_def value_size_def)
  then show ?thesis using ok' v' t by (auto simp: var_map_def)
qed

lemma mk_var_value:
  "mk_var desc vtype v data datasz = Some x \<Longrightarrow> var_args_ok p name vtype (Some v) data datasz \<Longrightarrow>
   (vtype = PR_VAR_TYPE_STR \<Longrightarrow> \<exists>s. v = ValStr s) \<Longrightarrow> (vtype = PR_VAR_TYPE_FUNC \<Longrightarrow> \<exists>f. v = ValFunc f) \<Longrightarrow>
   var_value x = Some (Inr (case v of ValStr s \<Rightarrow> s | ValFunc f \<Rightarrow> f data datasz))"
  by (auto simp: mk_var_def var_value_def var_args_ok_def split: option.splits if_splits)

section \<open>Properties\<close>


lemma var_ok_init:
  assumes "pr_table_alloc True 0 seed = Inr t"
  shows "var_ok t" "t_nents t = 0" "t_nmaxents t = 8192"
proof -
  have a: "pr_table_nalloc True 0 PR_TABLE_DEFAULT_NCHAINS seed = Inr t"
    using assms by (simp add: pr_table_alloc_def)
  note ok = tab_ok_nalloc [OF a]
  have f: "t_flags t = 0" "t_keyhash t = key_hash" "t_nmaxents t = 8192"
    using a by (auto simp: pr_table_nalloc_def)
  have "str_vals t n = []" for n
    using tk.nents_0_vals [of t] ok by (simp add: str_vals_def)
  then show "var_ok t" using ok f by (simp add: var_ok_def slot_ok_def fresh_lookup_def)
  show "t_nents t = 0" "t_nmaxents t = 8192" using ok f by auto
qed


end
