(* ===== verification/Timers.thy ===== *)
theory Timers
  imports Sets
begin

text \<open>
  The timer system of \<open>src/timers.c\<close>: timers on a list sorted by remaining time, driven by \<open>alarm\<close> and
  \<open>SIGALRM\<close>. The three sets of the file are lists of timers here, with the list-level operations the
  theory of sets proves of the pointer code; a timer has the address \<open>tm_id\<close>, by which sets remove it.
  Callbacks belong to the modules: a callback is a function of its arguments that gives its return value
  and the calls of the timer interface it makes. \<open>time(NULL)\<close> reads an arbitrary clock. \<open>None\<close> as an
  outcome is a dereference of \<open>NULL\<close> or of a pointer that was never written.

  The pointer code of the sets and the lists part in one place, which the model keeps. \<open>xaset_insert\<close> does
  not write the \<open>prev\<close> field of the member it puts in front, and a timer that comes from \<open>palloc\<close> holds
  there whatever the memory held. \<open>ts_unwritten\<close> says of which blocks \<open>prev\<close> is a value other than \<open>NULL\<close>
  that no code has written: a member behind the first gets its \<open>prev\<close> from the insertion in front of
  it, \<open>xaset_insert_sort\<close> writes that of the new member, and \<open>xaset_remove\<close> clears it. Taking a timer whose
  \<open>prev\<close> is unwritten off a set writes through that value, which is a fault. A timer on the main or the
  free list has a written \<open>prev\<close> (\<open>pool_ok\<close> in the theory of the laws), so the test stands only where
  timers are taken off the recycled list.
\<close>

section \<open>Data\<close>

text \<open>A module pointer, with the value \<open>ANY_MODULE\<close>.\<close>

datatype modptr = NoModule | AnyModule | ModuleAt nat

datatype callback_t =
    Callback "int \<Rightarrow> int \<Rightarrow> int \<Rightarrow> modptr \<Rightarrow> int \<times> timer_call list"
and timer_call =
    CallAdd int int modptr "callback_t option" "string option"
  | CallRemove int modptr
  | CallReset int modptr

fun run_callback :: "callback_t \<Rightarrow> int \<Rightarrow> int \<Rightarrow> int \<Rightarrow> modptr \<Rightarrow> int \<times> timer_call list" where
  "run_callback (Callback f) = f"

record timer =
  tm_id :: nat
  tm_count :: int
  tm_interval :: int
  tm_no :: int
  tm_mod :: modptr
  tm_callback :: callback_t
  tm_remove :: "8 word"
  tm_desc :: string

text \<open>The static variables of the file; \<open>ts_alarm\<close> is the argument of the last \<open>alarm\<close>, \<open>ts_clock\<close> and
  \<open>ts_reads\<close> give the results of \<open>time(NULL)\<close>, \<open>ts_next\<close> the next block of the timer pool, \<open>ts_fired\<close>
  logs the callbacks that have been invoked, and \<open>ts_unwritten\<close> is explained above. The field \<open>count\<close> of a
  timer is a \<open>long\<close>, and the theory keeps it an integer: it starts as an \<open>int\<close> and changes by an \<open>int\<close> in
  each pass, so it would take two to the 32 passes to leave the range.\<close>

record tstate =
  ts_timers :: "timer list option"
  ts_recycled :: "timer list option"
  ts_free :: "timer list option"
  ts_indispatch :: nat
  ts_dynamic :: int
  ts_nalarms :: nat
  ts_blocked :: int
  ts_pending :: nat
  ts_current :: int
  ts_total :: int
  ts_alarmed :: int
  ts_alarm :: int
  ts_clock :: "nat \<Rightarrow> int"
  ts_reads :: nat
  ts_next :: nat
  ts_fired :: "timer list"
  ts_sigflag :: bool
  ts_unwritten :: "nat \<Rightarrow> bool"

abbreviation PR_TIMER_DYNAMIC_TIMERNO :: int where "PR_TIMER_DYNAMIC_TIMERNO \<equiv> 1024"

definition timer_cmp :: "timer \<Rightarrow> timer \<Rightarrow> int" where
  "timer_cmp t1 t2 =
     (if tm_count t1 < tm_count t2 then -1 else if tm_count t1 > tm_count t2 then 1 else 0)"

section \<open>The sets of timers\<close>

definition drop_timer :: "nat \<Rightarrow> timer list \<Rightarrow> timer list" where
  "drop_timer i = filter (\<lambda>t. tm_id t \<noteq> i)"

definition find_timer :: "nat \<Rightarrow> timer list \<Rightarrow> timer option" where
  "find_timer i ts = find (\<lambda>t. tm_id t = i) ts"

definition upd_timer :: "nat \<Rightarrow> (timer \<Rightarrow> timer) \<Rightarrow> timer list \<Rightarrow> timer list" where
  "upd_timer i f = map (\<lambda>t. if tm_id t = i then f t else t)"

text \<open>\<open>xaset_insert\<close> into a set that may be \<open>NULL\<close>: it fails then, and the timer is lost.\<close>

definition put_front :: "timer \<Rightarrow> timer list option \<Rightarrow> timer list option" where
  "put_front t = map_option (\<lambda>ts. t # ts)"

definition put_sorted :: "timer \<Rightarrow> timer list option \<Rightarrow> timer list option" where
  "put_sorted t = map_option (xs_insert_sort timer_cmp True t)"

text \<open>The insertions with the \<open>prev\<close> fields they write: that of the member that was first, and that of the
  member that is inserted, respectively.\<close>

definition written :: "timer list \<Rightarrow> (nat \<Rightarrow> bool) \<Rightarrow> nat \<Rightarrow> bool" where
  "written ts w = (case ts of [] \<Rightarrow> w | t # _ \<Rightarrow> w(tm_id t := False))"

definition insert_recycled :: "timer \<Rightarrow> tstate \<Rightarrow> tstate" where
  "insert_recycled t st =
     (case ts_recycled st of
        None \<Rightarrow> st
      | Some ts \<Rightarrow> st\<lparr>ts_recycled := Some (t # ts), ts_unwritten := written ts (ts_unwritten st)\<rparr>)"

definition insert_timers :: "timer \<Rightarrow> tstate \<Rightarrow> tstate" where
  "insert_timers t st =
     (case ts_timers st of
        None \<Rightarrow> st
      | Some ts \<Rightarrow> st\<lparr>ts_timers := put_sorted t (Some ts), ts_unwritten := (ts_unwritten st)(tm_id t := False)\<rparr>)"

text \<open>\<open>if (!set) set = xaset_create(...)\<close>.\<close>

definition ensure_set :: "timer list option \<Rightarrow> timer list option" where
  "ensure_set s = (case s of None \<Rightarrow> Some [] | Some ts \<Rightarrow> Some ts)"

definition head_count :: "timer list \<Rightarrow> int" where
  "head_count ts = (case ts of [] \<Rightarrow> 0 | t # _ \<Rightarrow> tm_count t)"

text \<open>A \<open>long\<close> or a \<open>time_t\<close> that becomes an \<open>int\<close> keeps its low 32 bits, and sums of \<open>int\<close>s wrap around.\<close>

definition c_int :: "int \<Rightarrow> int" where
  "c_int n = sint (word_of_int n :: 32 word)"

definition time_null :: "tstate \<Rightarrow> int \<times> tstate" where
  "time_null st = (ts_clock st (ts_reads st), st\<lparr>ts_reads := Suc (ts_reads st)\<rparr>)"

definition pr_alarms_block :: "tstate \<Rightarrow> tstate" where
  "pr_alarms_block st = st\<lparr>ts_blocked := ts_blocked st + 1\<rparr>"

section \<open>The interface as a callback uses it\<close>

text \<open>Inside a dispatch the alarms are blocked, so that none of these calls reaches \<open>handle_alarm\<close>. The
  part of \<open>pr_timer_add\<close> before its test of \<open>_indispatch\<close>: the checks, and the new timer (from the free
  list when it has one) with the alarms blocked. The dynamic number is an \<open>int\<close>, which wraps.\<close>

definition timerno_in_use :: "int \<Rightarrow> timer list \<Rightarrow> bool" where
  "timerno_in_use no ts \<longleftrightarrow> 0 \<le> no \<and> (\<exists>t \<in> set ts. tm_no t = no)"

definition take_timerno :: "int \<Rightarrow> tstate \<Rightarrow> int \<times> tstate" where
  "take_timerno no st =
     (if no < 0 then
        (let d = (if ts_dynamic st < PR_TIMER_DYNAMIC_TIMERNO then PR_TIMER_DYNAMIC_TIMERNO else ts_dynamic st)
         in (d, st\<lparr>ts_dynamic := c_int (d + 1)\<rparr>))
      else (no, st))"

definition take_block :: "tstate \<Rightarrow> nat \<times> tstate" where
  "take_block st =
     (case ts_free st of
        Some (t # ts) \<Rightarrow> (tm_id t, st\<lparr>ts_free := Some ts\<rparr>)
      | _ \<Rightarrow> (ts_next st, st\<lparr>ts_next := Suc (ts_next st)\<rparr>))"

definition timer_add_prep ::
  "int \<Rightarrow> int \<Rightarrow> modptr \<Rightarrow> callback_t option \<Rightarrow> string option \<Rightarrow> tstate \<Rightarrow> timer result \<times> tstate" where
  "timer_add_prep seconds timerno md cb desc st =
     (case (cb, desc) of
        (Some c, Some d) \<Rightarrow>
          (if seconds \<le> 0 then (Inl EINVAL, st)
           else
             (let st1 = st\<lparr>ts_timers := ensure_set (ts_timers st)\<rparr> in
              if timerno_in_use timerno (the (ts_timers st1)) then (Inl EPERM, st1)
              else
                (let st2 = pr_alarms_block (st1\<lparr>ts_free := ensure_set (ts_free st1)\<rparr>);
                     (i, st3) = take_block st2;
                     (no, st4) = take_timerno timerno st3
                 in (Inr \<lparr>tm_id = i, tm_count = seconds, tm_interval = seconds, tm_no = no, tm_mod = md,
                           tm_callback = c, tm_remove = 0, tm_desc = d\<rparr>, st4))))
      | _ \<Rightarrow> (Inl EINVAL, st))"

definition recycle :: "timer \<Rightarrow> tstate \<Rightarrow> tstate" where
  "recycle t st = insert_recycled t (st\<lparr>ts_recycled := ensure_set (ts_recycled st)\<rparr>)"

definition dispatch_add ::
  "int \<Rightarrow> int \<Rightarrow> modptr \<Rightarrow> callback_t option \<Rightarrow> string option \<Rightarrow> tstate \<Rightarrow> tstate" where
  "dispatch_add seconds timerno md cb desc st =
     (case timer_add_prep seconds timerno md cb desc st of
        (Inl _, st1) \<Rightarrow> st1
      | (Inr t, st1) \<Rightarrow> (recycle t st1)\<lparr>ts_blocked := ts_blocked st1 - 1\<rparr>)"

definition timer_matches :: "int \<Rightarrow> modptr \<Rightarrow> timer \<Rightarrow> bool" where
  "timer_matches timerno md t \<longleftrightarrow>
     (timerno < 0 \<or> tm_no t = timerno) \<and> (md = AnyModule \<or> tm_mod t = md)"

text \<open>\<open>pr_timer_remove\<close> during a dispatch marks the timers: all that match, or the first one when a number
  is given.\<close>

fun mark_timers :: "int \<Rightarrow> modptr \<Rightarrow> timer list \<Rightarrow> timer list" where
  "mark_timers timerno md [] = []"
| "mark_timers timerno md (t # ts) =
     (if timer_matches timerno md t then
        (t\<lparr>tm_remove := tm_remove t + 1\<rparr>) # (if 0 \<le> timerno then ts else mark_timers timerno md ts)
      else t # mark_timers timerno md ts)"

definition dispatch_call :: "timer_call \<Rightarrow> tstate \<Rightarrow> tstate" where
  "dispatch_call c st =
     (case c of
        CallAdd seconds timerno md cb desc \<Rightarrow> dispatch_add seconds timerno md cb desc st
      | CallRemove timerno md \<Rightarrow> st\<lparr>ts_timers := map_option (mark_timers timerno md) (ts_timers st)\<rparr>
      | CallReset _ _ \<Rightarrow> st)"

section \<open>Processing\<close>

text \<open>One timer of the walk of \<open>process_timers\<close>: it is freed when it is marked, its time goes down
  otherwise, and when that has elapsed its callback runs, after which it is freed or recycled.\<close>

definition fire :: "timer \<Rightarrow> tstate \<Rightarrow> tstate" where
  "fire t st =
     (let (ret, calls) = run_callback (tm_callback t) (tm_interval t) (tm_no t)
                           (tm_interval t - tm_count t) (tm_mod t);
          st1 = fold dispatch_call calls (st\<lparr>ts_fired := ts_fired st @ [t]\<rparr>);
          t1 = (case find_timer (tm_id t) (the (ts_timers st1)) of Some t' \<Rightarrow> t' | None \<Rightarrow> t);
          st2 = st1\<lparr>ts_timers := map_option (drop_timer (tm_id t)) (ts_timers st1)\<rparr>
      in if ret = 0 then st2\<lparr>ts_free := put_front t1 (ts_free st2)\<rparr>
         else insert_recycled (t1\<lparr>tm_count := tm_interval t1\<rparr>) st2)"

definition process_one :: "int \<Rightarrow> nat \<Rightarrow> tstate \<Rightarrow> tstate" where
  "process_one elapsed i st =
     (case find_timer i (the (ts_timers st)) of
        None \<Rightarrow> st
      | Some t \<Rightarrow>
          (if tm_remove t \<noteq> 0 then
             st\<lparr>ts_timers := map_option (drop_timer i) (ts_timers st), ts_free := put_front t (ts_free st)\<rparr>
           else
             (let t1 = t\<lparr>tm_count := tm_count t - elapsed\<rparr>;
                  st1 = st\<lparr>ts_timers := map_option (upd_timer i (\<lambda>_. t1)) (ts_timers st)\<rparr>
              in if tm_count t1 \<le> 0 then fire t1 st1 else st1)))"

text \<open>No call of a callback changes which timers are on the list, so the walk visits the timers that were
  on it at the start.\<close>

definition process_walk :: "int \<Rightarrow> timer list \<Rightarrow> tstate \<Rightarrow> tstate" where
  "process_walk elapsed ts = fold (process_one elapsed) (map tm_id ts)"

text \<open>Putting the recycled timers back, the first one of the recycled list at a time: \<open>xaset_remove\<close>
  follows its \<open>prev\<close>, and hands the \<open>NULL\<close> it holds on to the next one.\<close>

fun restore_recycled :: "timer list \<Rightarrow> tstate \<Rightarrow> tstate option" where
  "restore_recycled [] st = Some st"
| "restore_recycled (t # rs) st =
     (if ts_unwritten st (tm_id t) then None
      else restore_recycled rs
        (insert_timers t (st\<lparr>ts_recycled := Some rs, ts_unwritten := written rs (ts_unwritten st)\<rparr>)))"

text \<open>\<open>process_timers\<close> up to its \<open>pr_alarms_unblock\<close>: \<open>Inl\<close> is an early return with its value.\<close>

definition process_timers_body :: "int \<Rightarrow> tstate \<Rightarrow> ((int + unit) \<times> tstate) option" where
  "process_timers_body elapsed st =
     (let st1 = st\<lparr>ts_recycled := ensure_set (ts_recycled st)\<rparr> in
      if elapsed = 0 \<and> ts_recycled st1 = Some [] then
        Some (Inl (case ts_timers st1 of None \<Rightarrow> 0 | Some ts \<Rightarrow> c_int (head_count ts)), st1)
      else if ts_indispatch st1 \<noteq> 0 then Some (Inl 0, st1)
      else
        (let st2 = (pr_alarms_block st1)\<lparr>ts_indispatch := ts_indispatch st1 + 1\<rparr> in
         case (if elapsed = 0 then Some st2 else
                 map_option (\<lambda>ts. process_walk elapsed ts st2) (ts_timers st2)) of
           None \<Rightarrow> None
         | Some st3 \<Rightarrow>
             map_option (\<lambda>st4. (Inr (), st4\<lparr>ts_indispatch := ts_indispatch st4 - 1\<rparr>))
               (restore_recycled (the (ts_recycled st3)) st3)))"

text \<open>\<open>handle_alarm\<close>, with the call of \<open>process_timers\<close> and that one's final \<open>pr_alarms_unblock\<close>, which may
  call \<open>handle_alarm\<close> again, written out.\<close>

definition handle_elapsed :: "tstate \<Rightarrow> int \<times> tstate" where
  "handle_elapsed st =
     (let (now, st1) = (if ts_alarmed st = 0 then (0, st) else time_null st);
          alarm_elapsed = (if ts_alarmed st = 0 then 0 else c_int (c_int now - ts_alarmed st))
      in (c_int (ts_total st + alarm_elapsed), st1\<lparr>ts_alarm := 0, ts_total := 0\<rparr>))"

definition set_next_alarm :: "int \<Rightarrow> tstate \<Rightarrow> tstate" where
  "set_next_alarm new_timeout st =
     (let (now, st1) = time_null st
      in st1\<lparr>ts_alarmed := now, ts_current := new_timeout, ts_alarm := new_timeout\<rparr>)"

definition timers_head :: "tstate \<Rightarrow> int option" where
  "timers_head st = map_option (\<lambda>ts. c_int (head_count ts)) (ts_timers st)"

partial_function (option) handle_alarm :: "tstate \<Rightarrow> tstate option" where
  "handle_alarm st =
     (if ts_nalarms st = 0 then Some st
      else if ts_blocked st = 0 then
        (case process_timers_body (fst (handle_elapsed (st\<lparr>ts_nalarms := 0\<rparr>)))
                (snd (handle_elapsed (st\<lparr>ts_nalarms := 0\<rparr>))) of
           None \<Rightarrow> None
         | Some (Inl r, st1) \<Rightarrow> handle_alarm (set_next_alarm r st1)
         | Some (Inr _, st1) \<Rightarrow>
             Option.bind
               (if ts_blocked st1 = 1 \<and> ts_pending st1 \<noteq> 0
                then handle_alarm (st1\<lparr>ts_blocked := 0, ts_pending := 0, ts_nalarms := ts_nalarms st1 + 1\<rparr>)
                else Some (st1\<lparr>ts_blocked := ts_blocked st1 - 1\<rparr>))
               (\<lambda>st2. Option.bind (timers_head st2) (\<lambda>r. handle_alarm (set_next_alarm r st2))))
      else handle_alarm (st\<lparr>ts_nalarms := 0, ts_pending := ts_pending st + 1\<rparr>))"

definition pr_alarms_unblock :: "tstate \<Rightarrow> tstate option" where
  "pr_alarms_unblock st =
     (let st1 = st\<lparr>ts_blocked := ts_blocked st - 1\<rparr> in
      if ts_blocked st1 = 0 \<and> ts_pending st1 \<noteq> 0
      then handle_alarm (st1\<lparr>ts_pending := 0, ts_nalarms := ts_nalarms st1 + 1\<rparr>)
      else Some st1)"

definition process_timers :: "int \<Rightarrow> tstate \<Rightarrow> (int \<times> tstate) option" where
  "process_timers elapsed st =
     (case process_timers_body elapsed st of
        None \<Rightarrow> None
      | Some (Inl r, st1) \<Rightarrow> Some (r, st1)
      | Some (Inr _, st1) \<Rightarrow>
          Option.bind (pr_alarms_unblock st1) (\<lambda>st2. map_option (\<lambda>r. (r, st2)) (timers_head st2)))"

definition sig_alarm :: "tstate \<Rightarrow> tstate" where
  "sig_alarm st =
     (let st1 = st\<lparr>ts_sigflag := True, ts_nalarms := ts_nalarms st + 1,
                   ts_total := c_int (ts_total st + ts_current st)\<rparr>
      in if ts_current st1 \<noteq> 0
         then (let (now, st2) = time_null st1 in st2\<lparr>ts_alarmed := now, ts_alarm := ts_current st2\<rparr>)
         else st1)"

section \<open>The interface\<close>

definition pr_timer_reset :: "int \<Rightarrow> modptr \<Rightarrow> tstate \<Rightarrow> (int result \<times> tstate) option" where
  "pr_timer_reset timerno md st =
     (case ts_timers st of
        None \<Rightarrow> Some (Inl EPERM, st)
      | Some ts \<Rightarrow>
          (if ts_indispatch st \<noteq> 0 then Some (Inl EINTR, st)
           else
             (let st1 = (pr_alarms_block st)\<lparr>ts_recycled := ensure_set (ts_recycled st)\<rparr> in
              case find (\<lambda>t. tm_no t = timerno \<and> (tm_mod t = md \<or> md = AnyModule)) ts of
                None \<Rightarrow> map_option (\<lambda>st2. (Inr 0, st2)) (pr_alarms_unblock st1)
              | Some t \<Rightarrow>
                  Option.bind
                    (handle_alarm ((insert_recycled (t\<lparr>tm_count := tm_interval t\<rparr>)
                       (st1\<lparr>ts_timers := Some (drop_timer (tm_id t) ts)\<rparr>))\<lparr>ts_nalarms := ts_nalarms st1 + 1\<rparr>))
                    (\<lambda>st2. map_option (\<lambda>st3. (Inr (tm_no t), st3)) (pr_alarms_unblock st2)))))"

text \<open>The loop of \<open>pr_timer_remove\<close> outside a dispatch, over the timers of the list, counting.\<close>

fun remove_loop :: "int \<Rightarrow> modptr \<Rightarrow> timer list \<Rightarrow> nat \<Rightarrow> tstate \<Rightarrow> (nat \<times> tstate) option" where
  "remove_loop timerno md [] n st = Some (n, st)"
| "remove_loop timerno md (t # ts) n st =
     (if timer_matches timerno md t then
        Option.bind
          (handle_alarm (st\<lparr>ts_timers := map_option (drop_timer (tm_id t)) (ts_timers st),
                            ts_free := put_front t (ts_free st), ts_nalarms := ts_nalarms st + 1\<rparr>))
          (\<lambda>st1. if 0 \<le> timerno then Some (n + 1, st1) else remove_loop timerno md ts (n + 1) st1)
      else remove_loop timerno md ts n st)"

definition remove_result :: "int \<Rightarrow> nat \<Rightarrow> int result" where
  "remove_result timerno n =
     (if n = 0 then Inl ENOENT else if 0 \<le> timerno then Inr timerno else Inr (int n))"

definition pr_timer_remove :: "int \<Rightarrow> modptr \<Rightarrow> tstate \<Rightarrow> (int result \<times> tstate) option" where
  "pr_timer_remove timerno md st =
     (case ts_timers st of
        None \<Rightarrow> Some (Inr 0, st)
      | Some ts \<Rightarrow>
          Option.bind
            (if ts_indispatch st \<noteq> 0 then
               Some (min (length (filter (timer_matches timerno md) ts))
                         (if 0 \<le> timerno then 1 else length ts),
                     (pr_alarms_block st)\<lparr>ts_timers := Some (mark_timers timerno md ts)\<rparr>)
             else remove_loop timerno md ts 0 (pr_alarms_block st))
            (\<lambda>(n, st1). map_option (\<lambda>st2. (remove_result timerno n, st2)) (pr_alarms_unblock st1)))"

definition pr_timer_add ::
  "int \<Rightarrow> int \<Rightarrow> modptr \<Rightarrow> callback_t option \<Rightarrow> string option \<Rightarrow> tstate \<Rightarrow> (int result \<times> tstate) option" where
  "pr_timer_add seconds timerno md cb desc st =
     (case timer_add_prep seconds timerno md cb desc st of
        (Inl e, st1) \<Rightarrow> Some (Inl e, st1)
      | (Inr t, st1) \<Rightarrow>
          Option.bind
            (if ts_indispatch st1 \<noteq> 0 then Some (recycle t st1)
             else handle_alarm ((insert_timers t st1)\<lparr>ts_nalarms := ts_nalarms st1 + 1\<rparr>))
            (\<lambda>st2. map_option (\<lambda>st3. (Inr (tm_no t), st3)) (pr_alarms_unblock st2)))"

definition timers_init :: "tstate \<Rightarrow> tstate" where
  "timers_init st =
     st\<lparr>ts_current := 0, ts_total := 0, ts_nalarms := 0, ts_alarmed := 0,
        ts_dynamic := PR_TIMER_DYNAMIC_TIMERNO, ts_timers := None, ts_recycled := None, ts_free := None\<rparr>"

end
