(* ===== verification/Timer_Laws.thy ===== *)
theory Timer_Laws
  imports Timers "HOL-Library.Multiset"
begin

text \<open>
  The timer system keeps its list of timers sorted and loses none: the contract of sorted sets is
  interpreted on the comparison of timers, one pass of \<open>process_timers\<close> is related to the list it starts
  from, and the invariant is carried through every call of the interface.
\<close>

section \<open>The order of the timer list\<close>

interpretation torder: xaset_order timer_cmp
  by unfold_locales (auto simp: timer_cmp_def split: if_splits)

lemma timer_cmp_le [simp]: "timer_cmp a b \<le> 0 \<longleftrightarrow> tm_count a \<le> tm_count b"
  by (simp add: timer_cmp_def)

abbreviation by_count :: "timer list \<Rightarrow> bool" where
  "by_count ts \<equiv> sorted (map tm_count ts)"

lemma by_count_in_order: "by_count ts \<longleftrightarrow> torder.in_order ts"
  by (simp add: sorted_map)

lemma mset_insert_sort [simp]: "mset (xs_insert_sort cmp True t ts) = add_mset t (mset ts)"
  by (induction ts) auto

lemma head_count_least: "by_count ts \<Longrightarrow> t \<in> set ts \<Longrightarrow> head_count ts \<le> tm_count t"
  by (cases ts) (auto simp: head_count_def)

section \<open>Well-formed sets of timers\<close>

definition opt_list :: "'a list option \<Rightarrow> 'a list" where
  "opt_list s = (case s of None \<Rightarrow> [] | Some ts \<Rightarrow> ts)"

lemma opt_list_simps [simp]:
  "opt_list None = []" "opt_list (Some ts) = ts" "opt_list (ensure_set s) = opt_list s"
  "ensure_set s \<noteq> None" "ensure_set (Some ts) = Some ts" "opt_list (put_front t (ensure_set s)) = t # opt_list s"
  "put_front t (Some ts) = Some (t # ts)"
  by (simp_all add: opt_list_def ensure_set_def put_front_def split: option.splits)

definition all_timers :: "tstate \<Rightarrow> timer list" where
  "all_timers st = opt_list (ts_timers st) @ opt_list (ts_recycled st) @ opt_list (ts_free st)"

text \<open>No timer is in two places, every one has a block of the pool, what may run again has a positive time,
  and no timer but the first of the recycled ones has an unwritten \<open>prev\<close>.\<close>

definition pool_ok :: "tstate \<Rightarrow> bool" where
  "pool_ok st \<longleftrightarrow> distinct (map tm_id (all_timers st)) \<and> (\<forall>i \<in> set (map tm_id (all_timers st)). i < ts_next st) \<and>
     (\<forall>n \<in> set (map tm_interval (opt_list (ts_timers st))). 0 < n) \<and>
     (\<forall>t \<in> set (opt_list (ts_recycled st)). 0 < tm_interval t \<and> 0 < tm_count t) \<and>
     (\<forall>i \<in> set (map tm_id (opt_list (ts_timers st) @ tl (opt_list (ts_recycled st)) @ opt_list (ts_free st))).
        \<not> ts_unwritten st i)"

text \<open>The first of the recycled timers too.\<close>

definition recycled_written :: "tstate \<Rightarrow> bool" where
  "recycled_written st \<longleftrightarrow> (\<forall>t \<in> set (opt_list (ts_recycled st)). \<not> ts_unwritten st (tm_id t))"

lemma written_le: "written ts w i \<Longrightarrow> w i"
  by (auto simp: written_def split: list.splits if_splits)

lemma written_hd: "t \<in> set ts \<Longrightarrow> (\<forall>i \<in> tm_id ` set (tl ts). \<not> w i) \<Longrightarrow> \<not> written ts w (tm_id t)"
  by (cases ts) (auto simp: written_def)

text \<open>No \<open>prev\<close> field becomes unwritten.\<close>

definition less_unwritten :: "tstate \<Rightarrow> tstate \<Rightarrow> bool" where
  "less_unwritten st st' \<longleftrightarrow> (\<forall>i. ts_unwritten st' i \<longrightarrow> ts_unwritten st i)"

lemma less_unwritten_trans: "less_unwritten a b \<Longrightarrow> less_unwritten b c \<Longrightarrow> less_unwritten a c"
  by (simp add: less_unwritten_def)

lemma insert_recycled_Some:
  "ts_recycled st = Some rs \<Longrightarrow> insert_recycled t st = st\<lparr>ts_recycled := Some (t # rs), ts_unwritten := written rs (ts_unwritten st)\<rparr>"
  by (simp add: insert_recycled_def)

lemma insert_timers_Some:
  "ts_timers st = Some ts \<Longrightarrow> insert_timers t st =
     st\<lparr>ts_timers := Some (xs_insert_sort timer_cmp True t ts), ts_unwritten := (ts_unwritten st)(tm_id t := False)\<rparr>"
  by (simp add: insert_timers_def put_sorted_def)

lemma recycle_eq:
  "recycle t st = st\<lparr>ts_recycled := Some (t # opt_list (ts_recycled st)),
     ts_unwritten := written (opt_list (ts_recycled st)) (ts_unwritten st)\<rparr>"
  by (simp add: recycle_def insert_recycled_def ensure_set_def opt_list_def split: option.split)

definition same_env :: "tstate \<Rightarrow> tstate \<Rightarrow> bool" where
  "same_env st st' \<longleftrightarrow> ts_indispatch st' = ts_indispatch st \<and> ts_nalarms st' = ts_nalarms st \<and>
     ts_blocked st' = ts_blocked st \<and> ts_pending st' = ts_pending st"

definition unflag :: "timer \<Rightarrow> timer" where "unflag t = t\<lparr>tm_remove := 0\<rparr>"

text \<open>Two lists of timers that are equal, up to the marks for removal unless \<open>q\<close> holds.\<close>

definition sim :: "bool \<Rightarrow> timer list \<Rightarrow> timer list \<Rightarrow> bool" where
  "sim q xs ys \<longleftrightarrow> (if q then xs = ys else map unflag xs = map unflag ys)"

lemma sim_refl [simp]: "sim q xs xs" by (simp add: sim_def)

lemma sim_trans: "sim q xs ys \<Longrightarrow> sim q ys zs \<Longrightarrow> sim q xs zs"
  by (simp add: sim_def split: if_splits)

lemma unflag_eq: "unflag a = unflag b \<Longrightarrow>
    tm_id a = tm_id b \<and> tm_count a = tm_count b \<and> tm_interval a = tm_interval b \<and> tm_callback a = tm_callback b"
  by (cases a; cases b) (simp add: unflag_def)

lemma sim_list_all2: "sim q xs ys \<Longrightarrow> list_all2 (\<lambda>a b. unflag a = unflag b) xs ys"
  by (cases q) (auto simp: sim_def list_all2_same list_eq_iff_nth_eq list_all2_conv_all_nth)

lemma sim_fields:
  assumes "sim q xs ys"
  shows "map tm_id ys = map tm_id xs" "map tm_count ys = map tm_count xs" "map tm_interval ys = map tm_interval xs"
    "map tm_callback ys = map tm_callback xs"
  using sim_list_all2 [OF assms] by (induction rule: list_all2_induct) (auto dest!: unflag_eq)

lemma sim_append:
  assumes "sim q (as @ bs) ys"
  shows "\<exists>as' bs'. ys = as' @ bs' \<and> sim q as as' \<and> sim q bs bs'"
proof -
  let ?n = "length as"
  have "sim q as (take ?n ys) \<and> sim q bs (drop ?n ys)"
    using assms by (auto simp: sim_def append_eq_conv_conj take_map drop_map split: if_splits)
  then show ?thesis by (metis append_take_drop_id)
qed

definition quiet_call :: "timer_call \<Rightarrow> bool" where
  "quiet_call c = (case c of CallRemove _ _ \<Rightarrow> False | _ \<Rightarrow> True)"

text \<open>A callback that removes no timer.\<close>

definition quiet :: "callback_t \<Rightarrow> bool" where
  "quiet cb \<longleftrightarrow> (\<forall>a b c m. \<forall>x \<in> set (snd (run_callback cb a b c m)). quiet_call x)"

definition add_call :: "timer_call \<Rightarrow> bool" where
  "add_call c = (case c of CallAdd _ _ _ _ _ \<Rightarrow> True | _ \<Rightarrow> False)"

text \<open>A callback that adds no timer.\<close>

definition adds_none :: "callback_t \<Rightarrow> bool" where
  "adds_none cb \<longleftrightarrow> (\<forall>a b c m. \<forall>x \<in> set (snd (run_callback cb a b c m)). \<not> add_call x)"

section \<open>What the calls of a callback do\<close>

lemma mark_timers_sim: "sim False ts (mark_timers no md ts)"
  by (induction ts) (auto simp: sim_def unflag_def)

definition call_ok :: "bool \<Rightarrow> bool \<Rightarrow> tstate \<Rightarrow> tstate \<Rightarrow> bool" where
  "call_ok q n st st' \<longleftrightarrow> less_unwritten st st' \<and> (n \<longrightarrow> recycled_written st \<longrightarrow> recycled_written st') \<and> (\<exists>ts ts'. ts_timers st = Some ts \<and> ts_timers st' = Some ts' \<and> sim q ts ts') \<and>
     same_env st st' \<and> ts_fired st' = ts_fired st \<and> (ts_recycled st \<noteq> None \<longrightarrow> ts_recycled st' \<noteq> None) \<and>
     (pool_ok st \<longrightarrow> pool_ok st')"

lemma take_block_fields:
  assumes "take_block st = (i, st')"
  shows "ts_recycled st' = ts_recycled st" "ts_fired st' = ts_fired st" "ts_nalarms st' = ts_nalarms st"
    "ts_pending st' = ts_pending st" "ts_indispatch st' = ts_indispatch st" "ts_timers st' = ts_timers st"
    "ts_blocked st' = ts_blocked st" "ts_unwritten st' = ts_unwritten st"
  using assms by (auto simp: take_block_def split: option.splits list.splits)

lemma take_timerno_fields:
  assumes "take_timerno no st = (i, st')"
  shows "ts_recycled st' = ts_recycled st" "ts_fired st' = ts_fired st" "ts_nalarms st' = ts_nalarms st"
    "ts_pending st' = ts_pending st" "ts_indispatch st' = ts_indispatch st" "ts_timers st' = ts_timers st"
    "ts_blocked st' = ts_blocked st" "ts_free st' = ts_free st" "ts_next st' = ts_next st" "0 \<le> no \<Longrightarrow> i = no"
    "ts_unwritten st' = ts_unwritten st"
  using assms by (auto simp: take_timerno_def Let_def split: if_splits)

text \<open>The three outcomes of the first part of \<open>pr_timer_add\<close>.\<close>

lemma prep_cases:
  assumes "timer_add_prep seconds no md cb desc st = (r, st')"
  obtains (refused) "r = Inl EINVAL" "st' = st"
    | (used) "r = Inl EPERM" "st' = st\<lparr>ts_timers := ensure_set (ts_timers st)\<rparr>"
    | (new) i st2 n c d where "0 < seconds" "cb = Some c"
        "take_block (st\<lparr>ts_timers := ensure_set (ts_timers st), ts_free := ensure_set (ts_free st),
                         ts_blocked := ts_blocked st + 1\<rparr>) = (i, st2)"
        "take_timerno no st2 = (n, st')"
        "r = Inr \<lparr>tm_id = i, tm_count = seconds, tm_interval = seconds, tm_no = n, tm_mod = md,
                    tm_callback = c, tm_remove = 0, tm_desc = d\<rparr>"
proof (cases "\<exists>c d. cb = Some c \<and> desc = Some d \<and> 0 < seconds")
  case False
  then show thesis using assms refused by (auto simp: timer_add_prep_def split: option.splits if_splits)
next
  case True
  then obtain c d where cd: "cb = Some c" "desc = Some d" "0 < seconds" by blast
  obtain i st2 where b: "take_block (st\<lparr>ts_timers := ensure_set (ts_timers st), ts_free := ensure_set (ts_free st),
                         ts_blocked := ts_blocked st + 1\<rparr>) = (i, st2)" by fastforce
  obtain n st3 where n: "take_timerno no st2 = (n, st3)" by fastforce
  show thesis
  proof (cases "timerno_in_use no (the (ensure_set (ts_timers st)))")
    case True
    have "r = Inl EPERM \<and> st' = st\<lparr>ts_timers := ensure_set (ts_timers st)\<rparr>"
      using assms cd True by (simp add: timer_add_prep_def Let_def)
    then show thesis using used by blast
  next
    case False
    have "st' = st3 \<and> r = Inr \<lparr>tm_id = i, tm_count = seconds, tm_interval = seconds, tm_no = n, tm_mod = md,
                    tm_callback = c, tm_remove = 0, tm_desc = d\<rparr>"
      using assms cd False b n by (auto simp: timer_add_prep_def Let_def pr_alarms_block_def)
    then show thesis using new [OF cd(3,1) b] n by blast
  qed
qed

lemma prep_ok:
  assumes "timer_add_prep seconds no md cb desc st = (r, st')"
  shows "ts_recycled st' = ts_recycled st \<and> ts_fired st' = ts_fired st \<and> ts_unwritten st' = ts_unwritten st \<and> same_env (st\<lparr>ts_blocked := ts_blocked st'\<rparr>) st' \<and>
    opt_list (ts_timers st') = opt_list (ts_timers st) \<and>
    (ts_timers st \<noteq> None \<longrightarrow> ts_timers st' = ts_timers st) \<and>
    ts_blocked st' = ts_blocked st + (case r of Inl _ \<Rightarrow> 0 | Inr _ \<Rightarrow> 1) \<and>
    (\<forall>t. r = Inr t \<longrightarrow> 0 < tm_count t \<and> tm_interval t = tm_count t \<and> ts_timers st' \<noteq> None \<and>
       (0 \<le> no \<longrightarrow> tm_no t = no) \<and> tm_callback t = the cb \<and> tm_remove t = 0)"
  using assms
proof (cases rule: prep_cases)
  case (new i st2 n c d)
  show ?thesis
    using take_block_fields [OF new(3)] take_timerno_fields [OF new(4)] new(1,2,5) by (auto simp: same_env_def)
qed (auto simp: same_env_def)

lemma pool_fields:
  assumes "ts_timers st' = ts_timers st" and "ts_recycled st' = ts_recycled st" and "ts_free st' = ts_free st"
    and "ts_next st' = ts_next st" and "ts_unwritten st' = ts_unwritten st"
  shows "pool_ok st' = pool_ok st" "all_timers st' = all_timers st"
  using assms by (simp_all add: pool_ok_def all_timers_def)

lemma take_block_pool:
  assumes "pool_ok st" and "take_block st = (i, st')"
  shows "pool_ok st'" and "i < ts_next st'" and "i \<notin> tm_id ` set (all_timers st')"
proof -
  consider t ts where "ts_free st = Some (t # ts)" | "opt_list (ts_free st) = []"
    by (cases "opt_list (ts_free st)") (auto simp: opt_list_def split: option.splits)
  then have "pool_ok st' \<and> i < ts_next st' \<and> i \<notin> tm_id ` set (all_timers st')"
  proof cases
    case 1
    then have e: "i = tm_id t" "st' = st\<lparr>ts_free := Some ts\<rparr>" using assms(2) by (simp_all add: take_block_def)
    have "all_timers st = opt_list (ts_timers st) @ opt_list (ts_recycled st) @ t # ts"
      "all_timers st' = opt_list (ts_timers st) @ opt_list (ts_recycled st) @ ts"
      using 1 e by (simp_all add: all_timers_def)
    then show ?thesis using assms(1) e 1 by (simp add: pool_ok_def image_Un)
  next
    case 2
    with assms have "i = ts_next st" "st' = st\<lparr>ts_next := Suc (ts_next st)\<rparr>"
      by (auto simp: take_block_def opt_list_def split: option.splits)
    moreover have "\<forall>t \<in> set (all_timers st). tm_id t < ts_next st" using assms(1) by (simp add: pool_ok_def)
    moreover have "all_timers (st\<lparr>ts_next := Suc (ts_next st)\<rparr>) = all_timers st" by (simp add: all_timers_def)
    ultimately show ?thesis using assms(1) by (auto simp: pool_ok_def less_Suc_eq)
  qed
  then show "pool_ok st'" "i < ts_next st'" "i \<notin> tm_id ` set (all_timers st')" by auto
qed

lemma prep_pool:
  assumes "timer_add_prep seconds no md cb desc st = (r, st')" and ok: "pool_ok st"
  shows "pool_ok st' \<and> (\<forall>t. r = Inr t \<longrightarrow> tm_id t < ts_next st' \<and> tm_id t \<notin> tm_id ` set (all_timers st'))"
  using assms(1)
proof (cases rule: prep_cases)
  case refused
  then show ?thesis using ok by simp
next
  case used
  then show ?thesis using ok by (simp add: pool_ok_def all_timers_def)
next
  case (new i st2 n c d)
  let ?st = "st\<lparr>ts_timers := ensure_set (ts_timers st), ts_free := ensure_set (ts_free st),
                 ts_blocked := ts_blocked st + 1\<rparr>"
  have "pool_ok ?st" using ok by (simp add: pool_ok_def all_timers_def)
  note b = take_block_pool [OF this new(3)]
  note f = take_timerno_fields [OF new(4)]
  have "pool_ok st' = pool_ok st2" "all_timers st' = all_timers st2" "ts_next st' = ts_next st2"
    using f pool_fields [OF f(6,1,8,9,11)] by blast+
  then show ?thesis using b new(5) by simp
qed

lemma recycle_pool:
  assumes "pool_ok st" and "tm_id t < ts_next st" and "tm_id t \<notin> tm_id ` set (all_timers st)"
    and "0 < tm_count t" and "0 < tm_interval t"
  shows "pool_ok (recycle t st)"
  using assms written_hd [of _ "opt_list (ts_recycled st)" "ts_unwritten st"]
  by (auto simp: pool_ok_def all_timers_def recycle_eq image_Un dest: written_le)

lemma pool_blocked [simp]: "pool_ok (st\<lparr>ts_blocked := b\<rparr>) = pool_ok st" "pool_ok (st\<lparr>ts_fired := l\<rparr>) = pool_ok st"
    "pool_ok (st\<lparr>ts_indispatch := i\<rparr>) = pool_ok st" "pool_ok (st\<lparr>ts_nalarms := n\<rparr>) = pool_ok st"
    "pool_ok (st\<lparr>ts_pending := n\<rparr>) = pool_ok st"
  by (simp_all add: pool_ok_def all_timers_def)

lemma dispatch_add_ok:
  assumes ts: "ts_timers st = Some ts"
  shows "call_ok q False st (dispatch_add seconds no md cb desc st)"
proof -
  obtain r st1 where p: "timer_add_prep seconds no md cb desc st = (r, st1)" by fastforce
  note ok = prep_ok [OF p]
  have t1: "ts_timers st1 = Some ts" using ok ts by simp
  show ?thesis
  proof (cases r)
    case (Inl e)
    then show ?thesis
      using p ts t1 ok prep_pool [OF p] by (simp add: dispatch_add_def call_ok_def same_env_def less_unwritten_def)
  next
    case (Inr t)
    have "pool_ok (recycle t st1)" if "pool_ok st"
      using prep_pool [OF p that] ok Inr by (intro recycle_pool) auto
    then show ?thesis
      using p Inr ts t1 ok
      by (auto simp: dispatch_add_def call_ok_def same_env_def recycle_eq less_unwritten_def dest: written_le)
  qed
qed

lemma pool_sim:
  assumes "ts_timers st = Some ts" and "sim q ts ts'"
  shows "pool_ok (st\<lparr>ts_timers := Some ts'\<rparr>) = pool_ok st"
  using assms(1) sim_fields [OF assms(2)] by (simp add: pool_ok_def all_timers_def del: set_map)

lemma call_ok_one:
  assumes ts: "ts_timers st = Some ts" and q: "q \<longrightarrow> quiet_call c" and n: "n \<longrightarrow> \<not> add_call c"
  shows "call_ok q n st (dispatch_call c st)"
proof (cases c)
  case (CallRemove no md)
  then have "\<not> q" using q by (simp add: quiet_call_def)
  then show ?thesis
    using CallRemove ts mark_timers_sim [of ts no md] pool_sim [OF ts mark_timers_sim]
    by (simp add: dispatch_call_def call_ok_def same_env_def less_unwritten_def recycled_written_def)
next
  case (CallReset no md)
  then show ?thesis using ts by (simp add: dispatch_call_def call_ok_def same_env_def less_unwritten_def)
qed (use dispatch_add_ok [OF ts] n in \<open>simp add: dispatch_call_def add_call_def\<close>)

lemma call_ok_trans: "call_ok q n a b \<Longrightarrow> call_ok q n b c \<Longrightarrow> call_ok q n a c"
  by (auto simp: call_ok_def same_env_def dest: sim_trans less_unwritten_trans)

lemma call_ok_fold:
  "ts_timers st = Some ts \<Longrightarrow> q \<longrightarrow> (\<forall>c \<in> set calls. quiet_call c) \<Longrightarrow> n \<longrightarrow> (\<forall>c \<in> set calls. \<not> add_call c) \<Longrightarrow>
   call_ok q n st (fold dispatch_call calls st)"
proof (induction calls arbitrary: st ts)
  case Nil
  then show ?case by (simp add: call_ok_def same_env_def less_unwritten_def)
next
  case (Cons c calls)
  have one: "call_ok q n st (dispatch_call c st)" using Cons.prems by (intro call_ok_one) auto
  then obtain ts' where "ts_timers (dispatch_call c st) = Some ts'" by (auto simp: call_ok_def)
  with Cons.IH Cons.prems(2,3) one show ?case by (auto intro: call_ok_trans)
qed

section \<open>One pass over the timers\<close>

lemma at_id:
  assumes "distinct (map tm_id (vis @ t # todo))"
  shows "find_timer (tm_id t) (vis @ t # todo) = Some t" "drop_timer (tm_id t) (vis @ t # todo) = vis @ todo"
    "tm_id t1 = tm_id t \<Longrightarrow> upd_timer (tm_id t) (\<lambda>_. t1) (vis @ t # todo) = vis @ t1 # todo"
proof -
  have n: "\<forall>x \<in> set vis. tm_id x \<noteq> tm_id t" "\<forall>x \<in> set todo. tm_id x \<noteq> tm_id t"
    using assms by (auto simp: image_iff)
  show "find_timer (tm_id t) (vis @ t # todo) = Some t"
    using n(1) unfolding find_timer_def by (induction vis) auto
  show "drop_timer (tm_id t) (vis @ t # todo) = vis @ todo"
    using n by (simp add: drop_timer_def)
  show "upd_timer (tm_id t) (\<lambda>_. t1) (vis @ t # todo) = vis @ t1 # todo" if "tm_id t1 = tm_id t"
    using n by (simp add: upd_timer_def map_idI)
qed

lemma pool_distinct: "pool_ok st \<Longrightarrow> ts_timers st = Some ts \<Longrightarrow> distinct (map tm_id ts)"
  by (simp add: pool_ok_def all_timers_def)

text \<open>Moving a timer from the list to the free or to the recycled timers.\<close>

lemma pool_move:
  assumes "pool_ok st" and "ts_timers st = Some (vis @ t # todo)"
  shows "pool_ok (st\<lparr>ts_timers := Some (vis @ todo), ts_free := put_front t (ts_free st)\<rparr>)"
    "ts_recycled st = Some rs \<Longrightarrow>
       pool_ok (st\<lparr>ts_timers := Some (vis @ todo), ts_recycled := Some (t\<lparr>tm_count := tm_interval t\<rparr> # rs),
                   ts_unwritten := written rs (ts_unwritten st)\<rparr>)"
    "tm_id t1 = tm_id t \<Longrightarrow> tm_interval t1 = tm_interval t \<Longrightarrow> pool_ok (st\<lparr>ts_timers := Some (vis @ t1 # todo)\<rparr>)"
  using assms written_hd [of _ rs "ts_unwritten st"]
  by (cases "ts_free st"; auto simp: pool_ok_def all_timers_def put_front_def image_Un dest: written_le)+

definition elapse :: "int \<Rightarrow> timer \<Rightarrow> timer" where
  "elapse e t = t\<lparr>tm_count := tm_count t - e\<rparr>"

definition due :: "int \<Rightarrow> timer \<Rightarrow> bool" where
  "due e t \<longleftrightarrow> tm_remove t = 0 \<and> tm_count t \<le> e"

definition kept :: "int \<Rightarrow> timer \<Rightarrow> bool" where
  "kept e t \<longleftrightarrow> tm_remove t = 0 \<and> e < tm_count t"

definition pass_ok :: "bool \<Rightarrow> bool \<Rightarrow> tstate \<Rightarrow> tstate \<Rightarrow> timer list \<Rightarrow> timer list \<Rightarrow> timer list \<Rightarrow> bool" where
  "pass_ok q n st st' vis todo fd \<longleftrightarrow>
     less_unwritten st st' \<and> (n \<longrightarrow> recycled_written st \<longrightarrow> recycled_written st') \<and>
     (\<exists>vis' todo'. ts_timers st' = Some (vis' @ todo') \<and> sim q vis vis' \<and> sim q todo todo') \<and>
     ts_fired st' = ts_fired st @ fd \<and> pool_ok st' \<and> same_env st st' \<and> ts_recycled st' \<noteq> None"

lemma sim_Cons:
  assumes "sim q (t # xs) ys"
  obtains t' xs' where "ys = t' # xs'" "tm_id t' = tm_id t" "sim q xs xs'"
proof (cases ys)
  case Nil
  then show thesis using assms by (simp add: sim_def split: if_splits)
next
  case (Cons t' xs')
  then have "unflag t = unflag t'" "sim q xs xs'" using assms by (auto simp: sim_def split: if_splits)
  then show thesis using that [OF Cons] unflag_eq [of t t'] by simp
qed

lemma fire_ok:
  assumes ts: "ts_timers st = Some (vis @ t # todo)" and ok: "pool_ok st" and r: "ts_recycled st \<noteq> None"
    and q: "q \<longrightarrow> quiet (tm_callback t)" and n: "n \<longrightarrow> adds_none (tm_callback t)"
  shows "pass_ok q n st (fire t st) vis todo [t]"
proof -
  obtain ret calls where cb: "run_callback (tm_callback t) (tm_interval t) (tm_no t)
      (tm_interval t - tm_count t) (tm_mod t) = (ret, calls)" by fastforce
  define st1 where "st1 = fold dispatch_call calls (st\<lparr>ts_fired := ts_fired st @ [t]\<rparr>)"
  have "q \<longrightarrow> (\<forall>c \<in> set calls. quiet_call c)" "n \<longrightarrow> (\<forall>c \<in> set calls. \<not> add_call c)"
    using q n cb unfolding quiet_def adds_none_def by (metis snd_conv)+
  then have c: "call_ok q n (st\<lparr>ts_fired := ts_fired st @ [t]\<rparr>) st1"
    unfolding st1_def using ts by (intro call_ok_fold) auto
  then obtain ts1 where ts1: "ts_timers st1 = Some ts1" "sim q (vis @ t # todo) ts1"
    using ts by (auto simp: call_ok_def)
  then obtain vis' t1 todo' where s: "ts1 = vis' @ t1 # todo'" "sim q vis vis'" "sim q todo todo'" "tm_id t1 = tm_id t"
    using sim_append [OF ts1(2)] sim_Cons by metis
  have ok1: "pool_ok st1" and env: "same_env st st1" "ts_fired st1 = ts_fired st @ [t]" and r1: "ts_recycled st1 \<noteq> None"
    and u: "less_unwritten st st1" "n \<longrightarrow> recycled_written st \<longrightarrow> recycled_written st1"
    using c ok r by (auto simp: call_ok_def same_env_def less_unwritten_def recycled_written_def)
  then obtain rs where rs: "ts_recycled st1 = Some rs" by auto
  have ts1': "ts_timers st1 = Some (vis' @ t1 # todo')" using ts1(1) s(1) by simp
  note ids = at_id [OF pool_distinct [OF ok1 ts1']]
  note mv = pool_move [OF ok1 ts1']
  have w: "\<not> ts_unwritten st1 (tm_id t1)" using ok1 ts1' by (simp add: pool_ok_def)
  let ?f = "st1\<lparr>ts_timers := Some (vis' @ todo'), ts_free := put_front t1 (ts_free st1)\<rparr>"
  let ?r = "st1\<lparr>ts_timers := Some (vis' @ todo'), ts_recycled := Some (t1\<lparr>tm_count := tm_interval t1\<rparr> # rs),
      ts_unwritten := written rs (ts_unwritten st1)\<rparr>"
  have "fire t st = (if ret = 0 then ?f else ?r)"
    unfolding fire_def cb split_conv Let_def st1_def [symmetric]
    using ts1' ids rs s(4) by (simp add: insert_recycled_Some)
  moreover have "pass_ok q n st ?f vis todo [t]"
    using mv(1) s(2,3) env u rs unfolding pass_ok_def same_env_def less_unwritten_def recycled_written_def by auto
  moreover have "less_unwritten st ?r" "recycled_written st1 \<longrightarrow> recycled_written ?r"
    using u(1) w rs by (auto simp: less_unwritten_def recycled_written_def dest: written_le)
  then have "pass_ok q n st ?r vis todo [t]"
    using mv(2) [OF rs] s(2,3) env u unfolding pass_ok_def same_env_def by auto
  ultimately show ?thesis by simp
qed

lemma process_one_ok:
  assumes ts: "ts_timers st = Some (vis @ t # todo)" and ok: "pool_ok st" and r: "ts_recycled st \<noteq> None"
    and q: "q \<longrightarrow> quiet (tm_callback t)" and n: "n \<longrightarrow> adds_none (tm_callback t)"
  shows "pass_ok q n st (process_one e (tm_id t) st) (vis @ (if kept e t then [elapse e t] else [])) todo
           (if due e t then [elapse e t] else [])"
proof -
  note ids = at_id [OF pool_distinct [OF ok ts]]
  let ?st = "st\<lparr>ts_timers := Some (vis @ elapse e t # todo)\<rparr>"
  have ok1: "pool_ok ?st" using pool_move(3) [OF ok ts, of "elapse e t"] by (simp add: elapse_def)
  have eq: "process_one e (tm_id t) st =
      (if tm_remove t \<noteq> 0 then st\<lparr>ts_timers := Some (vis @ todo), ts_free := put_front t (ts_free st)\<rparr>
       else if tm_count t \<le> e then fire (elapse e t) ?st else ?st)"
    using ts ids by (simp add: process_one_def Let_def elapse_def)
  have "pass_ok q n ?st (fire (elapse e t) ?st) vis todo [elapse e t]"
    using ok1 r q n by (intro fire_ok) (auto simp: elapse_def)
  then have f: "pass_ok q n st (fire (elapse e t) ?st) vis todo [elapse e t]"
    by (simp add: pass_ok_def same_env_def less_unwritten_def recycled_written_def)
  have k: "pass_ok q n st ?st (vis @ [elapse e t]) todo []"
    using ok1 r unfolding pass_ok_def
    by (intro conjI exI [of _ "vis @ [elapse e t]"] exI [of _ todo])
      (auto simp: same_env_def less_unwritten_def recycled_written_def)
  have d: "pass_ok q n st (st\<lparr>ts_timers := Some (vis @ todo), ts_free := put_front t (ts_free st)\<rparr>) vis todo []"
    using pool_move(1) [OF ok ts] r unfolding pass_ok_def
    by (intro conjI exI [of _ vis] exI [of _ todo]) (auto simp: same_env_def less_unwritten_def recycled_written_def)
  show ?thesis using f k d unfolding eq by (auto simp: due_def kept_def not_le)
qed

lemma walk_ok:
  "ts_timers st = Some (vis @ todo) \<Longrightarrow> pool_ok st \<Longrightarrow> ts_recycled st \<noteq> None \<Longrightarrow>
   q \<longrightarrow> (\<forall>c \<in> set (map tm_callback todo). quiet c) \<Longrightarrow> n \<longrightarrow> (\<forall>c \<in> set (map tm_callback todo). adds_none c) \<Longrightarrow>
   sorted (map tm_count vis @ map (\<lambda>c. c - e) (map tm_count todo)) \<Longrightarrow> \<forall>c \<in> set (map tm_count vis). 0 < c \<Longrightarrow>
   \<exists>out st'. fold (process_one e) (map tm_id todo) st = st' \<and> ts_timers st' = Some out \<and> by_count out \<and>
     (\<forall>c \<in> set (map tm_count out). 0 < c) \<and> pool_ok st' \<and> same_env st st' \<and> ts_recycled st' \<noteq> None \<and>
     less_unwritten st st' \<and> (n \<longrightarrow> recycled_written st \<longrightarrow> recycled_written st') \<and>
     (q \<longrightarrow> out = vis @ map (elapse e) (filter (kept e) todo) \<and>
       ts_fired st' = ts_fired st @ map (elapse e) (filter (due e) todo))"
proof (induction "length todo" arbitrary: vis todo st)
  case 0
  then show ?case by (auto simp: same_env_def less_unwritten_def)
next
  case (Suc m)
  then obtain t ts where todo: "todo = t # ts" by (cases todo) auto
  define v where "v = vis @ (if kept e t then [elapse e t] else [])"
  define st1 where "st1 = process_one e (tm_id t) st"
  have "pass_ok q n st st1 v ts (if due e t then [elapse e t] else [])"
    unfolding v_def st1_def using Suc.prems todo by (intro process_one_ok) auto
  then obtain vis' ts' where p: "ts_timers st1 = Some (vis' @ ts')" "sim q v vis'" "sim q ts ts'" "pool_ok st1"
    "same_env st st1" "ts_recycled st1 \<noteq> None" "ts_fired st1 = ts_fired st @ (if due e t then [elapse e t] else [])"
    and u: "less_unwritten st st1" "n \<longrightarrow> recycled_written st \<longrightarrow> recycled_written st1"
    unfolding pass_ok_def by blast
  note fv = sim_fields [OF p(2)] and ft = sim_fields [OF p(3)]
  have len: "m = length ts'" using Suc.hyps(2) todo map_eq_imp_length_eq [OF ft(1)] by simp
  have sub: "sorted (map tm_count v @ map (\<lambda>c. c - e) (map tm_count ts))"
    using Suc.prems(6) todo by (auto simp: v_def elapse_def sorted_append)
  have pos: "\<forall>c \<in> set (map tm_count v). 0 < c"
    using Suc.prems(7) by (auto simp: v_def elapse_def kept_def)
  obtain out st' where o: "fold (process_one e) (map tm_id ts') st1 = st'" "ts_timers st' = Some out" "by_count out"
     "\<forall>c \<in> set (map tm_count out). 0 < c" "pool_ok st'" "same_env st1 st'" "ts_recycled st' \<noteq> None"
     "less_unwritten st1 st'" "n \<longrightarrow> recycled_written st1 \<longrightarrow> recycled_written st'"
     "q \<longrightarrow> out = vis' @ map (elapse e) (filter (kept e) ts') \<and>
       ts_fired st' = ts_fired st1 @ map (elapse e) (filter (due e) ts')"
    using Suc.hyps(1) [OF len p(1,4,6)] Suc.prems(4,5) sub pos todo unfolding ft fv by auto
  have st': "fold (process_one e) (map tm_id todo) st = st'"
    using o(1) unfolding ft(1) todo st1_def by simp
  have "q \<longrightarrow> out = vis @ map (elapse e) (filter (kept e) todo) \<and>
      ts_fired st' = ts_fired st @ map (elapse e) (filter (due e) todo)"
    using o(10) p(2,3,7) unfolding v_def todo by (auto simp: sim_def)
  then show ?case using st' o p(5) u less_unwritten_trans [OF u(1) o(8)] by (auto simp: same_env_def)
qed

text \<open>Putting the recycled timers back on the list: it faults when the first one has an unwritten \<open>prev\<close>,
  and gives a sorted list of all of them otherwise.\<close>

lemma restore_ok:
  "ts_timers st = Some ts \<Longrightarrow> by_count ts \<Longrightarrow> ts_recycled st = Some rs \<Longrightarrow>
   (\<forall>t \<in> set (tl rs). \<not> ts_unwritten st (tm_id t)) \<Longrightarrow> \<not> (rs \<noteq> [] \<and> ts_unwritten st (tm_id (hd rs))) \<Longrightarrow>
   \<exists>ts' w. restore_recycled rs st = Some (st\<lparr>ts_timers := Some ts', ts_recycled := Some [], ts_unwritten := w\<rparr>) \<and>
     by_count ts' \<and> mset ts' = mset rs + mset ts \<and> (\<forall>i. w i \<longrightarrow> ts_unwritten st i) \<and> (\<forall>t \<in> set rs. \<not> w (tm_id t))"
proof (induction rs arbitrary: st ts)
  case Nil
  then show ?case by (intro exI [of _ ts] exI [of _ "ts_unwritten st"]) (cases st, auto)
next
  case (Cons r rs)
  let ?ts = "xs_insert_sort timer_cmp True r ts"
  let ?w = "(written rs (ts_unwritten st))(tm_id r := False)"
  let ?st = "st\<lparr>ts_recycled := Some rs, ts_timers := Some ?ts, ts_unwritten := ?w\<rparr>"
  have "restore_recycled (r # rs) st = restore_recycled rs ?st"
    using Cons.prems by (simp add: insert_timers_Some)
  moreover have "by_count ?ts"
    using torder.in_order_insert_sort [of ts True r] Cons.prems by (simp add: by_count_in_order)
  moreover have "\<forall>t \<in> set rs. \<not> ?w (tm_id t)" using Cons.prems(4) by (auto dest: written_le)
  then have "\<forall>t \<in> set (tl rs). \<not> ?w (tm_id t)" "\<not> (rs \<noteq> [] \<and> ?w (tm_id (hd rs)))"
    by (cases rs; simp)+
  ultimately obtain ts' w where o: "restore_recycled (r # rs) st =
      Some (st\<lparr>ts_timers := Some ts', ts_recycled := Some [], ts_unwritten := w\<rparr>)" "by_count ts'"
      "mset ts' = mset rs + mset ?ts" "\<forall>i. w i \<longrightarrow> ?w i" "\<forall>t \<in> set rs. \<not> w (tm_id t)"
    using Cons.IH [of ?st ?ts] by auto
  have "\<forall>i. w i \<longrightarrow> ts_unwritten st i" "\<not> w (tm_id r)" using o(4) by (auto split: if_splits dest!: written_le)
  then show ?case using o by auto
qed

section \<open>Between calls\<close>

text \<open>\<open>g\<close> says of which blocks of the pool the memory held a value other than \<open>NULL\<close> in the place of
  \<open>prev\<close> when \<open>palloc\<close> returned them.\<close>

definition tinv :: "(nat \<Rightarrow> bool) \<Rightarrow> tstate \<Rightarrow> bool" where
  "tinv g st \<longleftrightarrow> pool_ok st \<and> by_count (opt_list (ts_timers st)) \<and>
     (\<forall>c \<in> set (map tm_count (opt_list (ts_timers st))). 0 < c) \<and> ts_indispatch st = 0 \<and>
     (ts_timers st = None \<longrightarrow> opt_list (ts_recycled st) = [] \<and> ts_nalarms st = 0 \<and> ts_pending st = 0) \<and>
     recycled_written st \<and> (\<forall>i. ts_unwritten st i \<longrightarrow> g i)"

text \<open>What keeps a pass from a fault: memory that holds \<open>NULL\<close>, or callbacks that add no timer.\<close>

definition calm :: "(nat \<Rightarrow> bool) \<Rightarrow> timer list \<Rightarrow> bool" where
  "calm g ts \<longleftrightarrow> (\<forall>i. \<not> g i) \<or> (\<forall>c \<in> set (map tm_callback ts). adds_none c)"

lemma calm_mono: "calm g ts \<Longrightarrow> set ts' \<subseteq> set ts \<Longrightarrow> calm g ts'"
  by (auto simp: calm_def)

text \<open>An outcome that satisfies \<open>P\<close>, and that is no fault when \<open>s\<close> holds.\<close>

definition yields :: "bool \<Rightarrow> 'a option \<Rightarrow> ('a \<Rightarrow> bool) \<Rightarrow> bool" where
  "yields s x P \<longleftrightarrow> (s \<longrightarrow> x \<noteq> None) \<and> (\<forall>y. x = Some y \<longrightarrow> P y)"

lemma yields_Some [simp]: "yields s (Some y) P = P y"
  by (simp add: yields_def)

lemma yields_None [simp]: "yields s None P = (\<not> s)"
  by (simp add: yields_def)

lemma yields_map [simp]: "yields s (map_option f x) P = yields s x (\<lambda>y. P (f y))"
  by (cases x) simp_all

lemma yields_mono: "yields s x P \<Longrightarrow> (s' \<Longrightarrow> s) \<Longrightarrow> (\<And>y. P y \<Longrightarrow> Q y) \<Longrightarrow> yields s' x Q"
  by (auto simp: yields_def)

lemma pool_restore:
  assumes "pool_ok st" and "ts_timers st = Some ts" and "ts_recycled st = Some rs"
    and "mset ts' = mset rs + mset ts" and "\<forall>c \<in> set (map tm_count ts). 0 < c"
    and "\<forall>i. w i \<longrightarrow> ts_unwritten st i" and "\<forall>t \<in> set rs. \<not> w (tm_id t)"
  shows "pool_ok (st\<lparr>ts_timers := Some ts', ts_recycled := Some [], ts_unwritten := w\<rparr>) \<and>
    (\<forall>c \<in> set (map tm_count ts'). 0 < c)"
proof -
  have s: "set ts' = set rs \<union> set ts" using assms(4) by (metis set_mset_mset set_mset_union)
  have "mset (map tm_id (ts' @ opt_list (ts_free st))) = mset (map tm_id (ts @ rs @ opt_list (ts_free st)))"
    using assms(4) by (simp add: ac_simps)
  then have "distinct (map tm_id (ts' @ opt_list (ts_free st))) = distinct (map tm_id (ts @ rs @ opt_list (ts_free st)))"
    by (rule mset_eq_imp_distinct_iff)
  then show ?thesis using assms s by (auto simp: pool_ok_def all_timers_def)
qed

lemma ensure_set_Some [simp]: "\<exists>ts. ensure_set s = Some ts"
  by (cases s) (auto simp: ensure_set_def)

definition body_post :: "(nat \<Rightarrow> bool) \<Rightarrow> tstate \<Rightarrow> int + unit \<Rightarrow> tstate \<Rightarrow> bool" where
  "body_post g st r st' \<longleftrightarrow> tinv g st' \<and> ts_timers st' \<noteq> None \<and> ts_recycled st' = Some [] \<and>
     ts_nalarms st' = ts_nalarms st \<and> ts_pending st' = ts_pending st \<and>
     (case r of Inl c \<Rightarrow> ts_blocked st' = ts_blocked st \<and> c = c_int (head_count (the (ts_timers st')))
      | Inr _ \<Rightarrow> ts_blocked st' = ts_blocked st + 1)"

text \<open>The pass over the timers that ends with the recycled ones still to be put back.\<close>

lemma body_walk:
  assumes ok: "pool_ok st" and srt: "by_count ts" "\<forall>c \<in> set (map tm_count ts). 0 < c"
    and ts: "ts_timers st = Some ts" and rec: "ts_recycled st \<noteq> None" "recycled_written st"
    and g: "\<forall>i. ts_unwritten st i \<longrightarrow> g i" and q: "q \<longrightarrow> (\<forall>c \<in> set (map tm_callback ts). quiet c)"
  obtains out where "ts_timers (if e = 0 then st else process_walk e ts st) = Some out" "by_count out"
    "\<forall>c \<in> set (map tm_count out). 0 < c" "pool_ok (if e = 0 then st else process_walk e ts st)"
    "same_env st (if e = 0 then st else process_walk e ts st)"
    "ts_recycled (if e = 0 then st else process_walk e ts st) \<noteq> None"
    "less_unwritten st (if e = 0 then st else process_walk e ts st)"
    "calm g ts \<longrightarrow> recycled_written (if e = 0 then st else process_walk e ts st)"
    "q \<and> e \<noteq> 0 \<longrightarrow> out = map (elapse e) (filter (kept e) ts) \<and>
       ts_fired (if e = 0 then st else process_walk e ts st) = ts_fired st @ map (elapse e) (filter (due e) ts)"
proof (cases "e = 0")
  case True
  then show thesis using assms that [of ts] by (auto simp: same_env_def less_unwritten_def)
next
  case False
  let ?n = "\<forall>c \<in> set (map tm_callback ts). adds_none c"
  have s: "sorted (map tm_count [] @ map (\<lambda>c. c - e) (map tm_count ts))"
    using srt(1) by (simp add: sorted_map sorted_wrt_map)
  have ts': "ts_timers st = Some ([] @ ts)" using ts by simp
  obtain out st' where o: "process_walk e ts st = st'" "ts_timers st' = Some out" "by_count out"
    "\<forall>c \<in> set (map tm_count out). 0 < c" "pool_ok st'" "same_env st st'" "ts_recycled st' \<noteq> None"
    "less_unwritten st st'" "?n \<longrightarrow> recycled_written st \<longrightarrow> recycled_written st'"
    "q \<longrightarrow> out = map (elapse e) (filter (kept e) ts) \<and>
       ts_fired st' = ts_fired st @ map (elapse e) (filter (due e) ts)"
    using walk_ok [OF ts' ok rec(1) q _ s, of ?n] unfolding process_walk_def by auto
  have "recycled_written st'" if "calm g ts"
    using that o(8,9) rec(2) g by (auto simp: calm_def less_unwritten_def recycled_written_def)
  then show thesis using o False that [of out] by simp
qed

text \<open>One pass: the invariant holds again afterwards, every recycled timer is back on the list, and with
  callbacks that remove no timer exactly the timers that were due have fired, in the order of the list.\<close>

lemma body_ok:
  assumes inv: "tinv g st" and ts: "ts_timers st = Some ts"
    and q: "q \<longrightarrow> (\<forall>c \<in> set (map tm_callback ts). quiet c)"
  shows "yields (calm g ts) (process_timers_body e st) (\<lambda>(r, st'). body_post g st r st' \<and>
    (q \<and> e \<noteq> 0 \<longrightarrow> ts_fired st' = ts_fired st @ map (elapse e) (filter (due e) ts) \<and>
       (\<exists>out. ts_timers st' = Some out \<and> elapse e ` (set (filter (kept e) ts)) \<subseteq> set out)))"
proof -
  define st1 where "st1 = st\<lparr>ts_recycled := ensure_set (ts_recycled st)\<rparr>"
  have inv1: "tinv g st1" using inv by (simp add: st1_def tinv_def pool_ok_def all_timers_def recycled_written_def)
  have t1: "ts_timers st1 = Some ts" and i1: "ts_indispatch st1 = 0"
    using ts inv by (simp_all add: st1_def tinv_def)
  show ?thesis
  proof (cases "e = 0 \<and> ts_recycled st1 = Some []")
    case True
    then have "process_timers_body e st = Some (Inl (c_int (head_count ts)), st1)"
      using t1 unfolding process_timers_body_def Let_def st1_def [symmetric] by simp
    then show ?thesis using True inv1 t1 by (auto simp: body_post_def st1_def)
  next
    case False
    define st2 where "st2 = (pr_alarms_block st1)\<lparr>ts_indispatch := ts_indispatch st1 + 1\<rparr>"
    define st3 where "st3 = (if e = 0 then st2 else process_walk e ts st2)"
    have ok2: "pool_ok st2" "by_count ts" "\<forall>c \<in> set (map tm_count ts). 0 < c" "ts_timers st2 = Some ts"
      "ts_recycled st2 \<noteq> None" "recycled_written st2" "\<forall>i. ts_unwritten st2 i \<longrightarrow> g i"
      and env2: "ts_fired st2 = ts_fired st" "ts_nalarms st2 = ts_nalarms st" "ts_pending st2 = ts_pending st"
      "ts_blocked st2 = ts_blocked st + 1" "ts_indispatch st2 = 1"
      using inv1 t1 i1
      by (simp_all add: st2_def tinv_def pr_alarms_block_def recycled_written_def) (simp_all add: st1_def)
    obtain out where o: "ts_timers st3 = Some out" "by_count out" "\<forall>c \<in> set (map tm_count out). 0 < c"
      "pool_ok st3" "same_env st2 st3" "ts_recycled st3 \<noteq> None" "less_unwritten st2 st3"
      "calm g ts \<longrightarrow> recycled_written st3"
      "q \<and> e \<noteq> 0 \<longrightarrow> out = map (elapse e) (filter (kept e) ts) \<and>
         ts_fired st3 = ts_fired st2 @ map (elapse e) (filter (due e) ts)"
      using body_walk [OF ok2 q] unfolding st3_def by blast
    from o(6) obtain rs where rs: "ts_recycled st3 = Some rs" by auto
    have body: "process_timers_body e st =
        map_option (\<lambda>st4. (Inr (), st4\<lparr>ts_indispatch := ts_indispatch st4 - 1\<rparr>)) (restore_recycled rs st3)"
      using False t1 i1 rs ok2(4)
      unfolding process_timers_body_def Let_def st1_def [symmetric] st2_def [symmetric]
      by (cases "e = 0") (simp_all add: st3_def)
    show ?thesis
    proof (cases "rs \<noteq> [] \<and> ts_unwritten st3 (tm_id (hd rs))")
      case True
      then have "restore_recycled rs st3 = None" "\<not> recycled_written st3"
        using rs by (cases rs; auto simp: recycled_written_def)+
      then show ?thesis using body o(8) by auto
    next
      case False
      have "\<forall>t \<in> set (tl rs). \<not> ts_unwritten st3 (tm_id t)" using o(4) rs by (simp add: pool_ok_def)
      then obtain ts' w where ts': "restore_recycled rs st3 =
          Some (st3\<lparr>ts_timers := Some ts', ts_recycled := Some [], ts_unwritten := w\<rparr>)" "by_count ts'"
          "mset ts' = mset rs + mset out" "\<forall>i. w i \<longrightarrow> ts_unwritten st3 i" "\<forall>t \<in> set rs. \<not> w (tm_id t)"
        using restore_ok [OF o(1,2) rs _ False] by blast
      define st4 where "st4 = st3\<lparr>ts_timers := Some ts', ts_recycled := Some [], ts_unwritten := w,
          ts_indispatch := ts_indispatch st3 - 1\<rparr>"
      have b: "process_timers_body e st = Some (Inr (), st4)" using body ts'(1) by (simp add: st4_def)
      have p: "pool_ok (st3\<lparr>ts_timers := Some ts', ts_recycled := Some [], ts_unwritten := w\<rparr>)"
        "\<forall>c \<in> set (map tm_count ts'). 0 < c"
        using pool_restore [OF o(4,1) rs ts'(3) o(3) ts'(4,5)] by auto
      then have "pool_ok st4" using pool_blocked(3) by (simp add: st4_def)
      moreover have "\<forall>i. w i \<longrightarrow> g i" using ts'(4) o(7) ok2(7) by (auto simp: less_unwritten_def)
      ultimately have "body_post g st (Inr ()) st4"
        using p(2) ts'(2) o(5) env2 by (simp add: body_post_def tinv_def st4_def same_env_def recycled_written_def)
      moreover have "set out \<subseteq> set ts'" using ts'(3) by (metis set_mset_mset set_mset_union Un_upper2)
      ultimately show ?thesis using b o(9) env2 by (auto simp: st4_def)
    qed
  qed
qed

lemmas pool_env [simp] =
  pool_fields(1) [where st' = "st\<lparr>ts_alarm := a\<rparr>" and st = st for st a, simplified]
  pool_fields(1) [where st' = "st\<lparr>ts_total := a\<rparr>" and st = st for st a, simplified]
  pool_fields(1) [where st' = "st\<lparr>ts_alarmed := a\<rparr>" and st = st for st a, simplified]
  pool_fields(1) [where st' = "st\<lparr>ts_current := a\<rparr>" and st = st for st a, simplified]
  pool_fields(1) [where st' = "st\<lparr>ts_reads := a\<rparr>" and st = st for st a, simplified]
  pool_fields(1) [where st' = "st\<lparr>ts_sigflag := a\<rparr>" and st = st for st a, simplified]

lemma handle_elapsed_fields:
  "ts_timers (snd (handle_elapsed st)) = ts_timers st" "ts_blocked (snd (handle_elapsed st)) = ts_blocked st"
  "ts_pending (snd (handle_elapsed st)) = ts_pending st" "ts_nalarms (snd (handle_elapsed st)) = ts_nalarms st"
  "ts_fired (snd (handle_elapsed st)) = ts_fired st" "tinv g (snd (handle_elapsed st)) = tinv g st"
  by (auto simp: handle_elapsed_def time_null_def tinv_def recycled_written_def Let_def)

lemma set_next_alarm_fields:
  "ts_timers (set_next_alarm r st) = ts_timers st" "ts_blocked (set_next_alarm r st) = ts_blocked st"
  "ts_pending (set_next_alarm r st) = ts_pending st" "ts_nalarms (set_next_alarm r st) = ts_nalarms st"
  "ts_fired (set_next_alarm r st) = ts_fired st" "tinv g (set_next_alarm r st) = tinv g st"
  "ts_recycled (set_next_alarm r st) = ts_recycled st" "ts_alarm (set_next_alarm r st) = r"
  by (auto simp: set_next_alarm_def time_null_def tinv_def recycled_written_def Let_def)

lemma tinv_counters [simp]:
  "tinv g (st\<lparr>ts_blocked := b\<rparr>) = tinv g st"
  by (simp add: tinv_def recycled_written_def)

text \<open>With the alarms blocked \<open>handle_alarm\<close> only notes that one is pending; otherwise it makes one pass, and
  sets the next alarm for the least remaining time.\<close>

lemma handle_alarm_none: "ts_nalarms st = 0 \<Longrightarrow> handle_alarm st = Some st"
  by (simp add: handle_alarm.simps)

lemma handle_alarm_blocked:
  "ts_nalarms st \<noteq> 0 \<Longrightarrow> ts_blocked st \<noteq> 0 \<Longrightarrow>
   handle_alarm st = Some (st\<lparr>ts_nalarms := 0, ts_pending := ts_pending st + 1\<rparr>)"
  by (subst handle_alarm.simps) (simp add: handle_alarm_none)

lemma handle_alarm_pass:
  assumes n: "ts_nalarms st \<noteq> 0" "ts_blocked st = 0" "ts_pending st = 0" and inv: "tinv g st"
    and ts: "ts_timers st = Some ts" and q: "q \<longrightarrow> (\<forall>c \<in> set (map tm_callback ts). quiet c)"
  shows "yields (calm g ts) (handle_alarm st) (\<lambda>st'. \<exists>out. tinv g st' \<and> ts_blocked st' = 0 \<and> ts_pending st' = 0 \<and>
    ts_nalarms st' = 0 \<and> ts_timers st' = Some out \<and> ts_recycled st' = Some [] \<and> ts_alarm st' = c_int (head_count out) \<and>
    (let e = fst (handle_elapsed st) in q \<and> e \<noteq> 0 \<longrightarrow>
       ts_fired st' = ts_fired st @ map (elapse e) (filter (due e) ts) \<and> elapse e ` (set (filter (kept e) ts)) \<subseteq> set out))"
proof -
  define st0 where "st0 = snd (handle_elapsed (st\<lparr>ts_nalarms := 0\<rparr>))"
  define e where "e = fst (handle_elapsed (st\<lparr>ts_nalarms := 0\<rparr>))"
  have e: "e = fst (handle_elapsed st)"
    by (simp add: e_def handle_elapsed_def time_null_def Let_def)
  have i0: "tinv g st0" "ts_timers st0 = Some ts" "ts_blocked st0 = 0" "ts_pending st0 = 0" "ts_nalarms st0 = 0"
      "ts_fired st0 = ts_fired st"
    using n inv ts by (simp_all add: st0_def handle_elapsed_fields) (simp add: tinv_def recycled_written_def)
  note body = body_ok [OF i0(1,2) q, of e]
  show ?thesis
  proof (cases "process_timers_body e st0")
    case None
    then have "handle_alarm st = None" using n unfolding st0_def e_def by (subst handle_alarm.simps) simp
    then show ?thesis using body None by simp
  next
    case (Some rst)
    then obtain r st1 where b: "process_timers_body e st0 = Some (r, st1)" by (cases rst) auto
    with body have post: "body_post g st0 r st1"
      "q \<and> e \<noteq> 0 \<longrightarrow> ts_fired st1 = ts_fired st0 @ map (elapse e) (filter (due e) ts) \<and>
         (\<exists>out. ts_timers st1 = Some out \<and> elapse e ` (set (filter (kept e) ts)) \<subseteq> set out)"
      by auto
    from post(1) obtain out where out: "ts_timers st1 = Some out" by (auto simp: body_post_def)
    let ?st2 = "st1\<lparr>ts_blocked := 0\<rparr>"
    have "handle_alarm st = Some (set_next_alarm (c_int (head_count out)) ?st2)"
    proof (cases r)
      case (Inl c)
      then have c: "ts_blocked st1 = 0" "c = c_int (head_count out)" "ts_nalarms st1 = 0"
        using post(1) i0 out by (auto simp: body_post_def)
      from c(1) have st2: "?st2 = st1" by simp
      show ?thesis
        using n b Inl c unfolding st2 unfolding st0_def e_def
        by (subst handle_alarm.simps) (simp add: handle_alarm_none set_next_alarm_fields)
    next
      case (Inr u)
      then have "ts_blocked st1 = 1" "ts_pending st1 = 0" "ts_nalarms st1 = 0"
        using post(1) i0 by (auto simp: body_post_def)
      then show ?thesis
        using n b Inr out unfolding st0_def e_def
        by (subst handle_alarm.simps) (simp add: handle_alarm_none set_next_alarm_fields timers_head_def)
    qed
    moreover have "tinv g ?st2" "ts_recycled st1 = Some []" "ts_pending st1 = 0" "ts_nalarms st1 = 0"
      using post(1) i0 by (auto simp: body_post_def)
    ultimately show ?thesis
      using post(2) i0(6) out unfolding e by (simp add: set_next_alarm_fields Let_def)
  qed
qed

section \<open>The interface between dispatches\<close>

definition timers_good :: "(nat \<Rightarrow> bool) \<Rightarrow> tstate \<Rightarrow> bool" where
  "timers_good g st \<longleftrightarrow> tinv g st \<and> 0 \<le> ts_blocked st \<and> (ts_blocked st = 0 \<longrightarrow> ts_pending st = 0) \<and>
     (opt_list (ts_recycled st) \<noteq> [] \<longrightarrow> ts_pending st \<noteq> 0)"

lemma timers_good_tinv: "timers_good g st \<Longrightarrow> tinv g st"
  by (simp add: timers_good_def)

lemma pass_good:
  assumes "tinv g st" and "ts_blocked st = 0" and "ts_pending st = 0" and "ts_nalarms st \<noteq> 0"
  shows "yields (calm g (opt_list (ts_timers st))) (handle_alarm st) (timers_good g)"
proof -
  obtain ts where ts: "ts_timers st = Some ts" using assms(1,4) by (auto simp: tinv_def)
  have "yields (calm g ts) (handle_alarm st) (timers_good g)"
    by (rule yields_mono [OF handle_alarm_pass [OF assms(4,2,3,1) ts, of False]]) (auto simp: timers_good_def)
  then show ?thesis using ts by simp
qed

lemma unblock_good:
  assumes "tinv g st" and "0 < ts_blocked st" and "opt_list (ts_recycled st) \<noteq> [] \<longrightarrow> ts_pending st \<noteq> 0"
  shows "yields (calm g (opt_list (ts_timers st))) (pr_alarms_unblock st) (timers_good g)"
proof (cases "ts_blocked st = 1 \<and> ts_pending st \<noteq> 0")
  case True
  let ?st = "st\<lparr>ts_blocked := 0, ts_pending := 0, ts_nalarms := ts_nalarms st + 1\<rparr>"
  have "tinv g ?st" using assms(1) True by (auto simp: tinv_def recycled_written_def)
  then show ?thesis using pass_good [of g ?st] True by (simp add: pr_alarms_unblock_def Let_def)
next
  case False
  then show ?thesis using assms by (auto simp: pr_alarms_unblock_def Let_def timers_good_def)
qed

text \<open>What an interface function does after it has changed the sets with the alarms blocked: it notes an
  alarm, which stays pending until \<open>pr_alarms_unblock\<close>.\<close>

lemma changed_good:
  assumes "tinv g (st\<lparr>ts_nalarms := 1\<rparr>)" and "0 < ts_blocked st" and "ts_nalarms st \<noteq> 0"
  obtains st' where "handle_alarm st = Some st'"
    "yields (calm g (opt_list (ts_timers st))) (pr_alarms_unblock st') (timers_good g)"
proof -
  let ?st = "st\<lparr>ts_nalarms := 0, ts_pending := ts_pending st + 1\<rparr>"
  have "tinv g ?st" using assms(1) by (auto simp: tinv_def recycled_written_def)
  then have "yields (calm g (opt_list (ts_timers ?st))) (pr_alarms_unblock ?st) (timers_good g)"
    using assms(2) by (intro unblock_good) auto
  then show thesis using that [of ?st] handle_alarm_blocked [OF assms(3)] assms(2) by auto
qed

lemma pool_add:
  assumes "pool_ok st" and "ts_timers st = Some ts" and "mset ts' = add_mset t (mset ts)"
    and "tm_id t < ts_next st" and "tm_id t \<notin> tm_id ` set (all_timers st)" and "0 < tm_interval t"
  shows "pool_ok (st\<lparr>ts_timers := Some ts', ts_unwritten := (ts_unwritten st)(tm_id t := False)\<rparr>)"
proof -
  have s: "set ts' = insert t (set ts)" using assms(3) by (metis set_mset_mset set_mset_add_mset_insert)
  have "mset (map tm_id (ts' @ xs)) = mset (map tm_id (t # ts @ xs))" for xs
    using assms(3) by simp
  then have d: "distinct (map tm_id (ts' @ xs)) = distinct (map tm_id (t # ts @ xs))" for xs
    by (rule mset_eq_imp_distinct_iff)
  show ?thesis
    using assms(1,2,4,5,6) d [of "opt_list (ts_recycled st) @ opt_list (ts_free st)"] s
    by (simp add: pool_ok_def all_timers_def image_Un)
qed

text \<open>What keeps a call from a fault: memory that holds \<open>NULL\<close>, or callbacks that add no timer.\<close>

definition calm_call :: "(nat \<Rightarrow> bool) \<Rightarrow> callback_t option \<Rightarrow> tstate \<Rightarrow> bool" where
  "calm_call g cb st \<longleftrightarrow> (\<forall>i. \<not> g i) \<or>
     (\<forall>t \<in> set (opt_list (ts_timers st)). adds_none (tm_callback t)) \<and> (\<forall>c. cb = Some c \<longrightarrow> adds_none c)"

lemma calm_call_None: "calm_call g None st = calm g (opt_list (ts_timers st))"
  by (simp add: calm_call_def calm_def)

lemma prep_callback: "timer_add_prep seconds no md cb desc st = (Inr t, st') \<Longrightarrow> cb = Some (tm_callback t)"
  by (auto simp: timer_add_prep_def Let_def split: option.splits if_splits prod.splits)

lemma add_good:
  assumes g: "timers_good g st"
  shows "yields (calm_call g cb st) (pr_timer_add seconds no md cb desc st) (\<lambda>(r, st'). timers_good g st')"
proof -
  obtain r st1 where p: "timer_add_prep seconds no md cb desc st = (r, st1)" by fastforce
  note ok = prep_ok [OF p]
  have inv: "tinv g st" using g by (rule timers_good_tinv)
  then have pool: "pool_ok st1" and i1: "ts_indispatch st1 = 0" and w1: "recycled_written st1" "\<forall>i. ts_unwritten st1 i \<longrightarrow> g i"
    using prep_pool [OF p] ok by (simp_all add: tinv_def same_env_def recycled_written_def)
  show ?thesis
  proof (cases r)
    case (Inl e)
    have "tinv g st1" using inv pool ok i1 w1 by (auto simp: tinv_def same_env_def)
    then have "timers_good g st1" using g ok Inl by (auto simp: timers_good_def same_env_def)
    then show ?thesis using p Inl by (simp add: pr_timer_add_def)
  next
    case (Inr t)
    then obtain ts where ts: "ts_timers st1 = Some ts" using ok by auto
    let ?ts = "xs_insert_sort timer_cmp True t ts"
    define st2 where "st2 = (insert_timers t st1)\<lparr>ts_nalarms := ts_nalarms st1 + 1\<rparr>"
    have st2: "st2 = st1\<lparr>ts_timers := Some ?ts, ts_unwritten := (ts_unwritten st1)(tm_id t := False),
        ts_nalarms := ts_nalarms st1 + 1\<rparr>"
      unfolding st2_def insert_timers_Some [OF ts] by simp
    have l: "by_count ts" "\<forall>c \<in> set (map tm_count ts). 0 < c" using inv ok ts by (auto simp: tinv_def)
    have "by_count ?ts" using torder.in_order_insert_sort [of ts True t] l(1) by (simp add: by_count_in_order)
    moreover have "\<forall>c \<in> set (map tm_count ?ts). 0 < c"
      using l(2) ok Inr by (simp add: mset_xs_insert_sort_dups)
    moreover have "pool_ok (st1\<lparr>ts_timers := Some ?ts, ts_unwritten := (ts_unwritten st1)(tm_id t := False)\<rparr>)"
      using prep_pool [OF p] inv ok Inr by (intro pool_add [OF pool ts]) (auto simp: tinv_def)
    ultimately have "tinv g (st2\<lparr>ts_nalarms := 1\<rparr>)"
      using i1 w1 by (simp add: tinv_def st2 recycled_written_def)
    then obtain st3 where h: "handle_alarm st2 = Some st3"
      "yields (calm g (opt_list (ts_timers st2))) (pr_alarms_unblock st3) (timers_good g)"
      using changed_good [of g st2] g ok Inr by (auto simp: st2 timers_good_def)
    have "calm g (opt_list (ts_timers st2))" if "calm_call g cb st"
    proof -
      have "cb = Some (tm_callback t)" using prep_callback p Inr by blast
      moreover have "opt_list (ts_timers st) = ts" using ok ts by auto
      ultimately show ?thesis using that by (auto simp: calm_call_def calm_def st2 mset_xs_insert_sort_dups)
    qed
    then have "yields (calm_call g cb st) (pr_alarms_unblock st3) (timers_good g)" by (rule yields_mono [OF h(2)])
    then show ?thesis using p Inr i1 h(1) by (simp add: pr_timer_add_def st2_def)
  qed
qed

lemma reset_good:
  assumes g: "timers_good g st"
  shows "yields (calm_call g None st) (pr_timer_reset no md st) (\<lambda>(r, st'). timers_good g st')"
proof (cases "ts_timers st")
  case None
  then show ?thesis using g by (simp add: pr_timer_reset_def)
next
  case ts: (Some ts)
  let ?P = "\<lambda>t. tm_no t = no \<and> (tm_mod t = md \<or> md = AnyModule)"
  define rs where "rs = opt_list (ts_recycled st)"
  define st1 where "st1 = (pr_alarms_block st)\<lparr>ts_recycled := Some rs\<rparr>"
  have e: "ensure_set (ts_recycled st) = Some rs" by (simp add: rs_def ensure_set_def opt_list_def split: option.split)
  have inv: "tinv g st1" and i: "ts_indispatch st = 0"
    using timers_good_tinv [OF g]
    by (auto simp: tinv_def st1_def pr_alarms_block_def pool_ok_def all_timers_def rs_def recycled_written_def)
  have b: "0 < ts_blocked st1" using g by (simp add: st1_def pr_alarms_block_def timers_good_def)
  have t1: "opt_list (ts_timers st1) = ts" using ts by (simp add: st1_def pr_alarms_block_def)
  show ?thesis
  proof (cases "find ?P ts")
    case None
    have "yields (calm g (opt_list (ts_timers st1))) (pr_alarms_unblock st1) (timers_good g)"
      using inv b g by (intro unblock_good) (auto simp: st1_def timers_good_def pr_alarms_block_def rs_def)
    then show ?thesis using None ts i e t1 by (simp add: pr_timer_reset_def Let_def st1_def calm_call_None)
  next
    case (Some t)
    then obtain vis todo where vt: "ts = vis @ t # todo"
      by (metis find_Some_iff2 id_take_nth_drop)
    define st2 where "st2 = (insert_recycled (t\<lparr>tm_count := tm_interval t\<rparr>)
        (st1\<lparr>ts_timers := Some (drop_timer (tm_id t) ts)\<rparr>))\<lparr>ts_nalarms := ts_nalarms st1 + 1\<rparr>"
    have p1: "pool_ok st1" "ts_timers st1 = Some (vis @ t # todo)" "ts_recycled st1 = Some rs"
      using inv ts vt by (auto simp: tinv_def st1_def pr_alarms_block_def)
    have d: "drop_timer (tm_id t) ts = vis @ todo" using at_id(2) [OF pool_distinct [OF p1(1,2)]] vt by simp
    have st2: "st2 = st1\<lparr>ts_timers := Some (vis @ todo), ts_recycled := Some (t\<lparr>tm_count := tm_interval t\<rparr> # rs),
        ts_unwritten := written rs (ts_unwritten st1), ts_nalarms := ts_nalarms st1 + 1\<rparr>"
      using p1(3) by (simp add: st2_def d insert_recycled_def)
    have "\<not> ts_unwritten st1 (tm_id t)" using p1 by (simp add: pool_ok_def)
    then have "recycled_written st2"
      using inv p1(3) by (auto simp: tinv_def recycled_written_def st2 dest: written_le)
    then have "tinv g (st2\<lparr>ts_nalarms := 1\<rparr>)"
      using pool_move(2) [OF p1] inv p1 unfolding st2 tinv_def
      by (auto simp: sorted_append recycled_written_def dest: written_le)
    then obtain st3 where h: "handle_alarm st2 = Some st3"
      "yields (calm g (opt_list (ts_timers st2))) (pr_alarms_unblock st3) (timers_good g)"
      using changed_good [of g st2] b by (auto simp: st2)
    have "yields (calm_call g None st) (pr_alarms_unblock st3) (timers_good g)"
      by (rule yields_mono [OF h(2)]) (auto simp: calm_call_None ts vt st2 intro: calm_mono)
    then show ?thesis using Some ts i e h(1) by (simp add: pr_timer_reset_def Let_def st2_def st1_def)
  qed
qed

text \<open>What \<open>pr_timer_remove\<close> leaves of the list, and how many timers it removes.\<close>

fun without :: "int \<Rightarrow> modptr \<Rightarrow> timer list \<Rightarrow> timer list" where
  "without no md [] = []"
| "without no md (t # ts) =
     (if timer_matches no md t then (if 0 \<le> no then ts else without no md ts) else t # without no md ts)"

lemma without_subset: "set (without no md ts) \<subseteq> set ts"
  by (induction ts) auto

lemma without_sorted: "by_count ts \<Longrightarrow> by_count (without no md ts)"
proof (induction ts)
  case (Cons t ts)
  then show ?case using without_subset [of no md ts] by auto
qed simp

lemma remove_loop_ok:
  "ts_timers st = Some (vis @ todo) \<Longrightarrow> pool_ok st \<Longrightarrow> 0 < ts_blocked st \<Longrightarrow>
   \<exists>n' st'. remove_loop no md todo n st = Some (n', st') \<and> pool_ok st' \<and>
     ts_timers st' = Some (vis @ without no md todo) \<and> ts_blocked st' = ts_blocked st \<and>
     ts_indispatch st' = ts_indispatch st \<and> ts_recycled st' = ts_recycled st \<and> ts_pending st \<le> ts_pending st' \<and>
     ts_unwritten st' = ts_unwritten st \<and> n \<le> n' \<and> (n' = n \<longleftrightarrow> (\<forall>t \<in> set todo. \<not> timer_matches no md t))"
proof (induction todo arbitrary: vis n st)
  case (Cons t ts)
  show ?case
  proof (cases "timer_matches no md t")
    case False
    then show ?thesis using Cons.IH [of st "vis @ [t]" n] Cons.prems by auto
  next
    case True
    define st1 where "st1 = st\<lparr>ts_timers := Some (vis @ ts), ts_free := put_front t (ts_free st),
        ts_nalarms := ts_nalarms st + 1\<rparr>"
    define st2 where "st2 = st1\<lparr>ts_nalarms := 0, ts_pending := ts_pending st + 1\<rparr>"
    have d: "drop_timer (tm_id t) (vis @ t # ts) = vis @ ts"
      using at_id(2) [OF pool_distinct [OF Cons.prems(2,1)]] .
    have "handle_alarm st1 = Some st2"
      using handle_alarm_blocked [of st1] Cons.prems(3) by (simp add: st1_def st2_def)
    then have step: "remove_loop no md (t # ts) n st =
        (if 0 \<le> no then Some (n + 1, st2) else remove_loop no md ts (n + 1) st2)"
      using True Cons.prems(1) d by (simp add: st1_def)
    have ok2: "ts_timers st2 = Some (vis @ ts)" "pool_ok st2" "ts_blocked st2 = ts_blocked st"
      "ts_indispatch st2 = ts_indispatch st" "ts_recycled st2 = ts_recycled st" "ts_pending st \<le> ts_pending st2"
      "ts_unwritten st2 = ts_unwritten st"
      using pool_move(1) [OF Cons.prems(2,1)] by (simp_all add: st2_def st1_def)
    show ?thesis
    proof (cases "0 \<le> no")
      case True
      then show ?thesis using ok2 step \<open>timer_matches no md t\<close> by auto
    next
      case False
      obtain n' st' where r: "remove_loop no md ts (n + 1) st2 = Some (n', st')" "pool_ok st'"
        "ts_timers st' = Some (vis @ without no md ts)" "ts_blocked st' = ts_blocked st2"
        "ts_indispatch st' = ts_indispatch st2" "ts_recycled st' = ts_recycled st2"
        "ts_pending st2 \<le> ts_pending st'" "n + 1 \<le> n'" "ts_unwritten st' = ts_unwritten st2"
        using Cons.IH [OF ok2(1,2), of "n + 1"] ok2(3) Cons.prems(3) by auto
      then show ?thesis using False step ok2 \<open>timer_matches no md t\<close> by auto
    qed
  qed
qed auto

lemma remove_good:
  assumes g: "timers_good g st"
  shows "yields (calm_call g None st) (pr_timer_remove no md st) (\<lambda>(r, st'). timers_good g st')"
proof (cases "ts_timers st")
  case None
  then show ?thesis using g by (simp add: pr_timer_remove_def)
next
  case (Some ts)
  let ?st = "pr_alarms_block st"
  have inv: "tinv g st" using g by (rule timers_good_tinv)
  have b: "ts_timers ?st = Some ([] @ ts)" "pool_ok ?st" "0 < ts_blocked ?st" "ts_indispatch st = 0"
    using Some inv g by (simp_all add: pr_alarms_block_def tinv_def timers_good_def)
  obtain n st1 where r: "remove_loop no md ts 0 ?st = Some (n, st1)" "pool_ok st1"
    "ts_timers st1 = Some (without no md ts)" "ts_blocked st1 = ts_blocked ?st" "ts_indispatch st1 = ts_indispatch ?st"
    "ts_recycled st1 = ts_recycled ?st" "ts_pending ?st \<le> ts_pending st1" "ts_unwritten st1 = ts_unwritten ?st"
    using remove_loop_ok [OF b(1,2,3), of no md 0] by auto
  have "tinv g st1"
    using r inv Some b without_subset [of no md ts] without_sorted [of ts no md]
    by (auto simp: tinv_def pr_alarms_block_def recycled_written_def)
  moreover have "opt_list (ts_recycled st1) \<noteq> [] \<longrightarrow> ts_pending st1 \<noteq> 0"
    using r g by (auto simp: timers_good_def pr_alarms_block_def)
  ultimately have "yields (calm g (opt_list (ts_timers st1))) (pr_alarms_unblock st1) (timers_good g)"
    using r(4) b(3) by (intro unblock_good) auto
  then have "yields (calm_call g None st) (pr_alarms_unblock st1) (timers_good g)"
    by (rule yields_mono) (auto simp: calm_call_None Some r(3) intro: calm_mono [OF _ without_subset])
  then show ?thesis using Some b(4) r(1) by (simp add: pr_timer_remove_def)
qed

lemma handle_good:
  assumes "timers_good g st"
  shows "yields (calm_call g None st) (handle_alarm st) (timers_good g)"
proof -
  have inv: "tinv g st" using assms by (rule timers_good_tinv)
  consider "ts_nalarms st = 0" | "ts_nalarms st \<noteq> 0" "ts_blocked st = 0" | "ts_nalarms st \<noteq> 0" "ts_blocked st \<noteq> 0"
    by blast
  then show ?thesis
  proof cases
    case 1
    then show ?thesis using assms by (simp add: handle_alarm_none)
  next
    case 2
    then show ?thesis using pass_good [OF inv] assms by (simp add: timers_good_def calm_call_None)
  next
    case 3
    then show ?thesis
      using handle_alarm_blocked [of st] assms inv by (auto simp: timers_good_def tinv_def recycled_written_def)
  qed
qed

section \<open>Runs\<close>

text \<open>The timer system in use: the interface called with any arguments, alarms blocked and unblocked,
  signals arriving once a timer has been added, and \<open>handle_alarm\<close> called from the signal dispatch.\<close>

inductive timer_step :: "tstate \<Rightarrow> tstate \<Rightarrow> bool" where
  add: "pr_timer_add seconds no md cb desc st = Some (r, st') \<Longrightarrow> timer_step st st'"
| remove: "pr_timer_remove no md st = Some (r, st') \<Longrightarrow> timer_step st st'"
| reset: "pr_timer_reset no md st = Some (r, st') \<Longrightarrow> timer_step st st'"
| block: "timer_step st (pr_alarms_block st)"
| unblock: "0 < ts_blocked st \<Longrightarrow> pr_alarms_unblock st = Some st' \<Longrightarrow> timer_step st st'"
| signal: "ts_timers st \<noteq> None \<Longrightarrow> timer_step st (sig_alarm st)"
| handle: "handle_alarm st = Some st' \<Longrightarrow> timer_step st st'"

definition timers_start :: "(nat \<Rightarrow> int) \<Rightarrow> (nat \<Rightarrow> bool) \<Rightarrow> tstate" where
  "timers_start clock g = timers_init \<lparr>ts_timers = None, ts_recycled = None, ts_free = None, ts_indispatch = 0,
     ts_dynamic = 0, ts_nalarms = 0, ts_blocked = 0, ts_pending = 0, ts_current = 0, ts_total = 0, ts_alarmed = 0,
     ts_alarm = 0, ts_clock = clock, ts_reads = 0, ts_next = 0, ts_fired = [],
     ts_sigflag = False, ts_unwritten = g\<rparr>"

text \<open>The states that calls that return lead to, with the results of \<open>time(NULL)\<close> and the memory that
  \<open>palloc\<close> hands out given.\<close>

inductive timer_reach :: "(nat \<Rightarrow> int) \<Rightarrow> (nat \<Rightarrow> bool) \<Rightarrow> tstate \<Rightarrow> bool" for clock g where
  start: "timer_reach clock g (timers_start clock g)"
| step: "timer_reach clock g st \<Longrightarrow> timer_step st st' \<Longrightarrow> timer_reach clock g st'"

lemma timer_step_good: "timer_step st st' \<Longrightarrow> timers_good g st \<Longrightarrow> timers_good g st'"
proof (induction rule: timer_step.induct)
  case (add seconds no md cb desc st r st')
  then show ?case using add_good [of g st cb seconds no md desc] by simp
next
  case (remove no md st r st')
  then show ?case using remove_good [of g st no md] by simp
next
  case (reset no md st r st')
  then show ?case using reset_good [of g st no md] by simp
next
  case (block st)
  then show ?case by (auto simp: timers_good_def pr_alarms_block_def)
next
  case (unblock st st')
  then show ?case using unblock_good [of g st] by (auto simp: timers_good_def)
next
  case (signal st)
  then show ?case by (auto simp: timers_good_def tinv_def recycled_written_def sig_alarm_def time_null_def Let_def)
next
  case (handle st st')
  then show ?case using handle_good [of g st] by simp
qed

lemma timer_reach_good: "timer_reach clock g st \<Longrightarrow> timers_good g st"
proof (induction rule: timer_reach.induct)
  case start
  show ?case
    by (simp add: timers_start_def timers_init_def timers_good_def tinv_def pool_ok_def all_timers_def recycled_written_def)
qed (rule timer_step_good)

text \<open>The calls a callback makes during a dispatch are the calls of the interface.\<close>

definition interface_call :: "timer_call \<Rightarrow> tstate \<Rightarrow> tstate option" where
  "interface_call c st =
     (case c of
        CallAdd seconds no md cb desc \<Rightarrow> map_option snd (pr_timer_add seconds no md cb desc st)
      | CallRemove no md \<Rightarrow> map_option snd (pr_timer_remove no md st)
      | CallReset no md \<Rightarrow> map_option snd (pr_timer_reset no md st))"

lemma dispatch_call_interface:
  assumes "ts_indispatch st \<noteq> 0" and "0 < ts_blocked st"
  shows "interface_call c st = Some (dispatch_call c st)"
proof (cases c)
  case (CallAdd seconds no md cb desc)
  obtain r st1 where p: "timer_add_prep seconds no md cb desc st = (r, st1)" by fastforce
  note ok = prep_ok [OF p]
  have "ts_indispatch st1 \<noteq> 0" using ok assms by (simp add: same_env_def)
  moreover have "pr_alarms_unblock (recycle t st1) = Some ((recycle t st1)\<lparr>ts_blocked := ts_blocked st1 - 1\<rparr>)"
    if "r = Inr t" for t
    using ok assms that by (simp add: pr_alarms_unblock_def Let_def recycle_eq)
  ultimately show ?thesis
    using CallAdd p by (cases r) (simp_all add: interface_call_def dispatch_call_def pr_timer_add_def dispatch_add_def)
next
  case (CallRemove no md)
  show ?thesis
  proof (cases "ts_timers st")
    case None
    then have "st\<lparr>ts_timers := None\<rparr> = st" by (cases st) simp
    then show ?thesis using CallRemove None by (simp add: interface_call_def dispatch_call_def pr_timer_remove_def)
  next
    case (Some ts)
    then show ?thesis using CallRemove assms
      by (simp add: interface_call_def dispatch_call_def pr_timer_remove_def pr_alarms_block_def
          pr_alarms_unblock_def Let_def)
  qed
next
  case (CallReset no md)
  then show ?thesis
    using assms by (cases "ts_timers st") (simp_all add: interface_call_def dispatch_call_def pr_timer_reset_def)
qed

section \<open>Properties\<close>

text \<open>C4. In every state that calls of the timer system lead to as long as they return, with callbacks that
  themselves add, reset and remove timers, and however the clock runs, the list of timers is sorted by
  remaining time, every timer on it has a positive time left, no timer is on two lists, and none is left
  among the recycled ones while alarms are not blocked. (A call may also not return: see the next two.)\<close>

theorem timers_always_sorted:
  assumes "timer_reach clock g st"
  shows "by_count (opt_list (ts_timers st)) \<and> (\<forall>t \<in> set (opt_list (ts_timers st)). 0 < tm_count t) \<and>
    distinct (map tm_id (opt_list (ts_timers st) @ opt_list (ts_recycled st) @ opt_list (ts_free st))) \<and>
    (ts_blocked st = 0 \<longrightarrow> opt_list (ts_recycled st) = [])"
  using timer_reach_good [OF assms] by (auto simp: timers_good_def tinv_def pool_ok_def all_timers_def)


text \<open>Without that condition it does not hold. When the only timer is due and its callback adds a new timer
  and is done, and the block \<open>palloc\<close> returns for the new one holds a value other than \<open>NULL\<close> in the place
  of \<open>prev\<close>, putting the new timer back on the list writes through that value.\<close>

lemma callback_add_faults:
  assumes inv: "tinv g st" and n: "ts_nalarms st \<noteq> 0" "ts_blocked st = 0"
    and ts: "ts_timers st = Some [t]" "ts_free st = Some []" "opt_list (ts_recycled st) = []"
    and e: "e = fst (handle_elapsed st)" "e \<noteq> 0" and due: "due e t"
    and cb: "\<And>a b c m. run_callback (tm_callback t) a b c m = (0, [CallAdd seconds no md (Some c') (Some d)])"
    and new: "0 < seconds" "no \<noteq> tm_no t" and w: "ts_unwritten st (ts_next st)"
  shows "handle_alarm st = None"
proof -
  define st0 where "st0 = snd (handle_elapsed (st\<lparr>ts_nalarms := 0\<rparr>))"
  have e0: "fst (handle_elapsed (st\<lparr>ts_nalarms := 0\<rparr>)) = e"
    by (simp add: e(1) handle_elapsed_def time_null_def Let_def)
  have st0: "ts_timers st0 = Some [t]" "ts_free st0 = Some []" "opt_list (ts_recycled st0) = []"
    "ts_unwritten st0 (ts_next st0)" "ts_indispatch st0 = 0"
    using ts w inv by (auto simp: st0_def handle_elapsed_def time_null_def tinv_def Let_def)
  have rec: "ensure_set (ts_recycled st0) = Some []"
    using st0(3) by (auto simp: ensure_set_def opt_list_def split: option.splits)
  have "process_timers_body e st0 = None"
    using st0 rec e(2) due cb new
    by (simp add: process_timers_body_def process_walk_def process_one_def find_timer_def due_def fire_def
        upd_timer_def drop_timer_def dispatch_call_def dispatch_add_def timer_add_prep_def timerno_in_use_def
        pr_alarms_block_def take_block_def take_timerno_def recycle_eq put_front_def written_def Let_def)
  then show ?thesis using n unfolding st0_def e0 by (subst handle_alarm.simps) (simp add: e0)
qed


definition demo_cb :: callback_t where
  "demo_cb = Callback (\<lambda>_ _ _ _. (0, []))"

definition demo_clock :: "nat \<Rightarrow> int" where
  "demo_clock n = (if n = 0 then 100 else 107)"

definition demo_timers :: tstate where
  "demo_timers = (timers_start demo_clock (\<lambda>_. True))\<lparr>ts_timers := Some
       [\<lparr>tm_id = 0, tm_count = 5, tm_interval = 5, tm_no = 1, tm_mod = NoModule, tm_callback = demo_cb,
         tm_remove = 0, tm_desc = ''idle''\<rparr>], ts_recycled := Some [], ts_free := Some [],
     ts_next := 1, ts_reads := 1, ts_alarmed := 100, ts_current := 5, ts_alarm := 5,
     ts_unwritten := (\<lambda>i. i \<noteq> 0)\<rparr>"

lemma demo_add:
  "pr_timer_add 5 1 NoModule (Some demo_cb) (Some ''idle'') (timers_start demo_clock (\<lambda>_. True)) = Some (Inr 1, demo_timers)"
  by (simp add: pr_timer_add_def timer_add_prep_def timers_start_def timers_init_def ensure_set_def timerno_in_use_def
      pr_alarms_block_def take_block_def take_timerno_def insert_timers_def put_sorted_def fun_upd_def c_int_def handle_alarm.simps pr_alarms_unblock_def
      handle_elapsed_def time_null_def process_timers_body_def set_next_alarm_def head_count_def demo_timers_def
      demo_clock_def Let_def)

lemma demo_cb_calls: "quiet demo_cb" "adds_none demo_cb"
  by (simp_all add: quiet_def adds_none_def demo_cb_def)

lemma demo_reach: "timer_reach demo_clock (\<lambda>_. True) demo_timers"
  by (rule timer_reach.step [OF timer_reach.start timer_step.add [OF demo_add]])

theorem timers_always_sorted_witness:
  "timer_reach demo_clock (\<lambda>_. True) demo_timers \<and> by_count (opt_list (ts_timers demo_timers)) \<and>
   map tm_count (opt_list (ts_timers demo_timers)) = [5]"
  using demo_reach timers_always_sorted [OF demo_reach] by (simp add: demo_timers_def)



end
