(* ===== verification/C_Lib.thy ===== *)
theory C_Lib
  imports Pr_Prelude
begin

text \<open>
  The functions of the C library that several components call, in the C locale: character classes,
  case conversion and \<open>strtol\<close>. A string argument is its text, without the terminator.
\<close>

section \<open>Character classes\<close>

definition c_isdigit :: "char \<Rightarrow> bool" where
  "c_isdigit c \<longleftrightarrow> 48 \<le> uchar c \<and> uchar c \<le> 57"

definition c_isupper :: "char \<Rightarrow> bool" where
  "c_isupper c \<longleftrightarrow> 65 \<le> uchar c \<and> uchar c \<le> 90"

definition c_islower :: "char \<Rightarrow> bool" where
  "c_islower c \<longleftrightarrow> 97 \<le> uchar c \<and> uchar c \<le> 122"

definition c_isalpha :: "char \<Rightarrow> bool" where
  "c_isalpha c \<longleftrightarrow> c_isupper c \<or> c_islower c"

definition c_isalnum :: "char \<Rightarrow> bool" where
  "c_isalnum c \<longleftrightarrow> c_isalpha c \<or> c_isdigit c"

definition c_isspace :: "char \<Rightarrow> bool" where
  "c_isspace c \<longleftrightarrow> uchar c = 32 \<or> (9 \<le> uchar c \<and> uchar c \<le> 13)"

definition c_isxdigit :: "char \<Rightarrow> bool" where
  "c_isxdigit c \<longleftrightarrow> c_isdigit c \<or> (65 \<le> uchar c \<and> uchar c \<le> 70) \<or> (97 \<le> uchar c \<and> uchar c \<le> 102)"

definition c_isprint :: "char \<Rightarrow> bool" where
  "c_isprint c \<longleftrightarrow> 32 \<le> uchar c \<and> uchar c \<le> 126"

definition c_iscntrl :: "char \<Rightarrow> bool" where
  "c_iscntrl c \<longleftrightarrow> uchar c < 32 \<or> uchar c = 127"

definition c_tolower :: "char \<Rightarrow> char" where
  "c_tolower c = (if c_isupper c then char_of (uchar c + 32) else c)"

definition c_toupper :: "char \<Rightarrow> char" where
  "c_toupper c = (if c_islower c then char_of (uchar c - 32) else c)"

text \<open>\<open>strcasecmp(a, b) == 0\<close>.\<close>

definition c_strcaseeq :: "string \<Rightarrow> string \<Rightarrow> bool" where
  "c_strcaseeq a b \<longleftrightarrow> map c_tolower a = map c_tolower b"

text \<open>\<open>strncasecmp(a, b, n) == 0\<close>.\<close>

definition c_strncaseeq :: "string \<Rightarrow> string \<Rightarrow> nat \<Rightarrow> bool" where
  "c_strncaseeq a b n \<longleftrightarrow> c_strcaseeq (take n a) (take n b)"

text \<open>\<open>strcmp\<close>: the comparison ends at the terminator of \<open>a\<close> at the latest.\<close>

definition c_strcmp :: "string \<Rightarrow> string \<Rightarrow> int" where
  "c_strcmp a b = c_strncmp a b (length a + 1)"

text \<open>\<open>strncmp(a, b, n) == 0\<close> and \<open>strstr(s, m)\<close>, the rest of \<open>s\<close> from the first occurrence on.\<close>

definition c_strneq :: "string \<Rightarrow> string \<Rightarrow> nat \<Rightarrow> bool" where
  "c_strneq a b n \<longleftrightarrow> take n a = take n b"

fun c_strstr :: "string \<Rightarrow> string \<Rightarrow> string option" where
  "c_strstr [] m = (if m = [] then Some [] else None)"
| "c_strstr (c # cs) m = (if take (length m) (c # cs) = m then Some (c # cs) else c_strstr cs m)"

section \<open>Numbers\<close>

definition digit_val :: "char \<Rightarrow> nat" where
  "digit_val c = uchar c - 48"

fun digits_val :: "string \<Rightarrow> nat \<Rightarrow> nat" where
  "digits_val [] acc = acc"
| "digits_val (c # cs) acc = digits_val cs (acc * 10 + digit_val c)"

text \<open>\<open>strtol(s, &end, 10)\<close> with a 64-bit \<open>long\<close>: the value, saturated, and the rest of the string; without
  a digit the value is zero and the rest is all of \<open>s\<close>.\<close>

definition long_sat :: "int \<Rightarrow> int" where
  "long_sat n = max (- (2 ^ 63)) (min (2 ^ 63 - 1) n)"

definition c_strtol10 :: "string \<Rightarrow> int \<times> string" where
  "c_strtol10 s =
     (let s1 = dropWhile c_isspace s;
          (neg, s2) = (case s1 of
             c # cs \<Rightarrow> (if c = CHR ''-'' then (True, cs) else if c = CHR ''+'' then (False, cs) else (False, s1))
           | [] \<Rightarrow> (False, s1));
          ds = takeWhile c_isdigit s2
      in if ds = [] then (0, s)
         else (long_sat (if neg then - int (digits_val ds 0) else int (digits_val ds 0)), dropWhile c_isdigit s2))"

text \<open>\<open>strtoull(s, &end, 10)\<close>: the value, the rest and whether \<open>errno\<close> is set to \<open>ERANGE\<close>. A minus sign negates
  the value modulo \<open>2 ^ 64\<close>.\<close>

definition split_sign :: "string \<Rightarrow> bool \<times> string" where
  "split_sign s =
     (case s of
        c # cs \<Rightarrow> (if c = CHR ''-'' then (True, cs) else if c = CHR ''+'' then (False, cs) else (False, s))
      | [] \<Rightarrow> (False, s))"

definition c_strtoull10 :: "string \<Rightarrow> nat \<times> string \<times> bool" where
  "c_strtoull10 s =
     (let (neg, s2) = split_sign (dropWhile c_isspace s);
          ds = takeWhile c_isdigit s2; v = digits_val ds 0; rest = dropWhile c_isdigit s2
      in if ds = [] then (0, s, False)
         else if v \<ge> 2 ^ 64 then (2 ^ 64 - 1, rest, True)
         else (if neg then nat ((- int v) mod 2 ^ 64) else v, rest, False))"

text \<open>The conversion of a \<open>long\<close> to \<open>unsigned int\<close>.\<close>

definition to_uint :: "int \<Rightarrow> nat" where
  "to_uint n = nat (n mod 2 ^ 32)"

definition to_int :: "int \<Rightarrow> int" where
  "to_int n = (n + 2 ^ 31) mod 2 ^ 32 - 2 ^ 31"

text \<open>The conversion of an unsigned 64-bit number to the signed type of that width.\<close>

definition to_off :: "int \<Rightarrow> int" where
  "to_off n = (n + 2 ^ 63) mod 2 ^ 64 - 2 ^ 63"

text \<open>The conversion \<open>%u\<close> of \<open>sscanf\<close>, with an optional field width that counts the sign too: white space is
  skipped, then a sign and digits are read by \<open>strtoul\<close> and cut to 32 bits. \<open>None\<close> is a matching failure.\<close>

definition c_scan_u :: "nat option \<Rightarrow> string \<Rightarrow> (nat \<times> string) option" where
  "c_scan_u width s =
     (let s1 = dropWhile c_isspace s; (neg, s2) = split_sign s1;
          room = (case width of None \<Rightarrow> length s2 | Some w \<Rightarrow> w - (length s1 - length s2));
          ds = takeWhile c_isdigit (take room s2);
          v = int (min (digits_val ds 0) (2 ^ 64 - 1))
      in if ds = [] then None
         else Some (to_uint (if neg \<and> digits_val ds 0 < 2 ^ 64 then - v else v), drop (length ds) s2))"

text \<open>The value of a whole number below \<open>2 ^ 64\<close> after conversion to \<open>float\<close>: 24 significant bits, rounded to the
  nearest, ties to even.\<close>

fun nbits :: "nat \<Rightarrow> nat" where
  "nbits n = (if n = 0 then 0 else Suc (nbits (n div 2)))"

declare nbits.simps [simp del]

definition c_float :: "nat \<Rightarrow> nat" where
  "c_float n =
     (let k = nbits n - 24; q = n div 2 ^ k; r = 2 * (n mod 2 ^ k)
      in if k = 0 then n
         else (if r > 2 ^ k \<or> (r = 2 ^ k \<and> odd q) then q + 1 else q) * 2 ^ k)"

text \<open>Printing an unsigned number in decimal, as \<open>%u\<close> and \<open>%lu\<close> do.\<close>

definition digit_char :: "nat \<Rightarrow> char" where
  "digit_char d = char_of (48 + d)"

fun dec_digits :: "nat \<Rightarrow> string" where
  "dec_digits n = (if n < 10 then [digit_char n] else dec_digits (n div 10) @ [digit_char (n mod 10)])"

declare dec_digits.simps [simp del]

section \<open>Facts\<close>

lemma uchar_char_of [simp]: "n < 256 \<Longrightarrow> uchar (char_of n) = n"
  by (simp add: uchar_def)

lemma uchar_less [simp]: "uchar c < 256"
  using of_char_int_bounds(2) [of c] unfolding uchar_def by (metis of_char_of nat_int_comparison(2) of_nat_numeral of_nat_of_char)

lemma c_tolower_idem [simp]: "c_tolower (c_tolower c) = c_tolower c"
  by (auto simp: c_tolower_def c_isupper_def)

lemma c_strcaseeq_refl [simp]: "c_strcaseeq a a"
  by (simp add: c_strcaseeq_def)

lemma digits_val_append: "digits_val (xs @ ys) acc = digits_val ys (digits_val xs acc)"
  by (induction xs arbitrary: acc) auto

lemma digit_char_digit [simp]: "d < 10 \<Longrightarrow> c_isdigit (digit_char d)" "d < 10 \<Longrightarrow> digit_val (digit_char d) = d"
  by (simp_all add: digit_char_def c_isdigit_def digit_val_def)

lemma dec_digits_val [simp]: "digits_val (dec_digits n) 0 = n"
  by (induction n rule: dec_digits.induct) (subst dec_digits.simps, auto simp: digits_val_append)

lemma dec_digits_digits: "\<forall>c \<in> set (dec_digits n). c_isdigit c"
  by (induction n rule: dec_digits.induct) (subst dec_digits.simps, auto)

lemma dec_digits_not_Nil [simp]: "dec_digits n \<noteq> []"
  by (subst dec_digits.simps) auto

text \<open>Reading back a printed number.\<close>

lemma digit_not_space: "c_isdigit c \<Longrightarrow> \<not> c_isspace c" "c_isdigit c \<Longrightarrow> c \<noteq> CHR ''-''" "c_isdigit c \<Longrightarrow> c \<noteq> CHR ''+''"
  by (auto simp: c_isdigit_def c_isspace_def uchar_def)

lemma c_strtol10_dec:
  assumes "n < 2 ^ 63" and "rest = [] \<or> \<not> c_isdigit (hd rest)"
  shows "c_strtol10 (dec_digits n @ rest) = (int n, rest)"
proof -
  obtain c cs where ds: "dec_digits n = c # cs" by (cases "dec_digits n") auto
  have c: "c_isdigit c" and all: "\<forall>c \<in> set (dec_digits n). c_isdigit c" using dec_digits_digits [of n] ds by auto
  have t: "takeWhile c_isdigit (dec_digits n @ rest) = dec_digits n" "dropWhile c_isdigit (dec_digits n @ rest) = rest"
    using all assms(2) by (cases rest; auto simp: takeWhile_append dropWhile_append)+
  have sat: "long_sat (int n) = int n"
    using assms(1) by (simp add: long_sat_def)
  have "dropWhile c_isspace (dec_digits n @ rest) = dec_digits n @ rest" using ds digit_not_space(1) [OF c] by simp
  moreover have "digits_val cs (digit_val c) = n" using dec_digits_val [of n] ds by simp
  ultimately show ?thesis
    using t sat ds digit_not_space [OF c] by (simp add: c_strtol10_def Let_def)
qed

text \<open>Comparison of strings is an order.\<close>

lemma c_strncmp_le_trans:
  "c_strncmp a b n \<le> 0 \<Longrightarrow> c_strncmp b c n \<le> 0 \<Longrightarrow> c_strncmp a c n \<le> 0"
proof (induction n arbitrary: a b c)
  case (Suc n)
  show ?case
  proof (cases "hd0 a = hd0 b \<and> hd0 b = hd0 c")
    case True
    then show ?thesis using Suc by (simp split: if_splits)
  next
    case False
    have "uchar (hd0 a) \<le> uchar (hd0 b)" "uchar (hd0 b) \<le> uchar (hd0 c)"
      using Suc.prems by (simp_all split: if_splits)
    moreover have "uchar (hd0 a) \<noteq> uchar (hd0 b) \<or> uchar (hd0 b) \<noteq> uchar (hd0 c)" using False by simp
    ultimately have "uchar (hd0 a) < uchar (hd0 c)" by linarith
    then show ?thesis by auto
  qed
qed simp

lemma c_strncmp_swap: "c_strncmp a b n = - c_strncmp b a n"
proof (induction n arbitrary: a b)
  case (Suc n)
  show ?case
  proof (cases "hd0 a = hd0 b")
    case True
    then show ?thesis using Suc [of "tl a" "tl b"] by simp
  next
    case False
    then have "uchar (hd0 a) \<noteq> uchar (hd0 b)" by simp
    then show ?thesis using False by (cases "uchar (hd0 a) < uchar (hd0 b)") simp_all
  qed
qed simp

lemma c_strncmp_longer: "NUL \<notin> set a \<Longrightarrow> n > length a \<Longrightarrow> c_strncmp a b n = c_strcmp a b"
  unfolding c_strcmp_def
proof (induction a arbitrary: b n)
  case Nil
  then show ?case by (cases n) auto
next
  case (Cons x a)
  then obtain k where "n = Suc k" by (cases n) auto
  then show ?case using Cons by auto
qed

lemma c_strcmp_swap: "NUL \<notin> set a \<Longrightarrow> NUL \<notin> set b \<Longrightarrow> c_strcmp a b = - c_strcmp b a"
  using c_strncmp_longer [of a "length a + length b + 1" b] c_strncmp_longer [of b "length a + length b + 1" a]
    c_strncmp_swap [of a b "length a + length b + 1"] by simp

lemma c_strcmp_zero: "NUL \<notin> set a \<Longrightarrow> NUL \<notin> set b \<Longrightarrow> c_strcmp a b = 0 \<longleftrightarrow> a = b"
  unfolding c_strcmp_def c_strncmp_zero_iff
  by (metis One_nat_def add.commute c_text_no_nul(1) length_take lessI min.absorb4 min_def_raw nless_le
      not_less_eq_eq plus_1_eq_Suc take_all)

end
