(* ===== verification/Netaddr.thy ===== *)
theory Netaddr
  imports C_Lib
begin

unbundle bit_operations_syntax

text \<open>
  Network addresses, \<open>src/netaddr.c\<close>, as built with IPv6 support: comparison of addresses and of network
  prefixes, with the special treatment of IPv4-mapped IPv6 addresses. An address in memory is its bytes in
  network order. The union of the two socket address types is two fields and a port, of which the code
  uses the ones of the address family.
\<close>

section \<open>Data\<close>

datatype family = AF_UNSPEC | AF_INET | AF_INET6

type_synonym bytes = "8 word list"

record pr_netaddr_t =
  na_family :: family
  na_v4 :: bytes
  na_v6 :: bytes
  na_port :: nat

definition zero_netaddr :: pr_netaddr_t where
  "zero_netaddr = \<lparr>na_family = AF_UNSPEC, na_v4 = replicate 4 0, na_v6 = replicate 16 0, na_port = 0\<rparr>"

text \<open>\<open>memcmp\<close> on two blocks of the given size.\<close>

fun c_memcmp :: "bytes \<Rightarrow> bytes \<Rightarrow> nat \<Rightarrow> int" where
  "c_memcmp (x # xs) (y # ys) (Suc n) =
     (if x \<noteq> y then (if x < y then -1 else 1) else c_memcmp xs ys n)"
| "c_memcmp _ _ _ = 0"

section \<open>Accessors\<close>

text \<open>The argument \<open>use_ipv6\<close> is the static variable of that name.\<close>

definition pr_netaddr_set_family :: "bool \<Rightarrow> pr_netaddr_t option \<Rightarrow> family \<Rightarrow> unit result \<times> pr_netaddr_t option" where
  "pr_netaddr_set_family use_ipv6 na f =
     with_obj na (\<lambda>n.
       case f of
         AF_INET \<Rightarrow> (Inr (), n\<lparr>na_family := AF_INET\<rparr>)
       | AF_INET6 \<Rightarrow> if use_ipv6 then (Inr (), n\<lparr>na_family := AF_INET6\<rparr>) else (Inl EAFNOSUPPORT, n)
       | AF_UNSPEC \<Rightarrow> (Inl EAFNOSUPPORT, n))"

definition pr_netaddr_get_inaddr_len :: "pr_netaddr_t option \<Rightarrow> nat result" where
  "pr_netaddr_get_inaddr_len na =
     (case na of
        None \<Rightarrow> Inl EINVAL
      | Some n \<Rightarrow>
          (case na_family n of AF_INET \<Rightarrow> Inr 4 | AF_INET6 \<Rightarrow> Inr 16 | AF_UNSPEC \<Rightarrow> Inl EPERM))"

text \<open>\<open>pr_netaddr_get_sockaddr\<close> and \<open>pr_netaddr_set_sockaddr\<close>: the socket address is the address bytes and
  the port; \<open>memset\<close> clears the rest of the union.\<close>

definition pr_netaddr_get_sockaddr :: "bool \<Rightarrow> pr_netaddr_t option \<Rightarrow> (bytes \<times> nat) result" where
  "pr_netaddr_get_sockaddr use_ipv6 na =
     (case na of
        None \<Rightarrow> Inl EINVAL
      | Some n \<Rightarrow>
          (case na_family n of
             AF_INET \<Rightarrow> Inr (na_v4 n, na_port n)
           | AF_INET6 \<Rightarrow> if use_ipv6 then Inr (na_v6 n, na_port n) else Inl EPERM
           | AF_UNSPEC \<Rightarrow> Inl EPERM))"

definition pr_netaddr_set_sockaddr ::
  "bool \<Rightarrow> pr_netaddr_t option \<Rightarrow> (bytes \<times> nat) option \<Rightarrow> unit result \<times> pr_netaddr_t option" where
  "pr_netaddr_set_sockaddr use_ipv6 na sa =
     (case sa of
        None \<Rightarrow> (Inl EINVAL, na)
      | Some (bs, port) \<Rightarrow>
          with_obj na (\<lambda>n0.
            let n = n0\<lparr>na_v4 := replicate 4 0, na_v6 := replicate 16 0, na_port := 0\<rparr> in
            case na_family n of
              AF_INET \<Rightarrow> (Inr (), n\<lparr>na_v4 := bs, na_port := port\<rparr>)
            | AF_INET6 \<Rightarrow> if use_ipv6 then (Inr (), n\<lparr>na_v6 := bs, na_port := port\<rparr>) else (Inl EPERM, n)
            | AF_UNSPEC \<Rightarrow> (Inl EPERM, n)))"

definition pr_netaddr_set_sockaddr_any :: "bool \<Rightarrow> pr_netaddr_t option \<Rightarrow> unit result \<times> pr_netaddr_t option" where
  "pr_netaddr_set_sockaddr_any use_ipv6 na =
     with_obj na (\<lambda>n.
       case na_family n of
         AF_INET \<Rightarrow> (Inr (), n\<lparr>na_v4 := replicate 4 0\<rparr>)
       | AF_INET6 \<Rightarrow> if use_ipv6 then (Inr (), n\<lparr>na_v6 := replicate 16 0\<rparr>) else (Inl EPERM, n)
       | AF_UNSPEC \<Rightarrow> (Inl EPERM, n))"

definition pr_netaddr_get_inaddr :: "bool \<Rightarrow> pr_netaddr_t option \<Rightarrow> bytes result" where
  "pr_netaddr_get_inaddr use_ipv6 na =
     (case na of
        None \<Rightarrow> Inl EINVAL
      | Some n \<Rightarrow>
          (case na_family n of
             AF_INET \<Rightarrow> Inr (na_v4 n)
           | AF_INET6 \<Rightarrow> if use_ipv6 then Inr (na_v6 n) else Inl EPERM
           | AF_UNSPEC \<Rightarrow> Inl EPERM))"

definition pr_netaddr_get_port :: "bool \<Rightarrow> pr_netaddr_t option \<Rightarrow> nat result" where
  "pr_netaddr_get_port use_ipv6 na =
     (case na of
        None \<Rightarrow> Inl EINVAL
      | Some n \<Rightarrow>
          (case na_family n of
             AF_INET \<Rightarrow> Inr (na_port n)
           | AF_INET6 \<Rightarrow> if use_ipv6 then Inr (na_port n) else Inl EPERM
           | AF_UNSPEC \<Rightarrow> Inl EPERM))"

text \<open>The port field has 16 bits.\<close>

definition pr_netaddr_set_port :: "bool \<Rightarrow> pr_netaddr_t option \<Rightarrow> nat \<Rightarrow> unit result \<times> pr_netaddr_t option" where
  "pr_netaddr_set_port use_ipv6 na port =
     with_obj na (\<lambda>n.
       case na_family n of
         AF_INET \<Rightarrow> (Inr (), n\<lparr>na_port := port mod 2 ^ 16\<rparr>)
       | AF_INET6 \<Rightarrow> if use_ipv6 then (Inr (), n\<lparr>na_port := port mod 2 ^ 16\<rparr>) else (Inl EPERM, n)
       | AF_UNSPEC \<Rightarrow> (Inl EPERM, n))"

section \<open>IPv4-mapped IPv6 addresses\<close>

text \<open>The macro \<open>IN6_IS_ADDR_V4MAPPED\<close>: the prefix \<open>::ffff:0:0/96\<close>.\<close>

definition in6_is_v4mapped :: "bytes \<Rightarrow> bool" where
  "in6_is_v4mapped bs \<longleftrightarrow> take 12 bs = replicate 10 0 @ [0xff, 0xff]"

text \<open>The result is \<open>TRUE\<close> (1), \<open>FALSE\<close> (0) or -1; only \<open>TRUE\<close> is ever tested for.\<close>

definition pr_netaddr_is_v4mappedv6 :: "bool \<Rightarrow> pr_netaddr_t option \<Rightarrow> int" where
  "pr_netaddr_is_v4mappedv6 use_ipv6 na =
     (case na of
        None \<Rightarrow> -1
      | Some n \<Rightarrow>
          (case na_family n of
             AF_INET \<Rightarrow> -1
           | AF_INET6 \<Rightarrow> if \<not> use_ipv6 then -1 else if in6_is_v4mapped (na_v6 n) then 1 else 0
           | AF_UNSPEC \<Rightarrow> -1))"

definition get_v4inaddr :: "pr_netaddr_t \<Rightarrow> bytes" where
  "get_v4inaddr n = drop 12 (na_v6 n)"

definition pr_netaddr_v6tov4 :: "bool \<Rightarrow> pr_netaddr_t option \<Rightarrow> pr_netaddr_t result" where
  "pr_netaddr_v6tov4 use_ipv6 na =
     (case na of
        None \<Rightarrow> Inl EINVAL
      | Some n \<Rightarrow>
          (if pr_netaddr_is_v4mappedv6 use_ipv6 na \<noteq> 1 then Inl EPERM
           else Inr (zero_netaddr\<lparr>na_family := AF_INET,
                       na_port := (case pr_netaddr_get_port use_ipv6 na of Inr p \<Rightarrow> p | Inl _ \<Rightarrow> 0) mod 2 ^ 16,
                       na_v4 := get_v4inaddr n\<rparr>)))"

section \<open>Comparison\<close>

text \<open>The common head of \<open>pr_netaddr_cmp\<close> and \<open>pr_netaddr_ncmp\<close>: the two addresses to compare, with an
  IPv4-mapped one replaced by its IPv4 address when the families differ.\<close>

definition same_form :: "bool \<Rightarrow> pr_netaddr_t \<Rightarrow> pr_netaddr_t \<Rightarrow> (pr_netaddr_t \<times> pr_netaddr_t) result" where
  "same_form use_ipv6 n1 n2 =
     (if na_family n1 \<noteq> na_family n2 then
        (case pr_netaddr_v6tov4 use_ipv6 (Some n1) of
           Inr a \<Rightarrow> Inr (a, n2)
         | Inl _ \<Rightarrow>
             (case pr_netaddr_v6tov4 use_ipv6 (Some n2) of
                Inr b \<Rightarrow> Inr (n1, b)
              | Inl _ \<Rightarrow> Inl EINVAL))
      else Inr (n1, n2))"

definition pr_netaddr_cmp :: "bool \<Rightarrow> pr_netaddr_t option \<Rightarrow> pr_netaddr_t option \<Rightarrow> int" where
  "pr_netaddr_cmp use_ipv6 na1 na2 =
     (case (na1, na2) of
        (Some _, None) \<Rightarrow> 1
      | (None, Some _) \<Rightarrow> -1
      | (None, None) \<Rightarrow> 0
      | (Some n1, Some n2) \<Rightarrow>
          (case same_form use_ipv6 n1 n2 of
             Inl _ \<Rightarrow> -1
           | Inr (a, b) \<Rightarrow>
               (case na_family a of
                  AF_INET \<Rightarrow> c_memcmp (na_v4 a) (na_v4 b) 4
                | AF_INET6 \<Rightarrow> if use_ipv6 then c_memcmp (na_v6 a) (na_v6 b) 16 else -1
                | AF_UNSPEC \<Rightarrow> -1)))"

text \<open>\<open>nbytes\<close> and \<open>nbits\<close> are \<open>unsigned char\<close>, so the number of bytes is reduced to 8 bits.\<close>

definition addr_ncmp :: "bytes \<Rightarrow> bytes \<Rightarrow> nat \<Rightarrow> int" where
  "addr_ncmp aptr bptr masklen =
     (let nbytes = (masklen div 8) mod 256; nbits = masklen mod 8 in
      if c_memcmp aptr bptr nbytes \<noteq> 0 then -1
      else if 0 < nbits then
        (let abyte = aptr ! nbytes; bbyte = bptr ! nbytes;
             mask = push_bit (8 - nbits) (0xff :: 8 word)
         in if abyte AND mask > bbyte AND mask then 1
            else if abyte AND mask < bbyte AND mask then -1
            else 0)
      else 0)"

definition pr_netaddr_ncmp :: "bool \<Rightarrow> pr_netaddr_t option \<Rightarrow> pr_netaddr_t option \<Rightarrow> nat \<Rightarrow> int" where
  "pr_netaddr_ncmp use_ipv6 na1 na2 bitlen =
     (case (na1, na2) of
        (Some _, None) \<Rightarrow> 1
      | (None, Some _) \<Rightarrow> -1
      | (None, None) \<Rightarrow> 0
      | (Some n1, Some n2) \<Rightarrow>
          (case same_form use_ipv6 n1 n2 of
             Inl _ \<Rightarrow> -1
           | Inr (a, b) \<Rightarrow>
               (case na_family a of
                  AF_INET \<Rightarrow> if bitlen > 32 then -1 else addr_ncmp (na_v4 a) (na_v4 b) bitlen
                | AF_INET6 \<Rightarrow>
                    if \<not> use_ipv6 then -1
                    else if bitlen > 128 then -1 else addr_ncmp (na_v6 a) (na_v6 b) bitlen
                | AF_UNSPEC \<Rightarrow> -1)))"

text \<open>The arguments \<open>fnmatch\<close>, \<open>ipstr\<close> and \<open>dnsstr\<close> stand for \<open>pr_fnmatch\<close> with the flags
  \<open>PR_FNM_NOESCAPE|PR_FNM_CASEFOLD\<close> (whether the string matches the pattern), for the printed form of an
  address and for the name DNS gives for it.\<close>

abbreviation PR_NETADDR_MATCH_DNS :: "8 word" where "PR_NETADDR_MATCH_DNS \<equiv> 1"
abbreviation PR_NETADDR_MATCH_IP :: "8 word" where "PR_NETADDR_MATCH_IP \<equiv> 2"

definition pr_netaddr_fnmatch ::
  "(string \<Rightarrow> string \<Rightarrow> bool) \<Rightarrow> (pr_netaddr_t \<Rightarrow> string) \<Rightarrow> (pr_netaddr_t \<Rightarrow> string) \<Rightarrow> bool \<Rightarrow>
   pr_netaddr_t option \<Rightarrow> string option \<Rightarrow> 8 word \<Rightarrow> bool result" where
  "pr_netaddr_fnmatch fnmatch ipstr dnsstr use_ipv6 na pattern flags =
     (case (na, pattern) of
        (Some n, Some p) \<Rightarrow>
          Inr ((flags AND PR_NETADDR_MATCH_DNS \<noteq> 0 \<and> fnmatch p (dnsstr n)) \<or>
               (flags AND PR_NETADDR_MATCH_IP \<noteq> 0 \<and>
                 (fnmatch p (ipstr n) \<or>
                  (case pr_netaddr_v6tov4 use_ipv6 na of Inr a \<Rightarrow> fnmatch p (ipstr a) | Inl _ \<Rightarrow> False))))
      | _ \<Rightarrow> Inl EINVAL)"

section \<open>Special addresses\<close>

text \<open>With IPv6 switched off \<open>pr_netaddr_get_inaddr\<close> gives \<open>NULL\<close> for an IPv6 address, which the loopback test
  then reads: \<open>None\<close>.\<close>

definition pr_netaddr_is_loopback :: "bool \<Rightarrow> pr_netaddr_t option \<Rightarrow> bool result option" where
  "pr_netaddr_is_loopback use_ipv6 na =
     (case na of
        None \<Rightarrow> Some (Inl EINVAL)
      | Some n \<Rightarrow>
          (case na_family n of
             AF_INET \<Rightarrow> Some (Inr (hd (na_v4 n) = 0x7f))
           | AF_INET6 \<Rightarrow>
               (case pr_netaddr_v6tov4 use_ipv6 na of
                  Inr a \<Rightarrow> Some (Inr (hd (na_v4 a) = 0x7f))
                | Inl _ \<Rightarrow>
                    (case pr_netaddr_get_inaddr use_ipv6 na of
                       Inl _ \<Rightarrow> None
                     | Inr bs \<Rightarrow> Some (Inr (bs = replicate 15 0 @ [1]))))
           | AF_UNSPEC \<Rightarrow> Some (Inr False)))"

definition is_10_xxx_addr :: "bytes \<Rightarrow> int" where
  "is_10_xxx_addr addrno = addr_ncmp addrno [0x0a, 0, 0, 0] 8"

definition is_172_16_xx_addr :: "bytes \<Rightarrow> int" where
  "is_172_16_xx_addr addrno = addr_ncmp addrno [0xac, 0x10, 0, 0] 12"

definition is_192_168_xx_addr :: "bytes \<Rightarrow> int" where
  "is_192_168_xx_addr addrno = addr_ncmp addrno [0xc0, 0xa8, 0, 0] 16"

text \<open>\<open>pr_netaddr_get_addrno\<close>: the number \<open>s_addr\<close>, by its bytes in memory.\<close>

definition pr_netaddr_get_addrno :: "pr_netaddr_t option \<Rightarrow> bytes result" where
  "pr_netaddr_get_addrno na =
     (case na of
        None \<Rightarrow> Inl EINVAL
      | Some n \<Rightarrow>
          (case na_family n of AF_INET \<Rightarrow> Inr (na_v4 n) | AF_INET6 \<Rightarrow> Inl ENOENT | AF_UNSPEC \<Rightarrow> Inl EPERM))"

definition v4_is_rfc1918 :: "pr_netaddr_t \<Rightarrow> bool" where
  "v4_is_rfc1918 n =
     (let addrno = (case pr_netaddr_get_addrno (Some n) of Inr a \<Rightarrow> a | Inl _ \<Rightarrow> replicate 4 0) in
      is_192_168_xx_addr addrno = 0 \<or> is_172_16_xx_addr addrno = 0 \<or> is_10_xxx_addr addrno = 0)"

definition pr_netaddr_is_rfc1918 :: "bool \<Rightarrow> pr_netaddr_t option \<Rightarrow> bool result" where
  "pr_netaddr_is_rfc1918 use_ipv6 na =
     (case na of
        None \<Rightarrow> Inl EINVAL
      | Some n \<Rightarrow>
          (case na_family n of
             AF_INET \<Rightarrow> Inr (v4_is_rfc1918 n)
           | AF_INET6 \<Rightarrow>
               (case pr_netaddr_v6tov4 use_ipv6 na of
                  Inr a \<Rightarrow> Inr (v4_is_rfc1918 a)
                | Inl _ \<Rightarrow> Inr False)
           | AF_UNSPEC \<Rightarrow> Inr False))"

text \<open>\<open>pr_netaddr_validate_dns_str\<close> replaces what may not occur in a DNS name.\<close>

definition dns_char_ok :: "char \<Rightarrow> bool" where
  "dns_char_ok c \<longleftrightarrow> c_isalnum c \<or> c = CHR ''.'' \<or> c = CHR ''-'' \<or> c = CHR '':''"

definition pr_netaddr_validate_dns_str :: "string option \<Rightarrow> string result" where
  "pr_netaddr_validate_dns_str buf =
     (case buf of
        None \<Rightarrow> Inl EINVAL
      | Some s \<Rightarrow> Inr (map (\<lambda>c. if dns_char_ok c then c else CHR ''_'') s))"

section \<open>Prefixes\<close>

text \<open>The bits of an address, most significant first.\<close>

definition byte_bits :: "8 word \<Rightarrow> bool list" where
  "byte_bits b = map (bit b) (rev [0..<8])"

definition addr_bits :: "bytes \<Rightarrow> bool list" where
  "addr_bits bs = concat (map byte_bits bs)"

lemma length_byte_bits [simp]: "length (byte_bits b) = 8"
  by (simp add: byte_bits_def)

lemma length_addr_bits [simp]: "length (addr_bits bs) = 8 * length bs"
  by (induction bs) (simp_all add: addr_bits_def)

lemma byte_bits_inj [simp]: "byte_bits a = byte_bits b \<longleftrightarrow> a = b"
proof
  assume eq: "byte_bits a = byte_bits b"
  have "bit a i = bit b i" if "i < 8" for i
    using eq that by (auto simp: byte_bits_def)
  then show "a = b" by (intro bit_word_eqI) simp
qed simp

lemma addr_bits_inj: "length as = length bs \<Longrightarrow> addr_bits as = addr_bits bs \<longleftrightarrow> as = bs"
  by (induction as bs rule: list_induct2) (simp_all add: addr_bits_def)

lemma take_addr_bits:
  assumes "k < length as" and "j \<le> 8"
  shows "take (8 * k + j) (addr_bits as) = addr_bits (take k as) @ take j (byte_bits (as ! k))"
proof -
  have "as = take k as @ as ! k # drop (Suc k) as" using assms(1) by (rule id_take_nth_drop)
  then have "addr_bits as = addr_bits (take k as) @ byte_bits (as ! k) @ addr_bits (drop (Suc k) as)"
    by (metis addr_bits_def concat.simps(2) concat_append list.simps(9) map_append)
  moreover have "length (addr_bits (take k as)) = 8 * k" using assms(1) by simp
  ultimately show ?thesis using assms(2) by simp
qed

lemma c_memcmp_zero_iff:
  "n \<le> length as \<Longrightarrow> n \<le> length bs \<Longrightarrow> c_memcmp as bs n = 0 \<longleftrightarrow> take n as = take n bs"
proof (induction as bs n rule: c_memcmp.induct)
  case (1 x xs y ys n)
  then show ?case by auto
qed auto

lemma nth_byte_bits: "i < 8 \<Longrightarrow> byte_bits b ! i = bit b (7 - i)"
  by (simp add: byte_bits_def rev_nth)

lemma bit_ff: "bit (0xff :: 8 word) k \<longleftrightarrow> k < 8"
proof -
  have "bit (-1 :: 8 word) k \<longleftrightarrow> k < 8" by (simp add: bit_simps)
  moreover have "(0xff :: 8 word) = -1" by simp
  ultimately show ?thesis by metis
qed

lemma bit_prefix_mask:
  "0 < n \<Longrightarrow> bit (push_bit (8 - n) (0xff :: 8 word)) i \<longleftrightarrow> 8 - n \<le> i \<and> i < 8"
  unfolding bit_push_bit_iff bit_ff by auto

lemma masked_eq_iff:
  assumes "0 < n" and "n < 8"
  shows "(a AND push_bit (8 - n) 0xff = b AND push_bit (8 - n) (0xff :: 8 word)) \<longleftrightarrow>
         take n (byte_bits a) = take n (byte_bits b)"
proof -
  have "(a AND push_bit (8 - n) 0xff = b AND push_bit (8 - n) (0xff :: 8 word)) \<longleftrightarrow>
      (\<forall>i. (bit a i \<and> 8 - n \<le> i \<and> i < 8) = (bit b i \<and> 8 - n \<le> i \<and> i < 8))"
    unfolding bit_eq_iff bit_and_iff bit_prefix_mask [OF assms(1)] by auto
  also have "\<dots> \<longleftrightarrow> (\<forall>i. 8 - n \<le> i \<and> i < 8 \<longrightarrow> bit a i = bit b i)" by blast
  also have "\<dots> \<longleftrightarrow> (\<forall>i < n. bit a (7 - i) = bit b (7 - i))"
  proof
    assume h: "\<forall>i < n. bit a (7 - i) = bit b (7 - i)"
    show "\<forall>i. 8 - n \<le> i \<and> i < 8 \<longrightarrow> bit a i = bit b i"
    proof (intro allI impI)
      fix i assume "8 - n \<le> i \<and> i < 8"
      then have "7 - i < n" "7 - (7 - i) = i" using assms by linarith+
      then show "bit a i = bit b i" using h [rule_format, of "7 - i"] by simp
    qed
  next
    assume h: "\<forall>i. 8 - n \<le> i \<and> i < 8 \<longrightarrow> bit a i = bit b i"
    show "\<forall>i < n. bit a (7 - i) = bit b (7 - i)"
    proof (intro allI impI)
      fix i assume "i < n"
      then have "8 - n \<le> 7 - i \<and> 7 - i < 8" using assms by linarith
      then show "bit a (7 - i) = bit b (7 - i)" using h by blast
    qed
  qed
  also have "\<dots> \<longleftrightarrow> take n (byte_bits a) = take n (byte_bits b)"
    using assms(2) by (simp add: list_eq_iff_nth_eq nth_byte_bits)
  finally show ?thesis .
qed

lemma addr_ncmp_prefix:
  assumes "length as = length bs" and "n \<le> 8 * length as" and "length as < 256"
  shows "addr_ncmp as bs n = 0 \<longleftrightarrow> take n (addr_bits as) = take n (addr_bits bs)"
proof -
  define k where "k = n div 8"
  define j where "j = n mod 8"
  have n: "n = 8 * k + j" and j: "j < 8" by (simp_all add: k_def j_def)
  have k: "k \<le> length as" and k256: "k mod 256 = k" using assms(2,3) n by auto
  have mem: "c_memcmp as bs k = 0 \<longleftrightarrow> take k as = take k bs" using c_memcmp_zero_iff k assms(1) by metis
  show ?thesis
  proof (cases "j = 0")
    case True
    have "take n (addr_bits xs) = addr_bits (take k xs)" if "k \<le> length xs" for xs
    proof -
      have "addr_bits xs = addr_bits (take k xs) @ addr_bits (drop k xs)"
        by (metis addr_bits_def append_take_drop_id concat_append map_append)
      moreover have "length (addr_bits (take k xs)) = n" using that True n by simp
      ultimately show ?thesis by (metis append_eq_conv_conj)
    qed
    then show ?thesis
      using True k mem assms(1) k256 addr_bits_inj [of "take k as" "take k bs"]
      by (simp add: addr_ncmp_def Let_def k_def [symmetric] j_def [symmetric])
  next
    case False
    then have kl: "k < length as" using k n assms(2) by linarith
    let ?m = "push_bit (8 - j) (0xff :: 8 word)"
    have "take n (addr_bits as) = take n (addr_bits bs) \<longleftrightarrow>
        take k as = take k bs \<and> take j (byte_bits (as ! k)) = take j (byte_bits (bs ! k))"
      using kl assms(1) j addr_bits_inj [of "take k as" "take k bs"] unfolding n
      by (simp add: take_addr_bits append_eq_append_conv)
    moreover have "addr_ncmp as bs n = 0 \<longleftrightarrow>
        take k as = take k bs \<and> as ! k AND ?m = bs ! k AND ?m"
      using False mem k256 by (auto simp: addr_ncmp_def Let_def k_def [symmetric] j_def [symmetric])
    ultimately show ?thesis using masked_eq_iff [of j] False j by simp
  qed
qed

text \<open>What the code takes two addresses to be before it compares them: their bytes, or the IPv4 addresses
  when one is an IPv4 address and the other one IPv4-mapped.\<close>

definition v4_form :: "pr_netaddr_t \<Rightarrow> bytes option" where
  "v4_form n = (case na_family n of
     AF_INET \<Rightarrow> Some (na_v4 n)
   | AF_INET6 \<Rightarrow> if in6_is_v4mapped (na_v6 n) then Some (drop 12 (na_v6 n)) else None
   | AF_UNSPEC \<Rightarrow> None)"

definition common_form :: "pr_netaddr_t \<Rightarrow> pr_netaddr_t \<Rightarrow> (bytes \<times> bytes) option" where
  "common_form n1 n2 =
     (if na_family n1 = AF_INET6 \<and> na_family n2 = AF_INET6 then Some (na_v6 n1, na_v6 n2)
      else case (v4_form n1, v4_form n2) of (Some a, Some b) \<Rightarrow> Some (a, b) | _ \<Rightarrow> None)"

definition netaddr_ok :: "pr_netaddr_t \<Rightarrow> bool" where
  "netaddr_ok n \<longleftrightarrow> length (na_v4 n) = 4 \<and> length (na_v6 n) = 16 \<and> na_family n \<noteq> AF_UNSPEC"

lemma v6tov4_v4_form:
  "pr_netaddr_v6tov4 True (Some n) =
     (if na_family n = AF_INET6 \<and> in6_is_v4mapped (na_v6 n)
      then Inr (zero_netaddr\<lparr>na_family := AF_INET, na_port := na_port n mod 2 ^ 16, na_v4 := drop 12 (na_v6 n)\<rparr>)
      else Inl EPERM)"
  by (simp add: pr_netaddr_v6tov4_def pr_netaddr_is_v4mappedv6_def pr_netaddr_get_port_def get_v4inaddr_def
      split: family.split)

lemma same_form_common:
  assumes "netaddr_ok n1" and "netaddr_ok n2"
  shows "case same_form True n1 n2 of
      Inl _ \<Rightarrow> common_form n1 n2 = None
    | Inr (a, b) \<Rightarrow> na_family a \<noteq> AF_UNSPEC \<and>
        common_form n1 n2 = Some (if na_family a = AF_INET then (na_v4 a, na_v4 b) else (na_v6 a, na_v6 b)) \<and>
        (na_family a = AF_INET \<longrightarrow> length (na_v4 a) = 4 \<and> length (na_v4 b) = 4) \<and>
        (na_family a = AF_INET6 \<longrightarrow> length (na_v6 a) = 16 \<and> length (na_v6 b) = 16)"
  using assms
  by (cases "na_family n1"; cases "na_family n2")
    (auto simp: same_form_def v6tov4_v4_form common_form_def v4_form_def netaddr_ok_def)

lemma ncmp_zero_prefix:
  assumes "netaddr_ok n1" and "netaddr_ok n2"
  shows "pr_netaddr_ncmp True (Some n1) (Some n2) bitlen = 0 \<longleftrightarrow>
    (\<exists>a b. common_form n1 n2 = Some (a, b) \<and> bitlen \<le> 8 * length a \<and>
       take bitlen (addr_bits a) = take bitlen (addr_bits b))"
  using same_form_common [OF assms]
  by (cases "same_form True n1 n2"; cases "na_family (fst (projr (same_form True n1 n2)))")
    (auto simp: pr_netaddr_ncmp_def addr_ncmp_prefix split: if_splits)

section \<open>Properties\<close>


definition demo_v4 :: "8 word \<Rightarrow> 8 word \<Rightarrow> 8 word \<Rightarrow> 8 word \<Rightarrow> pr_netaddr_t" where
  "demo_v4 a b c d = zero_netaddr\<lparr>na_family := AF_INET, na_v4 := [a, b, c, d]\<rparr>"

lemma demo_v4_ok: "netaddr_ok (demo_v4 a b c d)"
  by (simp add: demo_v4_def netaddr_ok_def zero_netaddr_def)


lemma high_nibble:
  fixes b :: "8 word"
  shows "b AND push_bit 4 0xff = 16 \<longleftrightarrow> 16 \<le> b \<and> b \<le> 31"
proof -
  have e: "b AND push_bit 4 0xff = push_bit 4 (drop_bit 4 b)"
  proof (rule bit_word_eqI)
    fix i :: nat
    show "bit (b AND push_bit 4 0xff) i = bit (push_bit 4 (drop_bit 4 b)) i" if "i < LENGTH(8)"
      unfolding bit_and_iff bit_push_bit_iff bit_ff bit_drop_bit_eq using that by auto
  qed
  have lt: "unat b < 256" using unsigned_less [where 'a = nat, of b] by simp
  have "unat (push_bit 4 (drop_bit 4 b)) = unat b div 16 * 16"
    using lt by (simp add: push_bit_eq_mult drop_bit_eq_div unat_word_ariths unat_div)
  then have "b AND push_bit 4 0xff = 16 \<longleftrightarrow> unat b div 16 * 16 = 16"
    unfolding e by (simp add: word_unat_eq_iff)
  also have "\<dots> \<longleftrightarrow> 16 \<le> unat b \<and> unat b \<le> 31" by presburger
  also have "\<dots> \<longleftrightarrow> 16 \<le> b \<and> b \<le> 31" by (simp add: word_le_nat_alt)
  finally show ?thesis .
qed

lemma v4_private:
  assumes "length bs = 4"
  shows "(is_192_168_xx_addr bs = 0 \<or> is_172_16_xx_addr bs = 0 \<or> is_10_xxx_addr bs = 0) \<longleftrightarrow>
    bs ! 0 = 10 \<or> (bs ! 0 = 172 \<and> 16 \<le> bs ! 1 \<and> bs ! 1 \<le> 31) \<or> (bs ! 0 = 192 \<and> bs ! 1 = 168)"
proof -
  have "length bs = Suc (Suc (Suc (Suc 0)))" using assms by simp
  then obtain a b c d where bs: "bs = [a, b, c, d]" by (auto simp only: length_Suc_conv length_0_conv)
  have "is_10_xxx_addr bs = 0 \<longleftrightarrow> a = 10"
    by (simp add: is_10_xxx_addr_def addr_ncmp_def bs)
  moreover have "is_192_168_xx_addr bs = 0 \<longleftrightarrow> a = 192 \<and> b = 168"
    by (simp add: is_192_168_xx_addr_def addr_ncmp_def bs numeral_2_eq_2)
  moreover have "is_172_16_xx_addr bs = 0 \<longleftrightarrow> a = 172 \<and> b AND push_bit 4 0xff = 16"
    by (auto simp: is_172_16_xx_addr_def addr_ncmp_def bs Let_def)
  ultimately show ?thesis unfolding high_nibble by (auto simp: bs)
qed

text \<open>\<open>pr_netaddr_is_rfc1918\<close> holds of exactly the private addresses: \<open>10.0.0.0/8\<close>, \<open>172.16.0.0\<close> to
  \<open>172.31.255.255\<close> and \<open>192.168.0.0/16\<close>, as IPv4 addresses and as IPv4-mapped ones.\<close>

theorem pr_netaddr_is_rfc1918_private:
  assumes "netaddr_ok n"
  shows "pr_netaddr_is_rfc1918 True (Some n) = Inr (case v4_form n of
     None \<Rightarrow> False
   | Some bs \<Rightarrow> bs ! 0 = 10 \<or> (bs ! 0 = 172 \<and> 16 \<le> bs ! 1 \<and> bs ! 1 \<le> 31) \<or> (bs ! 0 = 192 \<and> bs ! 1 = 168))"
  using assms v4_private [of "na_v4 n"] v4_private [of "drop 12 (na_v6 n)"]
  by (cases "na_family n")
    (auto simp: pr_netaddr_is_rfc1918_def v4_form_def v6tov4_v4_form v4_is_rfc1918_def pr_netaddr_get_addrno_def
      netaddr_ok_def Let_def)

theorem pr_netaddr_is_rfc1918_private_witness:
  "netaddr_ok (demo_v4 172 31 9 9) \<and> pr_netaddr_is_rfc1918 True (Some (demo_v4 172 31 9 9)) = Inr True"
  using pr_netaddr_is_rfc1918_private [OF demo_v4_ok, of 172 31 9 9] demo_v4_ok
  by (simp add: v4_form_def demo_v4_def)

end
