(* ===== verification/Netacl.thy ===== *)
theory Netacl
  imports Netaddr
begin

text \<open>
  Network access rules, \<open>src/netacl.c\<close>, and the classes of clients built from them, \<open>src/class.c\<close>.
  What the rules need from elsewhere is collected in \<open>netenv\<close>: name resolution (\<open>pr_netaddr_get_addr\<close>), the
  printed and the DNS form of an address, the pattern matcher \<open>pr_fnmatch\<close>, and the two settings
  \<open>use_ipv6\<close> and \<open>ServerUseReverseDNS\<close>.
\<close>

section \<open>Rules\<close>

datatype pr_netacl_type_t =
    PR_NETACL_TYPE_ALL
  | PR_NETACL_TYPE_NONE
  | PR_NETACL_TYPE_IPMASK
  | PR_NETACL_TYPE_IPMATCH
  | PR_NETACL_TYPE_DNSMATCH
  | PR_NETACL_TYPE_IPGLOB
  | PR_NETACL_TYPE_DNSGLOB

record pr_netacl_t =
  acl_type :: pr_netacl_type_t
  acl_aclstr :: string
  acl_pattern :: "string option"
  acl_negated :: bool
  acl_addr :: "pr_netaddr_t option"
  acl_masklen :: nat

record netenv =
  ne_use_ipv6 :: bool
  ne_reverse_dns :: bool
  ne_getaddr :: "string \<Rightarrow> pr_netaddr_t result"
  ne_ipstr :: "pr_netaddr_t \<Rightarrow> string"
  ne_dnsstr :: "pr_netaddr_t \<Rightarrow> string"
  ne_fnmatch :: "string \<Rightarrow> string \<Rightarrow> bool"

text \<open>The code that follows each test of \<open>pr_netacl_match\<close>.\<close>

definition acl_verdict :: "bool \<Rightarrow> bool \<Rightarrow> int" where
  "acl_verdict matched negated =
     (if matched then (if negated then -1 else 1) else (if negated then 1 else 0))"

definition acl_fnmatch :: "netenv \<Rightarrow> pr_netaddr_t \<Rightarrow> string option \<Rightarrow> 8 word \<Rightarrow> bool" where
  "acl_fnmatch env na pattern flags =
     (pr_netaddr_fnmatch (ne_fnmatch env) (ne_ipstr env) (ne_dnsstr env) (ne_use_ipv6 env) (Some na) pattern flags
        = Inr True)"

text \<open>A \<open>DNSMATCH\<close> rule compares with the pattern by \<open>strcmp\<close>, which must not be \<open>NULL\<close>: \<open>pr_netacl_create\<close>
  always sets it.\<close>

definition pr_netacl_match :: "netenv \<Rightarrow> pr_netacl_t option \<Rightarrow> pr_netaddr_t option \<Rightarrow> int" where
  "pr_netacl_match env acl na =
     (case (acl, na) of
        (Some a, Some n) \<Rightarrow>
          (case acl_type a of
             PR_NETACL_TYPE_ALL \<Rightarrow> 1
           | PR_NETACL_TYPE_NONE \<Rightarrow> -1
           | PR_NETACL_TYPE_IPMASK \<Rightarrow>
               acl_verdict (pr_netaddr_ncmp (ne_use_ipv6 env) na (acl_addr a) (acl_masklen a) = 0) (acl_negated a)
           | PR_NETACL_TYPE_IPMATCH \<Rightarrow>
               acl_verdict (pr_netaddr_cmp (ne_use_ipv6 env) na (acl_addr a) = 0) (acl_negated a)
           | PR_NETACL_TYPE_DNSMATCH \<Rightarrow>
               acl_verdict (acl_pattern a = Some (ne_dnsstr env n)) (acl_negated a)
           | PR_NETACL_TYPE_IPGLOB \<Rightarrow>
               acl_verdict (acl_fnmatch env n (acl_pattern a) PR_NETADDR_MATCH_IP) (acl_negated a)
           | PR_NETACL_TYPE_DNSGLOB \<Rightarrow>
               (if ne_reverse_dns env
                then acl_verdict (acl_fnmatch env n (acl_pattern a) PR_NETADDR_MATCH_DNS) (acl_negated a)
                else 0))
      | _ \<Rightarrow> -2)"

section \<open>Parsing a rule\<close>

text \<open>The leading exclamation mark.\<close>

definition strip_not :: "string \<Rightarrow> bool \<times> string" where
  "strip_not s = (case s of c # cs \<Rightarrow> if c = CHR ''!'' then (True, cs) else (False, s) | [] \<Rightarrow> (False, s))"

definition blank_acl :: pr_netacl_t where
  "blank_acl = \<lparr>acl_type = PR_NETACL_TYPE_ALL, acl_aclstr = [], acl_pattern = None, acl_negated = False,
                acl_addr = None, acl_masklen = 0\<rparr>"

text \<open>\<open>strspn(s, set) == strlen(s)\<close> and \<open>strpbrk(s, set) != NULL\<close>.\<close>

definition only_chars :: "string \<Rightarrow> string \<Rightarrow> bool" where
  "only_chars chars s \<longleftrightarrow> (\<forall>c \<in> set s. c \<in> set chars)"

definition any_char :: "string \<Rightarrow> string \<Rightarrow> bool" where
  "any_char chars s \<longleftrightarrow> (\<exists>c \<in> set s. c \<in> set chars)"

definition glob_chars :: string where "glob_chars = ''{[*?''"
definition hex_letters :: string where "hex_letters = ''AaBbCcDdEeFf''"

text \<open>The loops that look for a letter; with IPv6 in use hexadecimal digits do not count.\<close>

definition has_dns_letter :: "bool \<Rightarrow> string \<Rightarrow> bool" where
  "has_dns_letter use_ipv6 s \<longleftrightarrow>
     (\<exists>c \<in> set s. c_isalpha c \<and> \<not> (use_ipv6 \<and> c \<in> set hex_letters))"

text \<open>A rule with a slash: an address and a number of bits.\<close>

definition create_ipmask :: "netenv \<Rightarrow> string \<Rightarrow> pr_netacl_t result" where
  "create_ipmask env aclstr =
     (let before = takeWhile (\<lambda>c. c \<noteq> CHR ''/'') aclstr;
          mask = tl (dropWhile (\<lambda>c. c \<noteq> CHR ''/'') aclstr);
          (neg, s) = strip_not before
      in if \<not> only_chars ''0123456789ABCDEFabcdef.:'' s then Inl EINVAL
         else
           (case ne_getaddr env s of
              Inl e \<Rightarrow> Inl e
            | Inr a \<Rightarrow>
                (let (n, rest) = c_strtol10 mask; masklen = to_uint n in
                 if rest \<noteq> [] then Inl EINVAL
                 else if na_family a = AF_INET \<and> masklen > 32 then Inl EINVAL
                 else if na_family a = AF_INET6 \<and> ne_use_ipv6 env \<and> masklen > 128 then Inl EINVAL
                 else Inr (blank_acl\<lparr>acl_type := PR_NETACL_TYPE_IPMASK, acl_negated := neg, acl_addr := Some a,
                                     acl_masklen := masklen\<rparr>))))"

text \<open>The tail that several branches share: a glob, a domain suffix or a name.\<close>

definition create_dns :: "string \<Rightarrow> bool \<Rightarrow> bool \<Rightarrow> pr_netacl_t" where
  "create_dns s neg glob =
     (if glob then
        blank_acl\<lparr>acl_type := PR_NETACL_TYPE_DNSGLOB, acl_negated := neg, acl_pattern := Some s\<rparr>
      else if take 1 s = ''.'' then
        blank_acl\<lparr>acl_type := PR_NETACL_TYPE_DNSGLOB, acl_negated := neg, acl_pattern := Some (CHR ''*'' # s)\<rparr>
      else
        blank_acl\<lparr>acl_type := PR_NETACL_TYPE_DNSMATCH, acl_negated := neg, acl_pattern := Some s\<rparr>)"

text \<open>A rule with characters that no address has.\<close>

definition create_name :: "netenv \<Rightarrow> string \<Rightarrow> pr_netacl_t" where
  "create_name env aclstr =
     (let (neg, s) = strip_not aclstr in
      if any_char glob_chars s then
        blank_acl\<lparr>acl_type := (if has_dns_letter (ne_use_ipv6 env) s then PR_NETACL_TYPE_DNSGLOB
                               else PR_NETACL_TYPE_IPGLOB),
                  acl_negated := neg, acl_pattern := Some s\<rparr>
      else create_dns s neg False)"

text \<open>A rule of address characters with a dot in it. A glob of that kind gets no pattern.\<close>

definition create_address :: "netenv \<Rightarrow> string \<Rightarrow> pr_netacl_t result" where
  "create_address env aclstr =
     (let (neg, s) = strip_not aclstr in
      if s \<noteq> [] \<and> last s = CHR ''.'' then
        Inr (blank_acl\<lparr>acl_type := PR_NETACL_TYPE_IPGLOB, acl_negated := neg, acl_pattern := Some (s @ ''*'')\<rparr>)
      else if \<not> has_dns_letter (ne_use_ipv6 env) s then
        (case ne_getaddr env s of
           Inl e \<Rightarrow> Inl e
         | Inr a \<Rightarrow>
             Inr (blank_acl\<lparr>acl_type := (if any_char glob_chars s then PR_NETACL_TYPE_IPGLOB
                                         else PR_NETACL_TYPE_IPMATCH),
                            acl_negated := neg, acl_addr := Some a\<rparr>))
      else Inr (create_dns s neg (any_char glob_chars s)))"

definition pr_netacl_create :: "netenv \<Rightarrow> bool \<Rightarrow> string option \<Rightarrow> pr_netacl_t result" where
  "pr_netacl_create env have_pool aclstr =
     (case aclstr of
        None \<Rightarrow> Inl EINVAL
      | Some s \<Rightarrow>
          (if \<not> have_pool \<or> s = [] then Inl EINVAL
           else if c_strncaseeq s ''all'' 4 then
             Inr (blank_acl\<lparr>acl_type := PR_NETACL_TYPE_ALL, acl_aclstr := ''all''\<rparr>)
           else if c_strncaseeq s ''none'' 5 then
             Inr (blank_acl\<lparr>acl_type := PR_NETACL_TYPE_NONE, acl_aclstr := ''none''\<rparr>)
           else
             map_sum id (\<lambda>a. a\<lparr>acl_aclstr := s\<rparr>)
               (if CHR ''/'' \<in> set s then create_ipmask env s
                else if ne_use_ipv6 env \<and> \<not> only_chars ''0123456789ABCDEFabcdef.:!'' s then Inr (create_name env s)
                else if CHR ''.'' \<notin> set s then
                  (let (neg, t) = strip_not s in Inr (create_dns t neg (any_char glob_chars t)))
                else create_address env s)))"

definition acl_dup_addr :: "bool \<Rightarrow> pr_netaddr_t \<Rightarrow> pr_netaddr_t" where
  "acl_dup_addr use_ipv6 n =
     (let na1 = snd (pr_netaddr_set_family use_ipv6 (Some zero_netaddr) (na_family n));
          sa = (case pr_netaddr_get_sockaddr use_ipv6 (Some n) of Inr s \<Rightarrow> Some s | Inl _ \<Rightarrow> None)
      in the (snd (pr_netaddr_set_sockaddr use_ipv6 na1 sa)))"

definition pr_netacl_dup :: "netenv \<Rightarrow> bool \<Rightarrow> pr_netacl_t option \<Rightarrow> pr_netacl_t result" where
  "pr_netacl_dup env have_pool acl =
     (case acl of
        None \<Rightarrow> Inl EINVAL
      | Some a \<Rightarrow>
          (if \<not> have_pool then Inl EINVAL
           else Inr \<lparr>acl_type = acl_type a, acl_aclstr = acl_aclstr a, acl_pattern = acl_pattern a,
                     acl_negated = acl_negated a,
                     acl_addr = map_option (acl_dup_addr (ne_use_ipv6 env)) (acl_addr a),
                     acl_masklen = acl_masklen a\<rparr>))"

definition pr_netacl_get_negated :: "pr_netacl_t option \<Rightarrow> bool result" where
  "pr_netacl_get_negated acl = (case acl of None \<Rightarrow> Inl EINVAL | Some a \<Rightarrow> Inr (acl_negated a))"

definition pr_netacl_get_str :: "bool \<Rightarrow> pr_netacl_t option \<Rightarrow> string result" where
  "pr_netacl_get_str have_pool acl =
     (case acl of
        None \<Rightarrow> Inl EINVAL
      | Some a \<Rightarrow>
          (if \<not> have_pool then Inl EINVAL
           else
             (let pat = (case acl_pattern a of Some p \<Rightarrow> p | None \<Rightarrow> []);
                  fin = (if acl_negated a then '', inverted>'' else ''>'')
              in Inr (case acl_type a of
                   PR_NETACL_TYPE_ALL \<Rightarrow> acl_aclstr a @ '' <all>''
                 | PR_NETACL_TYPE_NONE \<Rightarrow> acl_aclstr a @ '' <none>''
                 | PR_NETACL_TYPE_IPMASK \<Rightarrow>
                     acl_aclstr a @ '' <IP address mask, '' @ dec_digits (acl_masklen a) @ ''-bit mask'' @ fin
                 | PR_NETACL_TYPE_IPMATCH \<Rightarrow> acl_aclstr a @ '' <IP address match'' @ fin
                 | PR_NETACL_TYPE_DNSMATCH \<Rightarrow> acl_aclstr a @ '' <DNS hostname match'' @ fin
                 | PR_NETACL_TYPE_IPGLOB \<Rightarrow> pat @ '' <IP address glob'' @ fin
                 | PR_NETACL_TYPE_DNSGLOB \<Rightarrow> pat @ '' <DNS hostname glob'' @ fin))))"

section \<open>Classes\<close>

text \<open>A class that has been closed has its rules followed by a \<open>NULL\<close>; one that is being defined may have
  no array yet.\<close>

record pr_class_t =
  cls_name :: string
  cls_satisfy :: int
  cls_acls :: "pr_netacl_t option list option"

record class_state =
  class_list :: "pr_class_t list"
  curr_cls :: "pr_class_t option"

abbreviation PR_CLASS_SATISFY_ANY :: int where "PR_CLASS_SATISFY_ANY \<equiv> 0"
abbreviation PR_CLASS_SATISFY_ALL :: int where "PR_CLASS_SATISFY_ALL \<equiv> 1"

text \<open>The loop over the rules of one class: \<open>Inl\<close> is the \<open>return cls\<close> inside it, \<open>Inr\<close> the final value of
  \<open>next_class\<close> and whether the loop reached the end of the array.\<close>

fun class_loop ::
  "netenv \<Rightarrow> pr_netaddr_t \<Rightarrow> int \<Rightarrow> pr_netacl_t option list \<Rightarrow> bool \<Rightarrow> unit + bool \<times> bool" where
  "class_loop env na satisfy [] next_class = Inr (next_class, True)"
| "class_loop env na satisfy (acl # acls) next_class =
     (if next_class then Inr (next_class, False)
      else
        (case acl of
           None \<Rightarrow> class_loop env na satisfy acls next_class
         | Some a \<Rightarrow>
             (if satisfy = PR_CLASS_SATISFY_ANY then
                (if pr_netacl_match env (Some a) (Some na) = 1 then Inl ()
                 else class_loop env na satisfy acls next_class)
              else if satisfy = PR_CLASS_SATISFY_ALL then
                class_loop env na satisfy acls (pr_netacl_match env (Some a) (Some na) \<le> 0)
              else class_loop env na satisfy acls next_class)))"

definition class_matches :: "netenv \<Rightarrow> pr_netaddr_t \<Rightarrow> pr_class_t \<Rightarrow> bool" where
  "class_matches env na cls =
     (case class_loop env na (cls_satisfy cls) (the (cls_acls cls)) False of
        Inl _ \<Rightarrow> True
      | Inr (next_class, at_end) \<Rightarrow> \<not> next_class \<and> cls_satisfy cls = PR_CLASS_SATISFY_ALL \<and> at_end)"

fun class_search :: "netenv \<Rightarrow> pr_netaddr_t \<Rightarrow> pr_class_t list \<Rightarrow> pr_class_t result" where
  "class_search env na [] = Inl ENOENT"
| "class_search env na (cls # rest) = (if class_matches env na cls then Inr cls else class_search env na rest)"

definition pr_class_match_addr :: "netenv \<Rightarrow> class_state \<Rightarrow> pr_netaddr_t option \<Rightarrow> pr_class_t result" where
  "pr_class_match_addr env st na =
     (case na of None \<Rightarrow> Inl EINVAL | Some n \<Rightarrow> class_search env n (class_list st))"

fun class_by_name :: "string \<Rightarrow> pr_class_t list \<Rightarrow> pr_class_t result" where
  "class_by_name name [] = Inl ENOENT"
| "class_by_name name (cls # rest) = (if cls_name cls = name then Inr cls else class_by_name name rest)"

definition pr_class_find :: "class_state \<Rightarrow> string option \<Rightarrow> pr_class_t result" where
  "pr_class_find st name =
     (case name of None \<Rightarrow> Inl EINVAL | Some n \<Rightarrow> class_by_name n (class_list st))"

definition pr_class_add_acl :: "netenv \<Rightarrow> class_state \<Rightarrow> pr_netacl_t option \<Rightarrow> unit result \<times> class_state" where
  "pr_class_add_acl env st acl =
     (case acl of
        None \<Rightarrow> (Inl EINVAL, st)
      | Some a \<Rightarrow>
          (case curr_cls st of
             None \<Rightarrow> (Inl EPERM, st)
           | Some cls \<Rightarrow>
               (let acls = (case cls_acls cls of None \<Rightarrow> [] | Some l \<Rightarrow> l);
                    d = (case pr_netacl_dup env True acl of Inr d \<Rightarrow> Some d | Inl _ \<Rightarrow> None)
                in (Inr (), st\<lparr>curr_cls := Some (cls\<lparr>cls_acls := Some (acls @ [d])\<rparr>)\<rparr>))))"

definition pr_class_set_satisfy :: "class_state \<Rightarrow> int \<Rightarrow> unit result \<times> class_state" where
  "pr_class_set_satisfy st satisfy =
     (case curr_cls st of
        None \<Rightarrow> (Inl EPERM, st)
      | Some cls \<Rightarrow>
          (if satisfy \<noteq> PR_CLASS_SATISFY_ANY \<and> satisfy \<noteq> PR_CLASS_SATISFY_ALL then (Inl EINVAL, st)
           else (Inr (), st\<lparr>curr_cls := Some (cls\<lparr>cls_satisfy := satisfy\<rparr>)\<rparr>)))"

definition pr_class_open :: "class_state \<Rightarrow> bool \<Rightarrow> string option \<Rightarrow> unit result \<times> class_state" where
  "pr_class_open st have_pool name =
     (case name of
        None \<Rightarrow> (Inl EINVAL, st)
      | Some n \<Rightarrow>
          (if \<not> have_pool then (Inl EINVAL, st)
           else (Inr (), st\<lparr>curr_cls := Some \<lparr>cls_name = n, cls_satisfy = PR_CLASS_SATISFY_ANY, cls_acls = None\<rparr>\<rparr>)))"

definition pr_class_close :: "class_state \<Rightarrow> unit result \<times> class_state" where
  "pr_class_close st =
     (case curr_cls st of
        None \<Rightarrow> (Inr (), st)
      | Some cls \<Rightarrow>
          (case cls_acls cls of
             None \<Rightarrow> (Inl EINVAL, st\<lparr>curr_cls := None\<rparr>)
           | Some acls \<Rightarrow>
               (Inr (), st\<lparr>class_list := class_list st @ [cls\<lparr>cls_acls := Some (acls @ [None])\<rparr>],
                           curr_cls := None\<rparr>)))"

definition init_class :: "class_state \<Rightarrow> class_state" where
  "init_class st = st\<lparr>class_list := []\<rparr>"

section \<open>Copies of rules\<close>

lemma acl_dup_addr_ok:
  assumes "netaddr_ok n"
  shows "na_family (acl_dup_addr True n) = na_family n" "na_family n = AF_INET \<Longrightarrow> na_v4 (acl_dup_addr True n) = na_v4 n"
    "na_family n = AF_INET6 \<Longrightarrow> na_v6 (acl_dup_addr True n) = na_v6 n"
  using assms
  by (auto simp: acl_dup_addr_def pr_netaddr_set_family_def pr_netaddr_get_sockaddr_def pr_netaddr_set_sockaddr_def
      netaddr_ok_def zero_netaddr_def Let_def split: family.splits)

text \<open>Comparison reads only the family and the bytes of that family.\<close>

lemma same_form_dup:
  assumes "netaddr_ok n"
  shows "pr_netaddr_cmp True (Some m) (Some (acl_dup_addr True n)) = pr_netaddr_cmp True (Some m) (Some n)"
    "pr_netaddr_ncmp True (Some m) (Some (acl_dup_addr True n)) k = pr_netaddr_ncmp True (Some m) (Some n) k"
  using acl_dup_addr_ok [OF assms] assms
  by (cases "na_family n"; cases "na_family m";
      auto simp: pr_netaddr_cmp_def pr_netaddr_ncmp_def same_form_def v6tov4_v4_form netaddr_ok_def)+

definition acl_ok :: "pr_netacl_t \<Rightarrow> bool" where
  "acl_ok a \<longleftrightarrow> (case acl_addr a of None \<Rightarrow> True | Some n \<Rightarrow> netaddr_ok n)"

lemma dup_matches:
  assumes "ne_use_ipv6 env" and "acl_ok a" and "pr_netacl_dup env True (Some a) = Inr d"
  shows "pr_netacl_match env (Some d) (Some na) = pr_netacl_match env (Some a) (Some na)"
proof -
  have d: "acl_type d = acl_type a" "acl_pattern d = acl_pattern a" "acl_negated d = acl_negated a"
    "acl_masklen d = acl_masklen a" "acl_addr d = map_option (acl_dup_addr True) (acl_addr a)"
    using assms(1,3) by (auto simp: pr_netacl_dup_def)
  have "pr_netaddr_cmp True (Some na) (acl_addr d) = pr_netaddr_cmp True (Some na) (acl_addr a)"
    "pr_netaddr_ncmp True (Some na) (acl_addr d) k = pr_netaddr_ncmp True (Some na) (acl_addr a) k" for k
    using assms(2) same_form_dup unfolding d(5) acl_ok_def by (cases "acl_addr a"; simp)+
  then show ?thesis using assms(1) d by (cases "acl_type a") (simp_all add: pr_netacl_match_def)
qed

lemma match_range: "pr_netacl_match env (Some a) (Some na) \<in> {-1, 0, 1}"
  by (auto simp: pr_netacl_match_def acl_verdict_def split: pr_netacl_type_t.splits)

section \<open>Matching a class\<close>

definition rules_match :: "netenv \<Rightarrow> pr_netaddr_t \<Rightarrow> int \<Rightarrow> pr_netacl_t list \<Rightarrow> bool" where
  "rules_match env na satisfy acls \<longleftrightarrow>
     (if satisfy = PR_CLASS_SATISFY_ANY then \<exists>a \<in> set acls. pr_netacl_match env (Some a) (Some na) = 1
      else satisfy = PR_CLASS_SATISFY_ALL \<and> (\<forall>a \<in> set acls. pr_netacl_match env (Some a) (Some na) = 1))"

lemma class_loop_any:
  "class_loop env na 0 acls False =
     (if \<exists>a. Some a \<in> set acls \<and> pr_netacl_match env (Some a) (Some na) = 1 then Inl () else Inr (False, True))"
  by (induction acls) (auto split: option.splits)

lemma class_loop_all:
  "\<exists>e. class_loop env na 1 acls False =
     (if \<forall>a. Some a \<in> set acls \<longrightarrow> pr_netacl_match env (Some a) (Some na) = 1 then Inr (False, True)
      else Inr (True, e))"
proof (induction acls)
  case (Cons acl acls)
  have stop: "class_loop env na 1 acls True = Inr (True, acls = [])" by (cases acls) auto
  show ?case
  proof (cases acl)
    case None
    then show ?thesis using Cons by simp
  next
    case (Some a)
    show ?thesis
    proof (cases "pr_netacl_match env (Some a) (Some na) = 1")
      case True
      then show ?thesis using Cons Some by simp
    next
      case False
      then have "pr_netacl_match env (Some a) (Some na) \<le> 0" using match_range [of env a na] by auto
      then show ?thesis using Some stop False by auto
    qed
  qed
qed simp

lemma class_matches_rules:
  assumes "cls_acls cls = Some (map Some acls @ [None])"
    and "cls_satisfy cls = PR_CLASS_SATISFY_ANY \<or> cls_satisfy cls = PR_CLASS_SATISFY_ALL"
  shows "class_matches env na cls = rules_match env na (cls_satisfy cls) acls"
proof (cases "cls_satisfy cls = PR_CLASS_SATISFY_ANY")
  case True
  then show ?thesis
    using assms(1) by (auto simp: class_matches_def class_loop_any rules_match_def)
next
  case False
  then have s: "cls_satisfy cls = 1" using assms(2) by simp
  obtain e where "class_loop env na 1 (map Some acls @ [None]) False =
     (if \<forall>a \<in> set acls. pr_netacl_match env (Some a) (Some na) = 1 then Inr (False, True) else Inr (True, e))"
    using class_loop_all [of env na "map Some acls @ [None]"] by (auto simp: image_iff Ball_def)
  then show ?thesis using s assms(1) by (simp add: class_matches_def rules_match_def)
qed

lemma class_search_append:
  "class_search env na (xs @ ys) = (case class_search env na xs of Inr c \<Rightarrow> Inr c | Inl _ \<Rightarrow> class_search env na ys)"
  by (induction xs) (auto split: sum.splits)

section \<open>Defining a class\<close>

definition add_acls :: "netenv \<Rightarrow> class_state \<Rightarrow> pr_netacl_t list \<Rightarrow> class_state" where
  "add_acls env st acls = foldl (\<lambda>s a. snd (pr_class_add_acl env s (Some a))) st acls"

definition acl_copy :: "netenv \<Rightarrow> pr_netacl_t \<Rightarrow> pr_netacl_t" where
  "acl_copy env a = projr (pr_netacl_dup env True (Some a))"

lemma dup_acl_copy: "pr_netacl_dup env True (Some a) = Inr (acl_copy env a)"
  by (simp add: acl_copy_def pr_netacl_dup_def)

lemma add_acls_ok:
  "curr_cls st = Some cls \<Longrightarrow> acls \<noteq> [] \<Longrightarrow>
   add_acls env st acls = st\<lparr>curr_cls := Some (cls\<lparr>cls_acls :=
      Some ((case cls_acls cls of None \<Rightarrow> [] | Some l \<Rightarrow> l) @ map (Some \<circ> acl_copy env) acls)\<rparr>)\<rparr>"
proof (induction acls arbitrary: st cls)
  case (Cons a acls)
  then show ?case
    by (cases "acls = []") (simp_all add: add_acls_def pr_class_add_acl_def dup_acl_copy Let_def)
qed simp

section \<open>Properties\<close>


definition demo_netenv :: netenv where
  "demo_netenv = \<lparr>ne_use_ipv6 = True, ne_reverse_dns = False,
     ne_getaddr = (\<lambda>s. if s = ''10.0.0.0'' then Inr (demo_v4 10 0 0 0) else Inl ENOENT),
     ne_ipstr = (\<lambda>_. ''?''), ne_dnsstr = (\<lambda>_. ''?''), ne_fnmatch = (\<lambda>p s. p = s)\<rparr>"

definition demo_acl :: pr_netacl_t where
  "demo_acl = blank_acl\<lparr>acl_type := PR_NETACL_TYPE_IPMASK, acl_addr := Some (demo_v4 10 0 0 0), acl_masklen := 8\<rparr>"

definition no_classes :: class_state where
  "no_classes = \<lparr>class_list = [], curr_cls = None\<rparr>"


lemma only_chars_notin: "only_chars chars s \<Longrightarrow> c \<notin> set chars \<Longrightarrow> c \<notin> set s"
  unfolding only_chars_def by blast

lemma c_strncaseeq_mem: "c_strncaseeq s w n \<Longrightarrow> c \<in> set s \<Longrightarrow> length w < n \<Longrightarrow> c_tolower c \<in> c_tolower ` set w"
proof -
  assume h: "c_strncaseeq s w n" and c: "c \<in> set s" and n: "length w < n"
  have m: "map c_tolower (take n s) = map c_tolower w" using h n by (simp add: c_strncaseeq_def c_strcaseeq_def)
  then have "min (length s) n = length w" using map_eq_imp_length_eq [OF m] by simp
  then have "take n s = s" using n by simp
  then have "set (map c_tolower s) = set (map c_tolower w)" using m by simp
  then show ?thesis using c by auto
qed

text \<open>A rule of an address, a slash and a number of bits that fits it is parsed into one that matches
  exactly the addresses of that network; with an exclamation mark in front, it gives a negative match for
  the addresses of the network and a positive one for all others.\<close>

theorem netacl_network_rule:
  assumes "ne_use_ipv6 env" and "s \<noteq> []" and "only_chars ''0123456789ABCDEFabcdef.:'' s" and "ne_getaddr env s = Inr a"
    and "netaddr_ok a" and "netaddr_ok na" and "n \<le> (if na_family a = AF_INET then 32 else 128)"
    and "rule = (if neg then ''!'' else []) @ s @ ''/'' @ dec_digits n"
  shows "\<exists>acl. pr_netacl_create env True (Some rule) = Inr acl \<and>
    pr_netacl_match env (Some acl) (Some na) =
      (if \<exists>x y. common_form na a = Some (x, y) \<and> n \<le> 8 * length x \<and> take n (addr_bits x) = take n (addr_bits y)
       then (if neg then -1 else 1) else (if neg then 1 else 0))"
proof -
  have sl: "CHR ''/'' \<notin> set s" "CHR ''!'' \<notin> set s" using only_chars_notin [OF assms(3)] by simp_all
  let ?b = "(if neg then ''!'' else []) @ s"
  have split: "takeWhile (\<lambda>c. c \<noteq> CHR ''/'') rule = ?b" "tl (dropWhile (\<lambda>c. c \<noteq> CHR ''/'') rule) = dec_digits n"
    "CHR ''/'' \<in> set rule"
    using sl(1) unfolding assms(8) by (auto simp: takeWhile_append dropWhile_append)
  have not: "strip_not ?b = (neg, s)"
    using sl(2) assms(2) by (cases s) (auto simp: strip_not_def)
  have n: "n < 2 ^ 63" "n < 2 ^ 32" using assms(7) by (auto split: if_splits)
  have st: "c_strtol10 (dec_digits n) = (int n, [])" using c_strtol10_dec [OF n(1), of "[]"] by simp
  have u: "to_uint (int n) = n" using n(2) by (simp add: to_uint_def)
  have words: "\<not> c_strncaseeq rule ''all'' 4" "\<not> c_strncaseeq rule ''none'' 5"
    using split(3) by (auto dest!: c_strncaseeq_mem [of _ _ _ "CHR ''/''"] simp: c_tolower_def c_isupper_def uchar_def)
  let ?acl = "blank_acl\<lparr>acl_type := PR_NETACL_TYPE_IPMASK, acl_negated := neg, acl_addr := Some a, acl_masklen := n,
      acl_aclstr := rule\<rparr>"
  have "rule \<noteq> []" using assms(8) by simp
  then have c: "pr_netacl_create env True (Some rule) = Inr ?acl"
    using words split not st u assms(1,3,4,7)
    by (simp add: pr_netacl_create_def create_ipmask_def split: if_splits)
  have m: "pr_netacl_match env (Some ?acl) (Some na) =
      acl_verdict (pr_netaddr_ncmp True (Some na) (Some a) n = 0) neg"
    using assms(1) by (simp add: pr_netacl_match_def)
  show ?thesis
    by (rule exI, rule conjI, rule c) (unfold m ncmp_zero_prefix [OF assms(6,5)] acl_verdict_def, rule refl)
qed

theorem netacl_network_rule_witness:
  "\<exists>acl. pr_netacl_create demo_netenv True (Some ''!10.0.0.0/8'') = Inr acl \<and>
     pr_netacl_match demo_netenv (Some acl) (Some (demo_v4 10 1 2 3)) = -1"
proof -
  have r: "''!10.0.0.0/8'' = (if True then ''!'' else []) @ ''10.0.0.0'' @ ''/'' @ dec_digits 8"
    by code_simp
  have c: "common_form (demo_v4 10 1 2 3) (demo_v4 10 0 0 0) = Some ([10, 1, 2, 3], [10, 0, 0, 0])"
    by (simp add: common_form_def v4_form_def demo_v4_def)
  have p: "take 8 (addr_bits (x # xs)) = byte_bits x" for x xs by (simp add: addr_bits_def)
  show ?thesis
    using netacl_network_rule [of demo_netenv "''10.0.0.0''" "demo_v4 10 0 0 0" "demo_v4 10 1 2 3" 8, OF _ _ _ _ _ _ _ r]
    by (simp add: demo_netenv_def only_chars_def demo_v4_ok c p)
qed



end
