(* ===== verification/Strs.thy ===== *)
theory Strs
  imports C_Lib
begin

text \<open>
  The string functions of \<open>src/str.c\<close> and \<open>lib/sstrncpy.c\<close>. A string is its text, without the terminator;
  a buffer that a function fills is the text written so far, together with the room it has. Where the
  library functions \<open>strlcpy\<close> and \<open>strlcat\<close> are optional, the code for builds without them is modelled. A
  read or write outside of a string is the result \<open>None\<close>.
\<close>

unbundle bit_operations_syntax

definition PR_STR_MAX_MATCHES :: nat where "PR_STR_MAX_MATCHES = 128"
definition PR_STR_MAX_REPLACEMENTS :: nat where "PR_STR_MAX_REPLACEMENTS = 8"
definition BUFSIZ :: int where "BUFSIZ = 8192"

definition PR_STR_FL_PRESERVE_COMMENTS :: "32 word" where "PR_STR_FL_PRESERVE_COMMENTS = 1"
definition PR_STR_FL_PRESERVE_WHITESPACE :: "32 word" where "PR_STR_FL_PRESERVE_WHITESPACE = 2"
definition PR_STR_FL_IGNORE_CASE :: "32 word" where "PR_STR_FL_IGNORE_CASE = 4"

section \<open>Replacement\<close>

text \<open>The number of times \<open>m\<close> occurs in \<open>s\<close>, without overlaps; \<open>None\<close> once it exceeds the limit.\<close>

fun vr_count :: "nat \<Rightarrow> string \<Rightarrow> string \<Rightarrow> nat option" where
  "vr_count budget s m =
     (case c_strstr s m of
        None \<Rightarrow> Some 0
      | Some t \<Rightarrow>
          (case budget of
             0 \<Rightarrow> None
           | Suc b \<Rightarrow> map_option Suc (vr_count b (drop (length m) t) m)))"

declare vr_count.simps [simp del]

text \<open>The loop over the arguments, pairs of a string to match and its replacement; a lone last one ends the
  loop. It collects the pairs that occur in \<open>s\<close> and the length of the buffer, a C \<open>int\<close>.\<close>

datatype vr_scan_result =
    VrError errno
  | VrUnchanged
  | VrPairs "(string \<times> string) list" int

fun vr_scan :: "nat \<Rightarrow> string \<Rightarrow> (string \<times> string) list \<Rightarrow> int \<Rightarrow> string list \<Rightarrow> vr_scan_result" where
  "vr_scan maxr s acc blen (m # r # args) =
     (if length acc < PR_STR_MAX_MATCHES then
        (case vr_count maxr s m of
           None \<Rightarrow> VrError E2BIG
         | Some 0 \<Rightarrow> vr_scan maxr s acc blen args
         | Some count \<Rightarrow>
             (let blen' = to_int (blen + int count * (int (length r) - int (length m))) in
              if blen' < 0 then VrUnchanged else vr_scan maxr s (acc @ [(m, r)]) blen' args))
      else VrPairs acc blen)"
| "vr_scan maxr s acc blen _ = VrPairs acc blen"

text \<open>The loop that fills the buffer of \<open>room\<close> bytes. Every pair has a non-empty match, since an empty one
  exceeds every limit in the loop above.\<close>

fun vr_fill :: "nat \<Rightarrow> (string \<times> string) list \<Rightarrow> string \<Rightarrow> string \<Rightarrow> string" where
  "vr_fill room pairs out [] = out"
| "vr_fill room pairs out (c # cs) =
     (case find (\<lambda>(m, r). c_strneq (c # cs) m (length m)) pairs of
        Some (m, r) \<Rightarrow>
          (if length out + length r + 1 > room then take (room - 1) (out @ r)
           else vr_fill room pairs (out @ r) (drop (length m - 1) cs))
      | None \<Rightarrow>
          (if length out + 1 \<ge> room then out else vr_fill room pairs (out @ [c]) cs))"

definition str_vreplace :: "nat \<Rightarrow> string \<Rightarrow> string list \<Rightarrow> string result" where
  "str_vreplace maxr s args =
     (case vr_scan maxr s [] (to_int (int (length s) + 1)) args of
        VrError e \<Rightarrow> Inl e
      | VrUnchanged \<Rightarrow> Inr s
      | VrPairs pairs blen \<Rightarrow>
          (if pairs = [] then Inr s
           else if blen \<ge> BUFSIZ then Inl ENOSPC
           else Inr (vr_fill (nat blen + 1) pairs [] s)))"

definition pr_str_replace :: "bool \<Rightarrow> nat \<Rightarrow> string option \<Rightarrow> string list \<Rightarrow> string result" where
  "pr_str_replace have_pool maxr s args =
     (case s of
        None \<Rightarrow> Inl EINVAL
      | Some s \<Rightarrow> (if \<not> have_pool \<or> maxr = 0 then Inl EINVAL else str_vreplace maxr s args))"

definition sreplace :: "bool \<Rightarrow> string option \<Rightarrow> string list \<Rightarrow> string result" where
  "sreplace have_pool s args =
     (case s of
        None \<Rightarrow> Inl EINVAL
      | Some s \<Rightarrow>
          (if \<not> have_pool then Inl EINVAL
           else
             (let res = str_vreplace PR_STR_MAX_REPLACEMENTS s args in
              if res = Inl E2BIG then Inr s else res)))"

section \<open>Copying and joining\<close>

text \<open>\<open>sstrncpy\<close>: the number of bytes copied and the text of the destination, with the address of each
  string for the comparison of the two pointers.\<close>

definition sstrncpy :: "string ptr option \<Rightarrow> string ptr option \<Rightarrow> nat \<Rightarrow> nat result \<times> string ptr option" where
  "sstrncpy dst src n =
     (case dst of
        None \<Rightarrow> (Inl EINVAL, dst)
      | Some (da, d) \<Rightarrow>
          (case src of
             None \<Rightarrow> (Inl EINVAL, dst)
           | Some (sa, s) \<Rightarrow>
               (if n = 0 then (Inr 0, dst)
                else if da = sa then (Inr n, dst)
                else (Inr (length (take (n - 1) s)), Some (da, take (n - 1) s)))))"

definition sstrcat :: "string option \<Rightarrow> string option \<Rightarrow> nat \<Rightarrow> string result" where
  "sstrcat dst src n =
     (case dst of
        None \<Rightarrow> Inl EINVAL
      | Some d \<Rightarrow>
          (case src of
             None \<Rightarrow> Inl EINVAL
           | Some s \<Rightarrow>
               (if n = 0 then Inl EINVAL
                else if n > 1 then Inr (take (n - 1) d @ take (n - 1 - length d) s)
                else Inr [])))"

definition pstrdup :: "bool \<Rightarrow> string option \<Rightarrow> string result" where
  "pstrdup have_pool str =
     (case str of
        None \<Rightarrow> Inl EINVAL
      | Some s \<Rightarrow> (if \<not> have_pool then Inl EINVAL else Inr (take (length s) s)))"

definition pstrndup :: "bool \<Rightarrow> string option \<Rightarrow> nat \<Rightarrow> string result" where
  "pstrndup have_pool str n =
     (case str of
        None \<Rightarrow> Inl EINVAL
      | Some s \<Rightarrow> (if \<not> have_pool then Inl EINVAL else Inr (take n s)))"

text \<open>\<open>pdircat\<close> runs over its arguments twice: \<open>dircat_len\<close> computes the length of the buffer, \<open>dircat_fill\<close>
  fills it. Both remember the last character, \<open>None\<close> for the zero of the code.\<close>

definition last_char :: "string \<Rightarrow> char option" where
  "last_char s = (if s = [] then None else Some (last s))"

definition starts_slash :: "string \<Rightarrow> bool" where
  "starts_slash s \<longleftrightarrow> take 1 s = ''/''"

fun dircat_len :: "bool \<Rightarrow> char option \<Rightarrow> int \<Rightarrow> string list \<Rightarrow> int" where
  "dircat_len fst_arg lst len [] = len"
| "dircat_len fst_arg lst len (a # as) =
     (let len' = (if fst_arg \<and> a = [] then len + 1
                  else if lst \<noteq> None \<and> lst \<noteq> Some (CHR ''/'') \<and> \<not> starts_slash a then len + 1
                  else if lst = Some (CHR ''/'') \<and> starts_slash a then len - 1
                  else len)
      in dircat_len False (last_char a) (len' + int (length a)) as)"

definition dircat_step :: "string \<Rightarrow> string \<Rightarrow> string" where
  "dircat_step res a =
     (if last_char res = Some (CHR ''/'') \<and> starts_slash a then res @ tl a
      else if last_char res \<noteq> None \<and> last_char res \<noteq> Some (CHR ''/'') \<and> \<not> starts_slash a then res @ ''/'' @ a
      else res @ a)"

fun dircat_fill :: "string \<Rightarrow> string list \<Rightarrow> string" where
  "dircat_fill res [] = res"
| "dircat_fill res (a # as) = dircat_fill (dircat_step res a) as"

text \<open>Each \<open>sstrcat\<close> is given the length of the whole buffer, whatever has been filled already, so nothing but the
  computed length keeps the writes inside: a text longer than that is a write outside of the buffer.\<close>

definition pdircat :: "bool \<Rightarrow> string list \<Rightarrow> string result option" where
  "pdircat have_pool args =
     (if \<not> have_pool then Some (Inl EINVAL)
      else if int (length (dircat_fill [] args)) \<le> dircat_len True None 0 args then Some (Inr (dircat_fill [] args))
      else None)"

definition pstrcat :: "bool \<Rightarrow> string list \<Rightarrow> string result" where
  "pstrcat have_pool args = (if \<not> have_pool then Inl EINVAL else Inr (concat args))"

section \<open>Suffixes and white space\<close>

definition pr_strnrstr :: "string option \<Rightarrow> nat \<Rightarrow> string option \<Rightarrow> nat \<Rightarrow> 32 word \<Rightarrow> bool result option" where
  "pr_strnrstr s slen suffix suffixlen flags =
     (case s of
        None \<Rightarrow> Some (Inl EINVAL)
      | Some s \<Rightarrow>
          (case suffix of
             None \<Rightarrow> Some (Inl EINVAL)
           | Some suffix \<Rightarrow>
               (let slen = (if slen = 0 then length s else slen);
                    suffixlen = (if suffixlen = 0 then length suffix else suffixlen)
                in if slen = 0 \<and> suffixlen = 0 then Some (Inr True)
                   else if slen = 0 \<or> suffixlen = 0 then Some (Inr False)
                   else if suffixlen > slen then Some (Inr False)
                   else if slen - suffixlen > length s then None
                   else if flags AND PR_STR_FL_IGNORE_CASE \<noteq> 0 then
                     Some (Inr (c_strncaseeq (drop (slen - suffixlen) s) suffix suffixlen))
                   else Some (Inr (c_strneq (drop (slen - suffixlen) s) suffix suffixlen)))))"

text \<open>\<open>pr_str_strip\<close> looks for the end of the text from its last character backwards and does not stop at its
  beginning.\<close>

definition strip_right :: "(char \<Rightarrow> bool) \<Rightarrow> string \<Rightarrow> string" where
  "strip_right P s = rev (dropWhile P (rev s))"

definition pr_str_strip :: "bool \<Rightarrow> string option \<Rightarrow> string result option" where
  "pr_str_strip have_pool str =
     (case str of
        None \<Rightarrow> Some (Inl EINVAL)
      | Some s \<Rightarrow>
          (if \<not> have_pool then Some (Inl EINVAL)
           else if list_all c_isspace s then None
           else Some (Inr (dropWhile c_isspace (strip_right c_isspace s)))))"

definition pr_str_strip_end :: "string option \<Rightarrow> string option \<Rightarrow> string result" where
  "pr_str_strip_end s ch =
     (case s of
        None \<Rightarrow> Inl EINVAL
      | Some s \<Rightarrow>
          (case ch of
             None \<Rightarrow> Inl EINVAL
           | Some ch \<Rightarrow> Inr (strip_right (\<lambda>c. c \<in> set ch) s)))"

section \<open>Durations and sizes\<close>

definition INT_MAX :: nat where "INT_MAX = 2 ^ 31 - 1"

text \<open>\<open>sscanf(str, "%2u:%2u:%2u", ...)\<close> with all three fields read.\<close>

definition after_colon :: "(nat \<times> string) option \<Rightarrow> (nat \<times> string) option" where
  "after_colon r =
     (case r of None \<Rightarrow> None | Some (n, s) \<Rightarrow> (if take 1 s = '':'' then Some (n, tl s) else None))"

definition scan_hms :: "string \<Rightarrow> (nat \<times> nat \<times> nat) option" where
  "scan_hms s =
     (case after_colon (c_scan_u (Some 2) s) of
        None \<Rightarrow> None
      | Some (h, s1) \<Rightarrow>
          (case after_colon (c_scan_u (Some 2) s1) of
             None \<Rightarrow> None
           | Some (m, s2) \<Rightarrow>
               (case c_scan_u (Some 2) s2 of None \<Rightarrow> None | Some (sec, _) \<Rightarrow> Some (h, m, sec))))"

definition has_suffix :: "string \<Rightarrow> string \<Rightarrow> bool" where
  "has_suffix s suf =
     (pr_strnrstr (Some s) (length s) (Some suf) (length suf) PR_STR_FL_IGNORE_CASE = Some (Inr True))"

text \<open>A number with a unit: the product is one of \<open>unsigned int\<close>, and is stored in an \<open>int\<close>.\<close>

definition scan_unit :: "string \<Rightarrow> nat \<Rightarrow> int result" where
  "scan_unit s unit =
     (case c_scan_u None s of
        None \<Rightarrow> Inl EINVAL
      | Some (n, _) \<Rightarrow> (if n > INT_MAX then Inl ERANGE else Inr (to_int (int (n * unit)))))"

definition pr_str_get_duration :: "string option \<Rightarrow> int result" where
  "pr_str_get_duration str =
     (case str of
        None \<Rightarrow> Inl EINVAL
      | Some s \<Rightarrow>
          (case scan_hms s of
             Some (hours, mins, secs) \<Rightarrow>
               (if hours > INT_MAX \<or> mins > INT_MAX \<or> secs > INT_MAX then Inl ERANGE
                else Inr (to_int (int (hours * 60 * 60 + mins * 60 + secs))))
           | None \<Rightarrow>
               (if s = [] then Inl EINVAL
                else if has_suffix s ''s'' \<or> has_suffix s ''sec'' then scan_unit s 1
                else if has_suffix s ''m'' \<or> has_suffix s ''min'' then scan_unit s 60
                else if has_suffix s ''h'' \<or> has_suffix s ''hr'' then scan_unit s (60 * 60)
                else
                  (let (n, rest) = c_strtol10 s; secs = to_uint (to_int n) in
                   if rest \<noteq> [] then Inl EINVAL
                   else if secs > INT_MAX then Inl ERANGE
                   else Inr (int secs)))))"

text \<open>\<open>pr_str_get_nbytes\<close> computes in single precision: the number is rounded to a \<open>float\<close>; the factors are powers
  of two, so the product is exact. A product that does not fit \<open>off_t\<close> is undefined behaviour.\<close>

definition units_factor :: "string option \<Rightarrow> nat option" where
  "units_factor units =
     (case units of
        None \<Rightarrow> Some 1
      | Some u \<Rightarrow>
          (if u = [] then Some 1
           else if c_strncaseeq u ''KB'' 3 then Some (2 ^ 10)
           else if c_strncaseeq u ''MB'' 3 then Some (2 ^ 20)
           else if c_strncaseeq u ''GB'' 3 then Some (2 ^ 30)
           else if c_strncaseeq u ''TB'' 3 then Some (2 ^ 40)
           else if c_strncaseeq u ''B'' 2 then Some 1
           else None))"

definition float_off :: "int \<Rightarrow> int" where
  "float_off n = (if n < 0 then - int (c_float (nat (- n))) else int (c_float (nat n)))"

definition pr_str_get_nbytes :: "string option \<Rightarrow> string option \<Rightarrow> int result option" where
  "pr_str_get_nbytes str units =
     (case str of
        None \<Rightarrow> Some (Inl EINVAL)
      | Some s \<Rightarrow>
          (if take 1 s = ''-'' then Some (Inl EINVAL)
           else
             (case units_factor units of
                None \<Rightarrow> Some (Inl EINVAL)
              | Some factor \<Rightarrow>
                  (let (n, rest, range) = c_strtoull10 s; sz = float_off (to_off (int n)); res = sz * int factor in
                   if range then Some (Inl ERANGE)
                   else if rest \<noteq> [] then Some (Inl EINVAL)
                   else if res > 2 ^ 64 then Some (Inl ERANGE)
                   else if res < - (2 ^ 63) \<or> res \<ge> 2 ^ 63 then None
                   else Some (Inr res)))))"

section \<open>Words and tokens\<close>

text \<open>The loop of \<open>pr_str_get_word\<close>: the text copied and the rest of the line, which starts with the character that
  ended the word.\<close>

fun word_loop :: "bool \<Rightarrow> string \<Rightarrow> string \<times> string" where
  "word_loop quote [] = ([], [])"
| "word_loop quote (c # cs) =
     (if (if quote then c = CHR 0x22 else c_isspace c) then ([], c # cs)
      else if c = CHR 0x5C \<and> quote then
        (case cs of
           [] \<Rightarrow> ([c], [])
         | e # es \<Rightarrow> (let (w, rest) = word_loop quote es in (e # w, rest)))
      else (let (w, rest) = word_loop quote cs in (c # w, rest)))"

text \<open>The word and the position after it; \<open>Inr None\<close> is the \<open>NULL\<close> of a line without a word, for which \<open>errno\<close> is
  not set.\<close>

definition pr_str_get_word :: "string option \<Rightarrow> 32 word \<Rightarrow> string option result \<times> string option" where
  "pr_str_get_word cp flags =
     (case cp of
        None \<Rightarrow> (Inl EINVAL, cp)
      | Some s \<Rightarrow>
          (if s = [] then (Inl EINVAL, cp)
           else
             (let s1 = (if flags AND PR_STR_FL_PRESERVE_WHITESPACE = 0 then dropWhile c_isspace s else s) in
              if s1 = [] then (Inr None, Some s1)
              else if flags AND PR_STR_FL_PRESERVE_COMMENTS = 0 \<and> hd s1 = CHR ''#'' then (Inr None, Some s1)
              else
                (let quote = (hd s1 = CHR 0x22);
                     (w, rest) = word_loop quote (if quote then tl s1 else s1)
                 in (Inr (Some w), Some (tl rest))))))"

text \<open>\<open>pr_str_get_token2\<close>: the token, the text after the separator and the length of the token.\<close>

definition pr_str_get_token2 :: "string option \<Rightarrow> string option \<Rightarrow> string result \<times> string option \<times> nat" where
  "pr_str_get_token2 src sep =
     (case src of
        None \<Rightarrow> (Inl EINVAL, src, 0)
      | Some s \<Rightarrow>
          (case sep of
             None \<Rightarrow> (Inl EINVAL, src, 0)
           | Some seps \<Rightarrow>
               (if s = [] then (Inl EINVAL, src, 0)
                else
                  (let token = takeWhile (\<lambda>c. c \<notin> set seps) s in
                   (Inr token, Some (drop (length token + 1) s), length token)))))"

definition pr_str_get_token :: "string option \<Rightarrow> string option \<Rightarrow> string result \<times> string option" where
  "pr_str_get_token src sep = (let (r, s, _) = pr_str_get_token2 src sep in (r, s))"

section \<open>Tests\<close>

definition pr_str_is_boolean :: "string option \<Rightarrow> bool result" where
  "pr_str_is_boolean str =
     (case str of
        None \<Rightarrow> Inl EINVAL
      | Some s \<Rightarrow>
          (if c_strncaseeq s ''on'' 3 then Inr True
           else if c_strncaseeq s ''off'' 4 then Inr False
           else if c_strncaseeq s ''yes'' 4 then Inr True
           else if c_strncaseeq s ''no'' 3 then Inr False
           else if c_strncaseeq s ''true'' 5 then Inr True
           else if c_strncaseeq s ''false'' 6 then Inr False
           else if c_strncaseeq s ''1'' 2 then Inr True
           else if c_strncaseeq s ''0'' 2 then Inr False
           else Inl EINVAL))"

fun is_fnmatch_loop :: "bool \<Rightarrow> string \<Rightarrow> bool" where
  "is_fnmatch_loop have_bracket [] = False"
| "is_fnmatch_loop have_bracket (c # cs) =
     (if c = CHR ''?'' \<or> c = CHR ''*'' then True
      else if c = CHR 0x5C then (case cs of [] \<Rightarrow> False | _ # es \<Rightarrow> is_fnmatch_loop have_bracket es)
      else if c = CHR ''['' then is_fnmatch_loop True cs
      else if c = CHR '']'' then (have_bracket \<or> is_fnmatch_loop have_bracket cs)
      else is_fnmatch_loop have_bracket cs)"

definition pr_str_is_fnmatch :: "string \<Rightarrow> bool" where
  "pr_str_is_fnmatch s = is_fnmatch_loop False s"

section \<open>Quoted words\<close>

definition quote_char :: "char \<Rightarrow> string" where
  "quote_char c = (if c = CHR 0x22 \<or> c = CHR 0x5C then [CHR 0x5C, c] else [c])"

definition quote_word :: "string \<Rightarrow> string" where
  "quote_word w = CHR 0x22 # concat (map quote_char w) @ [CHR 0x22]"

lemma word_loop_quoted: "word_loop True (concat (map quote_char w) @ CHR 0x22 # rest) = (w, CHR 0x22 # rest)"
  by (induction w) (auto simp: quote_char_def)

text \<open>C36. Reading a word that is written between double quotes, with a backslash before each quote and
  backslash in it, gives the word back and leaves the position just after the closing quote, whatever white
  space stands before it and whatever the flags are, unless the flags keep white space and there is some.\<close>

theorem pr_str_get_word_quoted:
  assumes "list_all c_isspace blanks" and "blanks = [] \<or> flags AND PR_STR_FL_PRESERVE_WHITESPACE = 0"
  shows "pr_str_get_word (Some (blanks @ quote_word w @ rest)) flags = (Inr (Some w), Some rest)"
proof -
  have "\<not> c_isspace (CHR 0x22)" by (simp add: c_isspace_def uchar_def)
  then have "dropWhile c_isspace (blanks @ quote_word w @ rest) = quote_word w @ rest"
    using assms(1) by (simp add: quote_word_def dropWhile_append list_all_iff)
  then show ?thesis
    using assms(2) word_loop_quoted [of w rest] by (auto simp: pr_str_get_word_def quote_word_def Let_def)
qed

theorem pr_str_get_word_quoted_witness:
  "pr_str_get_word (Some ('' '' @ quote_word [CHR ''a'', CHR 0x22, CHR '' '', CHR ''b''] @ '' next'')) 0 =
     (Inr (Some [CHR ''a'', CHR 0x22, CHR '' '', CHR ''b'']), Some '' next'')"
  by (rule pr_str_get_word_quoted) (simp_all add: c_isspace_def uchar_def)

section \<open>Joined paths\<close>

definition dircat_rel :: "char option \<Rightarrow> string \<Rightarrow> bool" where
  "dircat_rel lst res \<longleftrightarrow>
     (if lst = None then last_char res \<in> {None, Some (CHR ''/'')} else last_char res = lst)"

lemma last_char_append: "last_char (a @ b) = (if b = [] then last_char a else last_char b)"
  by (simp add: last_char_def)

lemma starts_slash_Cons: "starts_slash a \<longleftrightarrow> (\<exists>b. a = CHR ''/'' # b)"
  by (cases a) (auto simp: starts_slash_def)

lemma dircat_step_rel: "dircat_rel lst res \<Longrightarrow> dircat_rel (last_char a) (dircat_step res a)"
  by (auto simp: dircat_rel_def dircat_step_def last_char_def starts_slash_Cons split: if_splits)

lemma dircat_step_length:
  assumes "dircat_rel lst res"
  shows "int (length (dircat_step res a)) \<le> int (length res) + int (length a)
    + (if lst \<noteq> None \<and> lst \<noteq> Some (CHR ''/'') \<and> \<not> starts_slash a then 1
       else if lst = Some (CHR ''/'') \<and> starts_slash a then - 1 else 0)"
  using assms by (auto simp: dircat_rel_def dircat_step_def last_char_def starts_slash_Cons split: if_splits)

lemma dircat_fits:
  assumes "dircat_rel lst res" and "int (length res) \<le> len" and "fst_arg \<Longrightarrow> lst = None"
  shows "int (length (dircat_fill res args)) \<le> dircat_len fst_arg lst len args"
  using assms
proof (induction args arbitrary: fst_arg lst res len)
  case Nil
  then show ?case by simp
next
  case (Cons a args)
  let ?len = "if fst_arg \<and> a = [] then len + 1
                  else if lst \<noteq> None \<and> lst \<noteq> Some (CHR ''/'') \<and> \<not> starts_slash a then len + 1
                  else if lst = Some (CHR ''/'') \<and> starts_slash a then len - 1
                  else len"
  have "int (length (dircat_step res a)) \<le> ?len + int (length a)"
    using dircat_step_length [OF Cons.prems(1), of a] Cons.prems(2,3) by (auto split: if_splits)
  then show ?case
    using Cons.IH [OF dircat_step_rel [OF Cons.prems(1), of a]] by (simp add: Let_def)
qed

text \<open>\<open>pdircat\<close> never writes outside of the buffer it allocates: the length computed by the first pass over
  the arguments is enough for the text that the second pass writes, although the two passes differ in how they
  track the last character and the calls of \<open>sstrcat\<close> do not bound the writes.\<close>

theorem pdircat_stays_in_buffer:
  "pdircat True args = Some (Inr (dircat_fill [] args))"
  using dircat_fits [of None "[]" 0 True args] by (simp add: pdircat_def dircat_rel_def last_char_def)

section \<open>Replacement\<close>

text \<open>The reference: every occurrence from left to right, without overlaps.\<close>

fun subst_all :: "string \<Rightarrow> string \<Rightarrow> string \<Rightarrow> string" where
  "subst_all m r [] = []"
| "subst_all m r (c # cs) =
     (if m \<noteq> [] \<and> take (length m) (c # cs) = m then r @ subst_all m r (drop (length m - 1) cs)
      else c # subst_all m r cs)"

lemma c_strstr_Some:
  "c_strstr s m = Some t \<Longrightarrow> m \<noteq> [] \<Longrightarrow> \<exists>p. s = p @ t \<and> take (length m) t = m \<and> t \<noteq> [] \<and> subst_all m r s = p @ subst_all m r t"
  by (induction s) (auto split: if_splits)

lemma c_strstr_None: "c_strstr s m = None \<Longrightarrow> subst_all m r s = s"
  by (induction s) (auto split: if_splits)

lemma vr_count_length:
  assumes "vr_count budget s m = Some n" and "m \<noteq> []"
  shows "int (length (subst_all m r s)) = int (length s) + int n * (int (length r) - int (length m))"
  using assms
proof (induction budget s m arbitrary: n rule: vr_count.induct)
  case (1 budget s m)
  show ?case
  proof (cases "c_strstr s m")
    case None
    then show ?thesis using 1(2) c_strstr_None [OF None] by (simp add: vr_count.simps)
  next
    case (Some t)
    then obtain b k where b: "budget = Suc b" "vr_count b (drop (length m) t) m = Some k" "n = Suc k"
      using 1(2) by (auto simp: vr_count.simps [of budget] split: nat.splits)
    obtain p where p: "s = p @ t" "take (length m) t = m" "t \<noteq> []" "subst_all m r s = p @ subst_all m r t"
      using c_strstr_Some [OF Some 1(3)] by blast
    obtain c cs where t: "t = c # cs" using p(3) by (cases t) auto
    have len: "length m \<le> length t" using p(2) by (metis length_take min.cobounded1)
    have "subst_all m r t = r @ subst_all m r (drop (length m) t)"
      using p(2) 1(3) t by (cases m) auto
    moreover have "int (length (subst_all m r (drop (length m) t))) =
        int (length (drop (length m) t)) + int k * (int (length r) - int (length m))"
      using 1(1) [OF Some b(1) b(2) 1(3)] .
    ultimately show ?thesis using p(1,4) b(3) len by (simp add: algebra_simps)
  qed
qed

lemma vr_fill_single:
  assumes "m \<noteq> []" and "length out + length (subst_all m r s) + 1 < room"
  shows "vr_fill room [(m, r)] out s = out @ subst_all m r s"
  using assms
proof (induction m r s arbitrary: out rule: subst_all.induct)
  case (1 m r)
  then show ?case by simp
next
  case (2 m r c cs)
  then show ?case by (auto simp: c_strneq_def)
qed

lemma vr_fill_bound: "length out < room \<Longrightarrow> length (vr_fill room pairs out s) < room"
  by (induction room pairs out s rule: vr_fill.induct) (auto split: option.splits)

text \<open>The number of those occurrences.\<close>

fun occurrences :: "string \<Rightarrow> string \<Rightarrow> nat" where
  "occurrences m [] = 0"
| "occurrences m (c # cs) =
     (if m \<noteq> [] \<and> take (length m) (c # cs) = m then Suc (occurrences m (drop (length m - 1) cs))
      else occurrences m cs)"

lemma occurrences_strstr:
  "c_strstr s m = Some t \<Longrightarrow> m \<noteq> [] \<Longrightarrow> occurrences m s = Suc (occurrences m (drop (length m) t))"
  by (induction s) (auto split: if_splits simp: drop_Cons')

lemma occurrences_none: "c_strstr s m = None \<Longrightarrow> occurrences m s = 0"
  by (induction s) (auto split: if_splits)

lemma vr_count_occurrences:
  "m \<noteq> [] \<Longrightarrow> vr_count budget s m = (if occurrences m s \<le> budget then Some (occurrences m s) else None)"
proof (induction budget s m rule: vr_count.induct)
  case (1 budget s m)
  show ?case
  proof (cases "c_strstr s m")
    case None
    then show ?thesis using occurrences_none [OF None] by (simp add: vr_count.simps)
  next
    case (Some t)
    show ?thesis
      using 1(1) [OF Some _ 1(2)] occurrences_strstr [OF Some 1(2)] Some
      by (cases budget) (simp_all add: vr_count.simps [of budget] vr_count.simps [of 0] vr_count.simps [of "Suc _"])
  qed
qed

lemma to_int_id: "0 \<le> n \<Longrightarrow> n < 2 ^ 31 \<Longrightarrow> to_int n = n"
  by (simp add: to_int_def)

text \<open>With one string to match, \<open>pr_str_replace\<close> replaces every occurrence from left to right, provided the
  result is shorter than the 8191 bytes allowed, and refuses with \<open>E2BIG\<close> exactly when there are more
  occurrences than the caller allows.\<close>

theorem pr_str_replace_single:
  assumes "m \<noteq> []" and "maxr \<noteq> 0" and "length s < 2 ^ 31 - 1" and "length (subst_all m r s) + 1 < 8192"
  shows "pr_str_replace True maxr (Some s) [m, r] =
    (if occurrences m s \<le> maxr then Inr (subst_all m r s) else Inl E2BIG)"
proof (cases "occurrences m s \<le> maxr")
  case True
  then have count: "vr_count maxr s m = Some (occurrences m s)" using vr_count_occurrences [OF assms(1)] by simp
  show ?thesis
  proof (cases "occurrences m s")
    case 0
    then have "subst_all m r s = s"
      using occurrences_strstr [OF _ assms(1)] c_strstr_None by (cases "c_strstr s m") auto
    then show ?thesis using count assms(2) True 0 by (simp add: pr_str_replace_def str_vreplace_def PR_STR_MAX_MATCHES_def)
  next
    case (Suc n)
    let ?len = "int (length (subst_all m r s)) + 1"
    have "to_int (int (length s) + 1) = int (length s) + 1" using assms(3) by (intro to_int_id) auto
    moreover have "to_int ?len = ?len" using assms(4) by (intro to_int_id) auto
    moreover have "int (length s) + 1 + (1 + int n) * (int (length r) - int (length m)) = ?len"
      using vr_count_length [OF count assms(1), of r] Suc by (simp add: algebra_simps)
    ultimately have "vr_scan maxr s [] (to_int (int (length s) + 1)) [m, r] = VrPairs [(m, r)] ?len"
      using count Suc by (simp (no_asm_simp) add: PR_STR_MAX_MATCHES_def Let_def)
    moreover have "vr_fill (nat ?len + 1) [(m, r)] [] s = subst_all m r s"
      using vr_fill_single [OF assms(1), of "[]" r s "nat ?len + 1"] by simp
    ultimately show ?thesis using assms True by (simp add: pr_str_replace_def str_vreplace_def BUFSIZ_def)
  qed
next
  case False
  then show ?thesis
    using vr_count_occurrences [OF assms(1), of maxr s] assms(2)
    by (simp add: pr_str_replace_def str_vreplace_def PR_STR_MAX_MATCHES_def)
qed

theorem pr_str_replace_single_witness:
  "pr_str_replace True 4 (Some ''/%u/%u.txt'') [''%u'', ''bob''] = Inr ''/bob/bob.txt''"
  using pr_str_replace_single [of "''%u''" 4 "''/%u/%u.txt''" "''bob''"] by simp

text \<open>With overlapping strings to match, the length of the buffer counts occurrences that are not replaced, and the
  end of the text is lost.\<close>

lemma overlapping_matches_truncate: "pr_str_replace True 4 (Some ''aab'') [''aa'', ''XX'', ''ab'', ''''] = Inr ''XX''"
  by code_simp

section \<open>Durations\<close>

lemma dec_digits_scan:
  assumes "rest = [] \<or> \<not> c_isdigit (hd rest)" and "n < 2 ^ 32"
  shows "c_scan_u None (dec_digits n @ rest) = Some (n, rest)"
proof -
  obtain c cs where ds: "dec_digits n = c # cs" by (cases "dec_digits n") auto
  have all: "\<forall>c \<in> set (dec_digits n). c_isdigit c" and c: "c_isdigit c" using dec_digits_digits [of n] ds by auto
  have "takeWhile c_isdigit (dec_digits n @ rest) = dec_digits n"
    using all assms(1) by (cases rest) (auto simp: takeWhile_append)
  moreover have "dropWhile c_isspace (dec_digits n @ rest) = dec_digits n @ rest" "split_sign (dec_digits n @ rest) = (False, dec_digits n @ rest)"
    using ds digit_not_space [OF c] by (simp_all add: split_sign_def)
  ultimately show ?thesis using assms(2) by (simp add: c_scan_u_def Let_def to_uint_def nat_mod_as_int min_def)
qed

lemma scan_field_digits:
  assumes "c_scan_u w s = Some (n, t)" and "\<forall>c \<in> set s. c \<noteq> CHR '':''"
  shows "\<forall>c \<in> set t. c \<noteq> CHR '':''"
proof -
  have "set (snd (split_sign u)) \<subseteq> set u" for u by (auto simp: split_sign_def split: list.splits)
  then have "set t \<subseteq> set s"
    using assms(1) by (auto simp: c_scan_u_def Let_def split: prod.splits if_splits)
      (metis (no_types, lifting) in_set_dropD set_dropWhileD snd_conv subsetD)+
  then show ?thesis using assms(2) by blast
qed

lemma scan_hms_none:
  assumes "\<forall>c \<in> set s. c \<noteq> CHR '':''"
  shows "scan_hms s = None"
proof -
  have "after_colon (c_scan_u (Some 2) s) = None"
  proof (cases "c_scan_u (Some 2) s")
    case (Some p)
    obtain n t where p: "p = (n, t)" by (cases p)
    have "take 1 t \<noteq> '':''"
      using scan_field_digits [OF Some [unfolded p] assms] by (cases t) auto
    then show ?thesis using Some p by (simp add: after_colon_def)
  qed (simp add: after_colon_def)
  then show ?thesis by (simp add: scan_hms_def)
qed

lemma c_tolower_m: "c_tolower (CHR ''s'') = CHR ''s''" "c_tolower (CHR ''c'') = CHR ''c''" "c_tolower (CHR ''m'') = CHR ''m''"
  by (simp_all add: c_tolower_def c_isupper_def uchar_def)

lemma ignore_case_flag: "PR_STR_FL_IGNORE_CASE AND PR_STR_FL_IGNORE_CASE \<noteq> 0"
  by (simp add: PR_STR_FL_IGNORE_CASE_def)

lemma has_suffix_iff:
  assumes "s \<noteq> []" and "suf \<noteq> []"
  shows "has_suffix s suf \<longleftrightarrow> length suf \<le> length s \<and> c_strcaseeq (drop (length s - length suf) s) suf"
proof -
  have "\<not> length s - length suf > length s" by simp
  then show ?thesis
    using assms ignore_case_flag
    by (cases "length suf \<le> length s") (simp_all add: has_suffix_def pr_strnrstr_def Let_def c_strncaseeq_def)
qed

lemma has_suffix_last:
  assumes "has_suffix (xs @ [c]) (ys @ [d])"
  shows "c_tolower c = c_tolower d"
proof -
  have "map c_tolower (drop (length xs - length ys) (xs @ [c])) = map c_tolower (ys @ [d])"
    using assms has_suffix_iff [of "xs @ [c]" "ys @ [d]"] by (simp add: c_strcaseeq_def)
  from arg_cong [OF this, of last] show ?thesis by simp
qed

lemma to_int_same: "to_int n = n \<longleftrightarrow> - (2 ^ 31) \<le> n \<and> n < 2 ^ 31"
proof -
  have "to_int n = n \<longleftrightarrow> (n + 2 ^ 31) mod 2 ^ 32 = n + 2 ^ 31" by (auto simp: to_int_def)
  also have "\<dots> \<longleftrightarrow> 0 \<le> n + 2 ^ 31 \<and> n + 2 ^ 31 < 2 ^ 32"
    by (metis mod_pos_pos_trivial pos_mod_bound pos_mod_sign zero_less_numeral zero_less_power)
  finally show ?thesis by auto
qed

lemma digit_not_colon: "c_isdigit c \<Longrightarrow> c \<noteq> CHR '':''"
  by (auto simp: c_isdigit_def uchar_def)

lemma duration_minutes:
  assumes "n \<le> INT_MAX"
  shows "pr_str_get_duration (Some (dec_digits n @ ''m'')) = Inr (to_int (int (n * 60)))"
proof -
  have "scan_hms (dec_digits n @ ''m'') = None"
    using dec_digits_digits [of n] by (intro scan_hms_none) (auto dest: digit_not_colon)
  moreover have "\<not> has_suffix (dec_digits n @ ''m'') ''s''" "\<not> has_suffix (dec_digits n @ ''m'') ''sec''"
    using has_suffix_last [of "dec_digits n" "CHR ''m''" "[]" "CHR ''s''"]
      has_suffix_last [of "dec_digits n" "CHR ''m''" "''se''" "CHR ''c''"] by (auto simp: c_tolower_m)
  moreover have "has_suffix (dec_digits n @ ''m'') ''m''" by (simp add: has_suffix_iff)
  moreover have "c_scan_u None (dec_digits n @ ''m'') = Some (n, ''m'')"
    using assms by (intro dec_digits_scan) (auto simp: c_isdigit_def uchar_def INT_MAX_def)
  ultimately show ?thesis using assms by (simp add: pr_str_get_duration_def scan_unit_def)
qed

text \<open>A duration written as a number of minutes is accepted for every number up to \<open>INT_MAX\<close>, but the value is
  the right number of seconds exactly when that number fits an \<open>int\<close>: from 35791395 minutes on, the
  product wraps around and a wrong duration is returned without an error.\<close>

theorem pr_str_get_duration_minutes:
  assumes "n \<le> INT_MAX"
  shows "\<exists>d. pr_str_get_duration (Some (dec_digits n @ ''m'')) = Inr d \<and> (d = 60 * int n \<longleftrightarrow> n \<le> 35791394)"
proof -
  have "to_int (int (n * 60)) = int (n * 60) \<longleftrightarrow> n \<le> 35791394" by (subst to_int_same) auto
  then show ?thesis using duration_minutes [OF assms] by (auto simp: mult.commute)
qed

theorem pr_str_get_duration_minutes_witness:
  "\<exists>d. pr_str_get_duration (Some (dec_digits 71582789 @ ''m'')) = Inr d \<and> d \<noteq> 60 * int 71582789"
proof -
  have n: "71582789 \<le> INT_MAX" by (simp add: INT_MAX_def)
  show ?thesis using pr_str_get_duration_minutes [OF n] by auto
qed

section \<open>Sizes\<close>

lemma nbits_le: "n < 2 ^ k \<Longrightarrow> nbits n \<le> k"
proof (induction n arbitrary: k rule: nbits.induct)
  case (1 n)
  show ?case
  proof (cases "n = 0")
    case False
    then obtain j where j: "k = Suc j" using 1(2) by (cases k) auto
    have "n div 2 < 2 ^ j" using 1(2) j by auto
    then show ?thesis using 1(1) [OF False] False j by (subst nbits.simps) simp
  qed (subst nbits.simps, simp)
qed

lemma c_float_exact: "n < 2 ^ 24 \<Longrightarrow> c_float n = n"
  using nbits_le [of n 24] by (simp add: c_float_def Let_def)

lemma c_strtoull10_dec:
  assumes "n < 2 ^ 64"
  shows "c_strtoull10 (dec_digits n) = (n, [], False)"
proof -
  obtain c cs where ds: "dec_digits n = c # cs" by (cases "dec_digits n") auto
  have all: "\<forall>c \<in> set (dec_digits n). c_isdigit c" and c: "c_isdigit c" using dec_digits_digits [of n] ds by auto
  have tw: "takeWhile c_isdigit (dec_digits n) = dec_digits n" "dropWhile c_isdigit (dec_digits n) = []"
    using all by simp_all
  have "dropWhile c_isspace (dec_digits n) = dec_digits n" "split_sign (dec_digits n) = (False, dec_digits n)"
    using ds digit_not_space [OF c] by (simp_all add: split_sign_def)
  then show ?thesis using assms by (simp add: c_strtoull10_def Let_def tw)
qed

lemma dec_digits_not_minus: "take 1 (dec_digits n) \<noteq> ''-''"
  using dec_digits_digits [of n] digit_not_space(2) by (cases "dec_digits n") auto

text \<open>A size below \<open>2 ^ 24\<close>, in any unit and as long as the result fits a file offset, is returned exactly.\<close>

theorem pr_str_get_nbytes_exact:
  assumes "n < 2 ^ 24" and "units_factor units = Some factor" and "n * factor < 2 ^ 63"
  shows "pr_str_get_nbytes (Some (dec_digits n)) units = Some (Inr (int (n * factor)))"
proof -
  have "to_off (int n) = int n" using assms(1) by (simp add: to_off_def)
  then have "float_off (to_off (int n)) = int n" using c_float_exact [OF assms(1)] by (simp add: float_off_def)
  moreover have "c_strtoull10 (dec_digits n) = (n, [], False)" using assms(1) by (intro c_strtoull10_dec) simp
  moreover have "int n * int factor < 2 ^ 63"
    using assms(3) by (metis of_nat_less_iff of_nat_mult of_nat_numeral of_nat_power)
  moreover have "\<not> int n * int factor < - (2 ^ 63)"
    using order_trans [of "- (2 ^ 63)" 0 "int n * int factor"] by (simp add: not_less)
  ultimately show ?thesis using assms(2) dec_digits_not_minus [of n] by (simp add: pr_str_get_nbytes_def Let_def)
qed

theorem pr_str_get_nbytes_exact_witness:
  "pr_str_get_nbytes (Some (dec_digits 300)) (Some ''GB'') = Some (Inr (int (300 * 2 ^ 30)))"
proof -
  have "units_factor (Some ''GB'') = Some (2 ^ 30)"
    by (simp add: units_factor_def c_strncaseeq_def c_strcaseeq_def c_tolower_def c_isupper_def uchar_def)
  then show ?thesis by (rule pr_str_get_nbytes_exact [rotated]) simp_all
qed

text \<open>Above that, the number is rounded to the 24 bits of a \<open>float\<close>, even without a unit; and a minus sign behind a
  blank is not rejected.\<close>

lemma nbytes_rounded: "pr_str_get_nbytes (Some (dec_digits 16777217)) None = Some (Inr 16777216)"
proof -
  have "nbits 16777217 = 25" by (simp add: nbits.simps)
  then have "c_float 16777217 = 16777216" by (simp add: c_float_def Let_def)
  then show ?thesis
    using c_strtoull10_dec [of 16777217] dec_digits_not_minus [of 16777217]
    by (simp add: pr_str_get_nbytes_def units_factor_def float_off_def to_off_def)
qed

lemma nbytes_negative: "pr_str_get_nbytes (Some '' -5'') None = Some (Inr (- 5))"
  by (simp add: pr_str_get_nbytes_def units_factor_def c_strtoull10_def split_sign_def c_isspace_def c_isdigit_def
      digit_val_def uchar_def float_off_def to_off_def c_float_exact)

text \<open>The search for the end of the text leaves a blank string at its beginning.\<close>

lemma strip_blank_faults: "pr_str_strip True (Some '' '') = None"
  by (simp add: pr_str_strip_def c_isspace_def uchar_def)

end
