(* ===== verification/Expr.thy ===== *)
theory Expr
  imports Strs
begin

text \<open>
  The user, group and class expressions of \<open>src/expr.c\<close>: \<open>pr_expr_create\<close> turns the arguments of a directive
  into a list of names, each possibly negated by \<open>!\<close>, and six functions evaluate such a list against the
  fields of the global \<open>session\<close>. The \<open>NULL\<close>-terminated array of an expression is the list of its names.
\<close>

section \<open>Session fields and names\<close>

record expr_session =
  es_conn_class :: "string option"
  es_user :: "string option"
  es_group :: "string option"
  es_groups :: "string option list option"

text \<open>The prefix \<open>!\<close> of a name and the name without it.\<close>

definition split_bang :: "string \<Rightarrow> bool \<times> string" where
  "split_bang s = (if take 1 s = ''!'' then (True, tl s) else (False, s))"

section \<open>Creation\<close>

text \<open>The tokens of an argument with a comma in it; empty ones are left out.\<close>

function expr_tokens :: "string \<Rightarrow> string list" where
  "expr_tokens s =
     (case pr_str_get_token (Some s) (Some '','') of
        (Inl _, _) \<Rightarrow> []
      | (Inr ent, s') \<Rightarrow> (if ent \<noteq> [] then [ent] else []) @ expr_tokens (the s'))"
  by pat_completeness auto
termination
  by (relation "measure length")
    (auto simp: pr_str_get_token_def pr_str_get_token2_def Let_def split: if_splits)

declare expr_tokens.simps [simp del]

definition expr_arg :: "string \<Rightarrow> string list" where
  "expr_arg s = (if c_strstr s '','' \<noteq> None then expr_tokens s else [s])"

text \<open>The argument vector with its count, which the function sets to the number of names.\<close>

definition pr_expr_create :: "bool \<Rightarrow> int option \<Rightarrow> string list option \<Rightarrow> string list result \<times> int option" where
  "pr_expr_create have_pool argc argv =
     (case argc of
        None \<Rightarrow> (Inl EINVAL, argc)
      | Some cnt \<Rightarrow>
          (case argv of
             None \<Rightarrow> (Inl EINVAL, argc)
           | Some args \<Rightarrow>
               (if \<not> have_pool \<or> args = [] then (Inl EINVAL, argc)
                else if cnt > 0 then
                  (let acl = concat (map expr_arg (take (nat cnt) (tl args))) in (Inr acl, Some (int (length acl))))
                else (Inr [], Some 0))))"

section \<open>Evaluation\<close>

fun class_and_loop :: "expr_session \<Rightarrow> string list \<Rightarrow> bool" where
  "class_and_loop s [] = True"
| "class_and_loop s (e # es) =
     (let (found, name) = split_bang e in
      if es_conn_class s = None \<and> \<not> found then False
      else
        (let found = (if es_conn_class s = Some name then \<not> found else found) in
         if \<not> found then False else class_and_loop s es))"

definition pr_expr_eval_class_and :: "expr_session \<Rightarrow> string list option \<Rightarrow> bool result" where
  "pr_expr_eval_class_and s expr =
     (case expr of None \<Rightarrow> Inl EINVAL | Some es \<Rightarrow> (if es = [] then Inl EINVAL else Inr (class_and_loop s es)))"

fun class_or_loop :: "expr_session \<Rightarrow> string list \<Rightarrow> bool" where
  "class_or_loop s [] = False"
| "class_or_loop s (e # es) =
     (let (found, name) = split_bang e in
      if es_conn_class s = None then found
      else
        (let found = (if es_conn_class s = Some name then \<not> found else found) in
         if found then True else class_or_loop s es))"

definition pr_expr_eval_class_or :: "expr_session \<Rightarrow> string list option \<Rightarrow> bool result" where
  "pr_expr_eval_class_or s expr =
     (case expr of None \<Rightarrow> Inl EINVAL | Some es \<Rightarrow> (if es = [] then Inl EINVAL else Inr (class_or_loop s es)))"

text \<open>The test of the primary group and then of the supplementary groups.\<close>

fun groups_scan :: "string \<Rightarrow> string option list \<Rightarrow> bool" where
  "groups_scan grp [] = False"
| "groups_scan grp (g # gs) = (if g = Some grp then True else groups_scan grp gs)"

definition group_flip :: "expr_session \<Rightarrow> string \<Rightarrow> bool \<Rightarrow> bool" where
  "group_flip s grp found =
     (if es_group s = Some grp then \<not> found
      else
        (case es_groups s of
           None \<Rightarrow> found
         | Some gs \<Rightarrow> (if groups_scan grp gs then \<not> found else found)))"

fun group_and_loop :: "expr_session \<Rightarrow> string list \<Rightarrow> bool" where
  "group_and_loop s [] = True"
| "group_and_loop s (e # es) =
     (let (found, grp) = split_bang e; found = group_flip s grp found in
      if \<not> found then False else group_and_loop s es)"

definition pr_expr_eval_group_and :: "expr_session \<Rightarrow> string list option \<Rightarrow> bool result" where
  "pr_expr_eval_group_and s expr =
     (case expr of None \<Rightarrow> Inl EINVAL | Some es \<Rightarrow> (if es = [] then Inl EINVAL else Inr (group_and_loop s es)))"

fun group_or_loop :: "expr_session \<Rightarrow> string list \<Rightarrow> bool" where
  "group_or_loop s [] = False"
| "group_or_loop s (e # es) =
     (let (found, grp) = split_bang e; found = group_flip s grp found in
      if found then True else group_or_loop s es)"

definition pr_expr_eval_group_or :: "expr_session \<Rightarrow> string list option \<Rightarrow> bool result" where
  "pr_expr_eval_group_or s expr =
     (case expr of None \<Rightarrow> Inl EINVAL | Some es \<Rightarrow> (if es = [] then Inl EINVAL else Inr (group_or_loop s es)))"

fun user_and_loop :: "expr_session \<Rightarrow> string list \<Rightarrow> bool" where
  "user_and_loop s [] = True"
| "user_and_loop s (e # es) =
     (let (found, user) = split_bang e;
          found = (if es_user s = Some user then \<not> found else found)
      in if \<not> found then False else user_and_loop s es)"

definition pr_expr_eval_user_and :: "expr_session \<Rightarrow> string list option \<Rightarrow> bool result" where
  "pr_expr_eval_user_and s expr =
     (case expr of None \<Rightarrow> Inl EINVAL | Some es \<Rightarrow> (if es = [] then Inl EINVAL else Inr (user_and_loop s es)))"

fun user_or_loop :: "expr_session \<Rightarrow> string list \<Rightarrow> bool" where
  "user_or_loop s [] = False"
| "user_or_loop s (e # es) =
     (let (found, user) = split_bang e;
          found = (if es_user s = Some user then \<not> found else found)
      in if found then True else user_or_loop s es)"

definition pr_expr_eval_user_or :: "expr_session \<Rightarrow> string list option \<Rightarrow> bool result" where
  "pr_expr_eval_user_or s expr =
     (case expr of None \<Rightarrow> Inl EINVAL | Some es \<Rightarrow> (if es = [] then Inl EINVAL else Inr (user_or_loop s es)))"

section \<open>What an expression means\<close>

definition expr_holds :: "(string \<Rightarrow> bool) \<Rightarrow> string \<Rightarrow> bool" where
  "expr_holds mem e = (let (neg, name) = split_bang e in mem name \<noteq> neg)"

text \<open>The evaluation loops share a contract: each name is tested by one membership predicate, the first name that
  decides ends the loop.\<close>

locale expr_loops =
  fixes mem :: "string \<Rightarrow> bool"
    and and_loop :: "string list \<Rightarrow> bool"
    and or_loop :: "string list \<Rightarrow> bool"
  assumes and_Nil: "and_loop []"
    and and_Cons: "and_loop (e # es) \<longleftrightarrow> expr_holds mem e \<and> and_loop es"
    and or_Nil: "\<not> or_loop []"
    and or_Cons: "or_loop (e # es) \<longleftrightarrow> expr_holds mem e \<or> or_loop es"
begin

lemma and_all: "and_loop es \<longleftrightarrow> (\<forall>e \<in> set es. expr_holds mem e)"
  by (induction es) (simp_all add: and_Nil and_Cons)

lemma or_ex: "or_loop es \<longleftrightarrow> (\<exists>e \<in> set es. expr_holds mem e)"
  by (induction es) (simp_all add: or_Nil or_Cons)

end

definition user_mem :: "expr_session \<Rightarrow> string \<Rightarrow> bool" where
  "user_mem s name \<longleftrightarrow> es_user s = Some name"

definition group_mem :: "expr_session \<Rightarrow> string \<Rightarrow> bool" where
  "group_mem s name \<longleftrightarrow>
     es_group s = Some name \<or> (\<exists>gs. es_groups s = Some gs \<and> Some name \<in> set gs)"

definition class_mem :: "expr_session \<Rightarrow> string \<Rightarrow> bool" where
  "class_mem s name \<longleftrightarrow> es_conn_class s = Some name"

lemma groups_scan_iff: "groups_scan grp gs \<longleftrightarrow> Some grp \<in> set gs"
  by (induction gs) auto

lemma group_flip_iff: "group_flip s grp found \<longleftrightarrow> group_mem s grp \<noteq> found"
  by (auto simp: group_flip_def group_mem_def groups_scan_iff split: option.splits)

interpretation user_expr: expr_loops "user_mem s" "user_and_loop s" "user_or_loop s"
  by unfold_locales (auto simp: expr_holds_def user_mem_def split: prod.splits)

interpretation group_expr: expr_loops "group_mem s" "group_and_loop s" "group_or_loop s"
  by unfold_locales (auto simp: expr_holds_def group_flip_iff split: prod.splits)

text \<open>The loop for class alternatives returns early in a session without a class; the alternatives are then
  evaluated as the first name alone.\<close>

definition class_or_names :: "expr_session \<Rightarrow> string list \<Rightarrow> bool" where
  "class_or_names s es \<longleftrightarrow> (if es_conn_class s = None then list_ex (expr_holds (class_mem s)) es else class_or_loop s es)"

interpretation class_expr: expr_loops "class_mem s" "class_and_loop s" "class_or_names s"
  by unfold_locales
    (auto simp: expr_holds_def class_mem_def class_or_names_def split: prod.splits)

lemma class_or_with_class: "es_conn_class s \<noteq> None \<Longrightarrow> class_or_names s es = class_or_loop s es"
  by (auto simp: class_or_names_def)


definition demo_session :: expr_session where
  "demo_session = \<lparr>es_conn_class = Some ''lan'', es_user = Some ''bob'', es_group = Some ''staff'',
     es_groups = Some [Some ''ftp'', None, Some ''web'']\<rparr>"


text \<open>In a session without a class, \<open>pr_expr_eval_class_or\<close> answers from the first name alone: the alternatives
  after it are not looked at, so an expression whose later name holds is rejected.\<close>

theorem pr_expr_eval_class_or_first_only:
  assumes "es_conn_class s = None"
  shows "pr_expr_eval_class_or s (Some (e # es)) = Inr (fst (split_bang e))"
  using assms by (simp add: pr_expr_eval_class_or_def split: prod.splits)

theorem pr_expr_eval_class_or_first_only_witness:
  "pr_expr_eval_class_or (demo_session\<lparr>es_conn_class := None\<rparr>) (Some [''lan'', ''!wan'']) = Inr False \<and>
   expr_holds (class_mem (demo_session\<lparr>es_conn_class := None\<rparr>)) ''!wan''"
  using pr_expr_eval_class_or_first_only [of "demo_session\<lparr>es_conn_class := None\<rparr>" "''lan''" "[''!wan'']"]
  by (simp add: split_bang_def expr_holds_def class_mem_def)

section \<open>Creation\<close>

fun join_names :: "string list \<Rightarrow> string" where
  "join_names [] = []"
| "join_names [n] = n"
| "join_names (n # ns) = n @ '','' @ join_names ns"

lemma token_comma:
  "CHR '','' \<notin> set n \<Longrightarrow> n \<noteq> [] \<Longrightarrow> pr_str_get_token (Some (n @ CHR '','' # s)) (Some '','') = (Inr n, Some s)"
  "CHR '','' \<notin> set n \<Longrightarrow> n \<noteq> [] \<Longrightarrow> pr_str_get_token (Some n) (Some '','') = (Inr n, Some [])"
proof -
  assume "CHR '','' \<notin> set n" "n \<noteq> []"
  then have tw: "takeWhile (\<lambda>c. c \<noteq> CHR '','') (n @ CHR '','' # s) = n" "takeWhile (\<lambda>c. c \<noteq> CHR '','') n = n"
    by (auto simp: takeWhile_append takeWhile_eq_all_conv)
  show "pr_str_get_token (Some (n @ CHR '','' # s)) (Some '','') = (Inr n, Some s)"
    by (simp add: pr_str_get_token_def pr_str_get_token2_def Let_def tw)
  show "pr_str_get_token (Some n) (Some '','') = (Inr n, Some [])"
    using \<open>n \<noteq> []\<close> by (simp add: pr_str_get_token_def pr_str_get_token2_def Let_def tw)
qed

lemma expr_tokens_Nil: "expr_tokens [] = []"
  by (subst expr_tokens.simps) (simp add: pr_str_get_token_def pr_str_get_token2_def)

lemma expr_tokens_join:
  "\<forall>n \<in> set ns. n \<noteq> [] \<and> CHR '','' \<notin> set n \<Longrightarrow> expr_tokens (join_names ns) = ns"
proof (induction ns rule: join_names.induct)
  case 1
  then show ?case by (simp add: expr_tokens_Nil)
next
  case (2 n)
  then show ?case using token_comma(2) [of n] by (subst expr_tokens.simps) (simp add: expr_tokens_Nil)
next
  case (3 n m ns)
  then show ?case using token_comma(1) [of n "join_names (m # ns)"] by (subst expr_tokens.simps) simp
qed

lemma strstr_comma: "c_strstr s '','' = None \<longleftrightarrow> CHR '','' \<notin> set s"
  by (induction s) auto

lemma expr_arg_join:
  assumes "\<forall>n \<in> set ns. n \<noteq> [] \<and> CHR '','' \<notin> set n" and "ns \<noteq> []"
  shows "expr_arg (join_names ns) = ns"
proof (cases "CHR '','' \<in> set (join_names ns)")
  case True
  then show ?thesis using expr_tokens_join [OF assms(1)] strstr_comma [of "join_names ns"] by (simp add: expr_arg_def)
next
  case False
  then have "\<exists>n. ns = [n]" using assms(2) by (cases ns rule: join_names.cases) auto
  then show ?thesis using False by (auto simp: expr_arg_def strstr_comma)
qed

text \<open>\<open>pr_expr_create\<close> collects the names of a directive: when each argument after the directive's own name lists
  names joined by commas, the result has all of them, in order, and the count is set to their number.\<close>

theorem pr_expr_create_collects:
  assumes "\<forall>ns \<in> set nss. ns \<noteq> [] \<and> (\<forall>n \<in> set ns. n \<noteq> [] \<and> CHR '','' \<notin> set n)" and "nss \<noteq> []"
    and "int (length nss) \<le> cnt"
  shows "pr_expr_create True (Some cnt) (Some (directive # map join_names nss)) =
    (Inr (concat nss), Some (int (length (concat nss))))"
proof -
  have "map expr_arg (map join_names nss) = nss" using assms(1) expr_arg_join by (auto intro: map_idI)
  moreover have "take (nat cnt) (map join_names nss) = map join_names nss" "0 < cnt"
    using assms(2,3) by (simp_all add: order_less_le_trans [of 0 "int (length nss)" cnt])
  ultimately show ?thesis by (simp add: pr_expr_create_def Let_def del: map_map)
qed

theorem pr_expr_create_collects_witness:
  "pr_expr_create True (Some 3) (Some [''AllowUser'', ''bob,!eve'', ''carol'']) =
     (Inr [''bob'', ''!eve'', ''carol''], Some 3)"
  using pr_expr_create_collects [of "[[''bob'', ''!eve''], [''carol'']]" 3 "''AllowUser''"] by simp

end
