(* ===== verification/Cmd.thy ===== *)
theory Cmd
  imports Strs
begin

text \<open>
  Command records, \<open>src/cmd.c\<close>: the numeric identifiers of the FTP commands, comparison of a command with a name or
  an identifier, the text of a command that may be logged, and the detection of HTTP and SMTP commands. The
  table \<open>notes\<close> of a record is the map that \<open>Table_Laws\<close> shows a table to implement. The conversion of a
  path between character sets by \<open>iconv\<close> is a parameter.
\<close>

section \<open>Tables of names\<close>

type_synonym cmd_entry = "string \<times> nat"

definition cmd_ids :: "cmd_entry list" where
  "cmd_ids =
    [('' '', 1), (''USER'', 4), (''PASS'', 4), (''ACCT'', 4), (''CWD'', 3), (''XCWD'', 4), (''CDUP'', 4),
     (''XCUP'', 4), (''SMNT'', 4), (''REIN'', 4), (''QUIT'', 4), (''PORT'', 4), (''EPRT'', 4), (''PASV'', 4),
     (''EPSV'', 4), (''TYPE'', 4), (''STRU'', 4), (''MODE'', 4), (''RETR'', 4), (''STOR'', 4), (''STOU'', 4),
     (''APPE'', 4), (''ALLO'', 4), (''REST'', 4), (''RNFR'', 4), (''RNTO'', 4), (''ABOR'', 4), (''DELE'', 4),
     (''MDTM'', 4), (''RMD'', 3), (''XRMD'', 4), (''MKD'', 3), (''MLSD'', 4), (''MLST'', 4), (''XMKD'', 4),
     (''PWD'', 3), (''XPWD'', 4), (''SIZE'', 4), (''LIST'', 4), (''NLST'', 4), (''SITE'', 4), (''SYST'', 4),
     (''STAT'', 4), (''HELP'', 4), (''NOOP'', 4), (''FEAT'', 4), (''OPTS'', 4), (''LANG'', 4), (''ADAT'', 4),
     (''AUTH'', 4), (''CCC'', 3), (''CONF'', 4), (''ENC'', 3), (''MIC'', 3), (''PBSZ'', 4), (''PROT'', 4),
     (''MFF'', 3), (''MFMT'', 4), (''HOST'', 4)]"

definition http_ids :: "cmd_entry list" where
  "http_ids =
    [('' '', 1), (''CONNECT'', 7), (''DELETE'', 6), (''GET'', 3), (''HEAD'', 4), (''OPTIONS'', 7), (''PATCH'', 5),
     (''POST'', 4), (''PUT'', 3)]"

definition smtp_ids :: "cmd_entry list" where
  "smtp_ids =
    [('' '', 1), (''DATA'', 4), (''EHLO'', 4), (''HELO'', 4), (''MAIL'', 4), (''RCPT'', 4), (''RSET'', 4),
     (''VRFY'', 4)]"

definition PR_CMD_MIN_NAMELEN :: nat where "PR_CMD_MIN_NAMELEN = 3"
definition PR_CMD_MAX_NAMELEN :: nat where "PR_CMD_MAX_NAMELEN = 4"
definition PR_CMD_PASS_ID :: int where "PR_CMD_PASS_ID = 2"
definition PR_CMD_ADAT_ID :: int where "PR_CMD_ADAT_ID = 48"

section \<open>Command records\<close>

text \<open>The array \<open>argv\<close> has one slot more than \<open>argc\<close>, which holds \<open>NULL\<close>; a command of no words has no array.\<close>

record cmd_rec =
  cmd_argc :: int
  cmd_argv :: "string option list option"
  cmd_id :: int
  cmd_stash_index :: int
  cmd_notes :: "string \<Rightarrow> string option"

definition pr_cmd_alloc :: "bool \<Rightarrow> string list \<Rightarrow> cmd_rec result" where
  "pr_cmd_alloc have_pool args =
     (if \<not> have_pool then Inl EINVAL
      else Inr \<lparr>cmd_argc = int (length args),
                cmd_argv = (if args = [] then None else Some (map Some args @ [None])),
                cmd_id = 0, cmd_stash_index = - 1, cmd_notes = Map.empty\<rparr>)"

definition pr_cmd_clear_cache :: "cmd_rec option \<Rightarrow> unit result \<times> cmd_rec option" where
  "pr_cmd_clear_cache cmd =
     with_obj cmd (\<lambda>c. (Inr (), c\<lparr>cmd_notes := (cmd_notes c)(''displayable-str'' := None)\<rparr>))"

section \<open>Identifiers\<close>

text \<open>The scan of the table from an index on.\<close>

fun get_id_scan :: "string \<Rightarrow> nat \<Rightarrow> cmd_entry list \<Rightarrow> int result" where
  "get_id_scan name i [] = Inl ENOENT"
| "get_id_scan name i ((n, len) # es) =
     (if len \<noteq> length name then get_id_scan name (Suc i) es
      else if hd n \<noteq> hd name then get_id_scan name (Suc i) es
      else if n = name then Inr (int i)
      else get_id_scan name (Suc i) es)"

definition pr_cmd_get_id :: "string option \<Rightarrow> int result" where
  "pr_cmd_get_id name =
     (case name of
        None \<Rightarrow> Inl EINVAL
      | Some n \<Rightarrow>
          (if length n < PR_CMD_MIN_NAMELEN \<or> length n > PR_CMD_MAX_NAMELEN then Inl ENOENT
           else get_id_scan n 1 (tl cmd_ids)))"

text \<open>The integer that the caller sees.\<close>

definition ret_int :: "int result \<Rightarrow> int" where
  "ret_int r = (case r of Inl _ \<Rightarrow> - 1 | Inr i \<Rightarrow> i)"

definition no_words :: "cmd_rec \<Rightarrow> bool" where
  "no_words c \<longleftrightarrow> cmd_argc c = 0 \<or> cmd_argv c = None"

definition argv0 :: "cmd_rec \<Rightarrow> string option" where
  "argv0 c = hd (the (cmd_argv c))"

definition learn_id :: "cmd_rec \<Rightarrow> cmd_rec" where
  "learn_id c = (if cmd_id c = 0 then c\<lparr>cmd_id := ret_int (pr_cmd_get_id (argv0 c))\<rparr> else c)"

definition pr_cmd_cmp :: "cmd_rec option \<Rightarrow> int \<Rightarrow> int result \<times> cmd_rec option" where
  "pr_cmd_cmp cmd cid =
     with_obj cmd (\<lambda>c.
       if cid \<le> 0 then (Inl EINVAL, c)
       else if no_words c then (Inr 1, c)
       else
         (let c = learn_id c in
          if cmd_id c < 0 then (Inr 1, c)
          else if cmd_id c = cid then (Inr 0, c)
          else (Inr (if cmd_id c < cid then - 1 else 1), c)))"

definition pr_cmd_set_name :: "cmd_rec option \<Rightarrow> string option \<Rightarrow> (unit result \<times> cmd_rec option) option" where
  "pr_cmd_set_name cmd name =
     with_objx cmd (\<lambda>c.
       case name of
         None \<Rightarrow> Some (Inl EINVAL, c)
       | Some n \<Rightarrow>
           (case cmd_argv c of
              None \<Rightarrow> None
            | Some argv \<Rightarrow>
                Some (Inr (), c\<lparr>cmd_argv := Some (argv[0 := Some n]), cmd_id := ret_int (pr_cmd_get_id (Some n))\<rparr>)))"

definition pr_cmd_strcmp :: "cmd_rec option \<Rightarrow> string option \<Rightarrow> (int result \<times> cmd_rec option) option" where
  "pr_cmd_strcmp cmd name =
     with_objx cmd (\<lambda>c.
       case name of
         None \<Rightarrow> Some (Inl EINVAL, c)
       | Some n \<Rightarrow>
           (if no_words c then Some (Inr 1, c)
            else
              (let c = learn_id c in
               if cmd_id c > 0 then
                 (let res = fst (pr_cmd_cmp (Some c) (ret_int (pr_cmd_get_id (Some n)))) in
                  if res = Inr 0 then Some (Inr 0, c)
                  else if nat (cmd_id c) \<ge> length cmd_ids then None
                  else
                    (case argv0 c of
                       None \<Rightarrow> None
                     | Some a \<Rightarrow> Some (Inr (c_strncmp n a (snd (cmd_ids ! nat (cmd_id c)) + 1)), c)))
               else
                 (case argv0 c of
                    None \<Rightarrow> None
                  | Some a \<Rightarrow> Some (Inr (c_strncmp a n (length n + 1)), c)))))"

section \<open>The text for logs\<close>

text \<open>\<open>pr_fs_decode_path\<close>: without a configured encoding, and when the conversion fails, the path as it is.\<close>

definition pr_fs_decode_path :: "bool \<Rightarrow> (string \<Rightarrow> string option) \<Rightarrow> string \<Rightarrow> string" where
  "pr_fs_decode_path use_encoding decode path =
     (if \<not> use_encoding then path else (case decode path of None \<Rightarrow> path | Some s \<Rightarrow> s))"

text \<open>A \<open>NULL\<close> among the words ends the arguments of the \<open>pstrcat\<close> that adds it.\<close>

definition decoded_word :: "bool \<Rightarrow> (string \<Rightarrow> string option) \<Rightarrow> string option \<Rightarrow> string" where
  "decoded_word enc decode w = (case w of None \<Rightarrow> [] | Some s \<Rightarrow> pr_fs_decode_path enc decode s)"

fun add_words :: "bool \<Rightarrow> (string \<Rightarrow> string option) \<Rightarrow> string \<Rightarrow> string option list \<Rightarrow> string" where
  "add_words enc decode res [] = res"
| "add_words enc decode res (w # ws) = add_words enc decode (res @ '' '' @ decoded_word enc decode w) ws"

definition pr_cmd_get_displayable_str ::
  "bool \<Rightarrow> (string \<Rightarrow> string option) \<Rightarrow> cmd_rec option \<Rightarrow> string result \<times> cmd_rec option" where
  "pr_cmd_get_displayable_str enc decode cmd =
     with_obj cmd (\<lambda>c.
       case cmd_notes c ''displayable-str'' of
         Some s \<Rightarrow> (Inr s, c)
       | None \<Rightarrow>
           (let (r1, c1) = pr_cmd_cmp (Some c) PR_CMD_PASS_ID;
                (r2, c2) = (if r1 = Inr 0 then (r1, c1) else pr_cmd_cmp c1 PR_CMD_ADAT_ID);
                c' = the c2;
                hide = (r2 = Inr 0);
                argc = (if hide then 2 else cmd_argc c');
                argv = (if hide then map_option (\<lambda>v. v[1 := Some ''(hidden)'']) (cmd_argv c') else cmd_argv c');
                words = (case argv of None \<Rightarrow> [] | Some v \<Rightarrow> take (nat argc) v);
                res = (case words of
                         [] \<Rightarrow> []
                       | w # ws \<Rightarrow> add_words enc decode (decoded_word enc decode w) ws)
            in (Inr res, c'\<lparr>cmd_argv := argv, cmd_notes := (cmd_notes c')(''displayable-str'' \<mapsto> res)\<rparr>)))"

section \<open>Commands of other protocols\<close>

fun is_known_cmd :: "cmd_entry list \<Rightarrow> string \<Rightarrow> nat \<Rightarrow> bool" where
  "is_known_cmd [] name len = False"
| "is_known_cmd ((n, l) # es) name len =
     (if len = l \<and> c_strneq name n (len + 1) then True else is_known_cmd es name len)"

definition pr_cmd_is_http :: "cmd_rec option \<Rightarrow> bool result option" where
  "pr_cmd_is_http cmd =
     (case cmd of
        None \<Rightarrow> Some (Inl EINVAL)
      | Some c \<Rightarrow>
          (case cmd_argv c of
             None \<Rightarrow> None
           | Some argv \<Rightarrow>
               (case hd argv of
                  None \<Rightarrow> Some (Inl EINVAL)
                | Some name \<Rightarrow> Some (Inr (is_known_cmd http_ids name (length name))))))"

definition pr_cmd_is_smtp :: "cmd_rec option \<Rightarrow> bool result option" where
  "pr_cmd_is_smtp cmd =
     (case cmd of
        None \<Rightarrow> Some (Inl EINVAL)
      | Some c \<Rightarrow>
          (case cmd_argv c of
             None \<Rightarrow> None
           | Some argv \<Rightarrow>
               (case hd argv of
                  None \<Rightarrow> Some (Inl EINVAL)
                | Some name \<Rightarrow> Some (Inr (is_known_cmd smtp_ids name (length name))))))"

section \<open>Identifiers\<close>

lemma get_id_scan_sound:
  "get_id_scan name i es = Inr k \<Longrightarrow> \<exists>j < length es. k = int (i + j) \<and> fst (es ! j) = name"
proof (induction name i es rule: get_id_scan.induct)
  case (2 name i n len es)
  show ?case
  proof (cases "len = length name \<and> hd n = hd name \<and> n = name")
    case True
    then show ?thesis using 2(4) by (intro exI [of _ 0]) auto
  next
    case False
    then have "get_id_scan name (Suc i) es = Inr k" using 2(4) by (auto split: if_splits)
    then obtain j where "j < length es" "k = int (Suc i + j)" "fst (es ! j) = name" using 2(1-3) False by blast
    then show ?thesis by (intro exI [of _ "Suc j"]) auto
  qed
qed simp

lemma get_id_scan_complete:
  assumes "\<forall>(n, l) \<in> set es. l = length n" and "j < length es" and "distinct (map fst es)"
  shows "get_id_scan (fst (es ! j)) i es = Inr (int (i + j))"
  using assms
proof (induction es arbitrary: i j)
  case (Cons e es)
  obtain n l where e: "e = (n, l)" by (cases e)
  show ?case
  proof (cases j)
    case 0
    then show ?thesis using Cons.prems(1) e by auto
  next
    case (Suc k)
    then have "fst (es ! k) \<noteq> n" using Cons.prems(2,3) e nth_mem [of k es] by force
    then show ?thesis using Cons.IH [of k "Suc i"] Cons.prems e Suc by auto
  qed
qed simp

lemma cmd_ids_lengths: "\<forall>(n, l) \<in> set cmd_ids. l = length n"
  by (simp add: cmd_ids_def)

lemma cmd_ids_distinct: "distinct (map fst cmd_ids)"
  by (simp add: cmd_ids_def)

lemma cmd_ids_range: "\<forall>e \<in> set (tl cmd_ids). PR_CMD_MIN_NAMELEN \<le> length (fst e) \<and> length (fst e) \<le> PR_CMD_MAX_NAMELEN"
  by (simp add: cmd_ids_def PR_CMD_MIN_NAMELEN_def PR_CMD_MAX_NAMELEN_def)

lemma cmd_ids_length: "length cmd_ids = 59"
  by (simp add: cmd_ids_def)

text \<open>The identifier of a name is its index in the table.\<close>

lemma get_id_iff: "pr_cmd_get_id (Some n) = Inr i \<longleftrightarrow> 1 \<le> i \<and> i < 59 \<and> fst (cmd_ids ! nat i) = n"
proof
  assume "pr_cmd_get_id (Some n) = Inr i"
  then have "get_id_scan n 1 (tl cmd_ids) = Inr i" by (auto simp: pr_cmd_get_id_def split: if_splits)
  from get_id_scan_sound [OF this] obtain j where j: "j < length (tl cmd_ids)" "i = int (1 + j)" "fst (tl cmd_ids ! j) = n"
    by blast
  have "tl cmd_ids ! j = cmd_ids ! nat i" using j(1,2) by (simp add: nth_tl nat_add_distrib)
  then show "1 \<le> i \<and> i < 59 \<and> fst (cmd_ids ! nat i) = n" using j cmd_ids_length by auto
next
  assume i: "1 \<le> i \<and> i < 59 \<and> fst (cmd_ids ! nat i) = n"
  let ?j = "nat i - 1"
  have j: "?j < length (tl cmd_ids)" "i = int (1 + ?j)" using i cmd_ids_length by auto
  have nth: "tl cmd_ids ! ?j = cmd_ids ! nat i" using j i by (simp add: nth_tl)
  have "\<forall>(n, l) \<in> set (tl cmd_ids). l = length n" "distinct (map fst (tl cmd_ids))"
    using cmd_ids_lengths cmd_ids_distinct list.set_sel(2) [of cmd_ids] cmd_ids_length
    by (fastforce, simp add: map_tl distinct_tl)
  then have "get_id_scan n 1 (tl cmd_ids) = Inr i"
    using get_id_scan_complete [of "tl cmd_ids" ?j 1] j i nth by auto
  moreover have "PR_CMD_MIN_NAMELEN \<le> length n \<and> length n \<le> PR_CMD_MAX_NAMELEN"
    using cmd_ids_range nth j(1) i by (metis nth_mem)
  ultimately show "pr_cmd_get_id (Some n) = Inr i" by (auto simp: pr_cmd_get_id_def)
qed

text \<open>A record in which the cached identifier, if any, is the one of the command's name.\<close>

definition cmd_ok :: "cmd_rec \<Rightarrow> bool" where
  "cmd_ok c \<longleftrightarrow> \<not> no_words c \<and> the (cmd_argv c) \<noteq> [] \<and> argv0 c \<noteq> None \<and> NUL \<notin> set (the (argv0 c)) \<and>
     (cmd_id c = 0 \<or> cmd_id c = ret_int (pr_cmd_get_id (argv0 c)))"

lemma pr_cmd_alloc_ok:
  "args \<noteq> [] \<Longrightarrow> NUL \<notin> set (hd args) \<Longrightarrow> pr_cmd_alloc True args = Inr c \<Longrightarrow> cmd_ok c"
  by (cases args) (auto simp: pr_cmd_alloc_def cmd_ok_def no_words_def argv0_def)

lemma learn_id_ok:
  assumes "cmd_ok c" and "argv0 c = Some a"
  shows "cmd_id (learn_id c) = ret_int (pr_cmd_get_id (Some a))" "argv0 (learn_id c) = Some a"
    "no_words (learn_id c) = no_words c"
  using assms by (auto simp: learn_id_def cmd_ok_def argv0_def no_words_def)

lemma learn_id_fields [simp]:
  "cmd_argv (learn_id c) = cmd_argv c" "cmd_notes (learn_id c) = cmd_notes c" "cmd_argc (learn_id c) = cmd_argc c"
  "argv0 (learn_id c) = argv0 c" "no_words (learn_id c) = no_words c"
  by (simp_all add: learn_id_def argv0_def no_words_def)

lemma learn_id_cmd_ok: "cmd_ok c \<Longrightarrow> cmd_ok (learn_id c)"
  by (cases "cmd_id c = 0") (auto simp: cmd_ok_def learn_id_def argv0_def no_words_def)

lemma cmp_record: "cid > 0 \<Longrightarrow> \<not> no_words c \<Longrightarrow> snd (pr_cmd_cmp (Some c) cid) = Some (learn_id c)"
  by (simp add: pr_cmd_cmp_def Let_def)

lemma cmp_zero:
  assumes "cmd_ok c" and "argv0 c = Some a" and "cid > 0"
  shows "fst (pr_cmd_cmp (Some c) cid) = Inr 0 \<longleftrightarrow> pr_cmd_get_id (Some a) = Inr cid"
proof -
  have "\<not> no_words c" using assms(1) by (simp add: cmd_ok_def)
  then show ?thesis
    using learn_id_ok [OF assms(1,2)] assms(3)
    by (cases "pr_cmd_get_id (Some a)") (auto simp: pr_cmd_cmp_def Let_def ret_int_def)
qed

lemma strncmp_whole:
  "NUL \<notin> set a \<Longrightarrow> NUL \<notin> set b \<Longrightarrow> c_strncmp a b (length b + 1) = 0 \<longleftrightarrow> a = b"
  "NUL \<notin> set a \<Longrightarrow> NUL \<notin> set b \<Longrightarrow> c_strncmp b a (length b + 1) = 0 \<longleftrightarrow> a = b"
proof -
  assume n: "NUL \<notin> set a" "NUL \<notin> set b"
  have "take (length b + 1) a = b \<longleftrightarrow> a = b"
    by (metis add_diff_cancel_left' length_take min_def_raw nat_le_linear not_one_le_zero not_less_eq_eq Suc_eq_plus1 take_all)
  then show "c_strncmp a b (length b + 1) = 0 \<longleftrightarrow> a = b" "c_strncmp b a (length b + 1) = 0 \<longleftrightarrow> a = b"
    unfolding c_strncmp_zero_iff using n by auto
qed

text \<open>\<open>pr_cmd_strcmp\<close> compares names: for a record whose cached identifier is not that of another name it returns zero
  exactly when the name is the command's, although for the commands it knows it compares identifiers first and
  then only as many characters as the table records.\<close>

theorem pr_cmd_strcmp_equal:
  assumes "cmd_ok c" and "argv0 c = Some a" and "NUL \<notin> set n"
  shows "\<exists>r. pr_cmd_strcmp (Some c) (Some n) = Some (Inr r, Some (learn_id c)) \<and> (r = 0 \<longleftrightarrow> n = a)"
proof -
  let ?c = "learn_id c"
  note lk = learn_id_ok [OF assms(1,2)]
  have nw: "\<not> no_words c" and a: "NUL \<notin> set a" using assms(1,2) by (auto simp: cmd_ok_def)
  have ok: "cmd_ok ?c" by (rule learn_id_cmd_ok [OF assms(1)])
  show ?thesis
  proof (cases "cmd_id ?c > 0")
    case True
    then have id: "pr_cmd_get_id (Some a) = Inr (cmd_id ?c)"
      using lk(1) by (cases "pr_cmd_get_id (Some a)") (auto simp: ret_int_def)
    then have i: "1 \<le> cmd_id ?c" "cmd_id ?c < 59" "fst (cmd_ids ! nat (cmd_id ?c)) = a" using get_id_iff by auto
    then have len: "snd (cmd_ids ! nat (cmd_id ?c)) = length a"
      using cmd_ids_lengths cmd_ids_length nth_mem [of "nat (cmd_id ?c)" cmd_ids] by (fastforce split: prod.splits)
    let ?res = "fst (pr_cmd_cmp (Some ?c) (ret_int (pr_cmd_get_id (Some n))))"
    have same: "?res = Inr 0 \<Longrightarrow> n = a"
    proof -
      assume zero: "?res = Inr 0"
      then have pos: "ret_int (pr_cmd_get_id (Some n)) > 0"
        by (auto simp: pr_cmd_cmp_def Let_def split: if_splits)
      then have "pr_cmd_get_id (Some n) = Inr (ret_int (pr_cmd_get_id (Some n)))"
        by (cases "pr_cmd_get_id (Some n)") (auto simp: ret_int_def)
      moreover have "pr_cmd_get_id (Some a) = Inr (ret_int (pr_cmd_get_id (Some n)))"
        using cmp_zero [OF ok lk(2) pos] zero by simp
      ultimately show "n = a" using get_id_iff by metis
    qed
    show ?thesis
      using True nw i len lk(2) same strncmp_whole(1) [OF assms(3) a] cmd_ids_length
      by (auto simp: pr_cmd_strcmp_def Let_def)
  next
    case False
    then show ?thesis
      using nw lk(2) strncmp_whole(1) [OF a assms(3)] by (auto simp: pr_cmd_strcmp_def Let_def)
  qed
qed

theorem pr_cmd_strcmp_equal_witness:
  "\<exists>r c'. pr_cmd_strcmp (Some (projr (pr_cmd_alloc True [''MKD'', ''x'']))) (Some ''MKDX'') = Some (Inr r, c') \<and> r \<noteq> 0"
proof -
  have ok: "cmd_ok (projr (pr_cmd_alloc True [''MKD'', ''x'']))"
    by (rule pr_cmd_alloc_ok [of "[''MKD'', ''x'']"]) (simp_all add: pr_cmd_alloc_def)
  have a: "argv0 (projr (pr_cmd_alloc True [''MKD'', ''x''])) = Some ''MKD''" by (simp add: pr_cmd_alloc_def argv0_def)
  show ?thesis using pr_cmd_strcmp_equal [OF ok a, of "''MKDX''"] by auto
qed

section \<open>Passwords stay out of the logs\<close>

text \<open>C29. The text of a \<open>PASS\<close> or \<open>ADAT\<close> command that is made for logs and displays does not depend on its
  argument: for every password it is the name of the command followed by \<open>(hidden)\<close>, each in the configured
  character set. The argument is also overwritten in the record, and a second call gives the same text.\<close>

theorem displayable_str_hides_password:
  assumes "name = ''PASS'' \<or> name = ''ADAT''" and "pr_cmd_alloc True (name # secret # rest) = Inr c"
    and "shown = pr_fs_decode_path enc decode name @ '' '' @ pr_fs_decode_path enc decode ''(hidden)''"
  shows "\<exists>c'. pr_cmd_get_displayable_str enc decode (Some c) = (Inr shown, Some c') \<and>
    the (cmd_argv c') ! 1 = Some ''(hidden)'' \<and> fst (pr_cmd_get_displayable_str enc decode (Some c')) = Inr shown"
proof -
  have ok: "cmd_ok c" and argv: "cmd_argv c = Some (Some name # Some secret # map Some rest @ [None])"
    and nts: "cmd_notes c = Map.empty"
    using assms pr_cmd_alloc_ok [OF _ _ assms(2)] by (auto simp: pr_cmd_alloc_def)
  have a: "argv0 c = Some name" using argv by (simp add: argv0_def)
  have ids: "pr_cmd_get_id (Some ''PASS'') = Inr 2" "pr_cmd_get_id (Some ''ADAT'') = Inr 48"
    by (simp_all add: get_id_iff cmd_ids_def)
  have nw: "\<not> no_words c" using ok by (simp add: cmd_ok_def)
  let ?r1 = "pr_cmd_cmp (Some c) PR_CMD_PASS_ID"
  let ?r2 = "pr_cmd_cmp (Some (learn_id c)) PR_CMD_ADAT_ID"
  have records: "snd ?r1 = Some (learn_id c)" "snd ?r2 = Some (learn_id (learn_id c))"
    using cmp_record nw by (simp_all add: PR_CMD_PASS_ID_def PR_CMD_ADAT_ID_def)
  have hide: "fst ?r1 = Inr 0 \<or> fst ?r2 = Inr 0"
    using assms(1) cmp_zero [OF ok a] cmp_zero [OF learn_id_cmd_ok [OF ok]] a ids
    by (auto simp: PR_CMD_PASS_ID_def PR_CMD_ADAT_ID_def)
  show ?thesis
    using hide records argv nts assms(3)
    by (cases ?r1; cases ?r2) (auto simp: pr_cmd_get_displayable_str_def Let_def decoded_word_def)
qed

theorem displayable_str_hides_password_witness:
  "fst (pr_cmd_get_displayable_str False (\<lambda>_. None) (Some (projr (pr_cmd_alloc True [''PASS'', ''s3cret''])))) =
     Inr ''PASS (hidden)''"
proof -
  have "pr_cmd_alloc True [''PASS'', ''s3cret''] = Inr (projr (pr_cmd_alloc True [''PASS'', ''s3cret'']))"
    by (simp add: pr_cmd_alloc_def)
  from displayable_str_hides_password [OF _ this refl, of False "\<lambda>_. None"] show ?thesis
    by (auto simp: pr_fs_decode_path_def)
qed

section \<open>Foreign protocols\<close>

lemma is_known_cmd_iff:
  "\<forall>(n, l) \<in> set es. l = length n \<Longrightarrow> is_known_cmd es name (length name) \<longleftrightarrow> name \<in> fst ` set es"
  by (induction es) (auto simp: c_strneq_def)

lemma pr_cmd_is_http_iff:
  "cmd_argv c = Some (Some name # ws) \<Longrightarrow> pr_cmd_is_http (Some c) = Some (Inr (name \<in> fst ` set http_ids))"
  using is_known_cmd_iff [of http_ids name] by (simp add: pr_cmd_is_http_def http_ids_def)

end
