(* ===== verification/Response.thy ===== *)
theory Response
  imports C_Lib
begin

text \<open>
  Replies to the client, \<open>src/response.c\<close>: the two pending lists, the flush that frames them as single-line and
  multi-line replies, and the replies sent at once. The text of a message is given formatted. What is written
  to the control connection is the list of the texts handed to \<open>pr_netio_printf\<close>, each cut to the buffer of
  that function. Dereferencing \<open>NULL\<close> is the result \<open>None\<close>.
\<close>

section \<open>State\<close>

definition PR_TUNABLE_BUFFER_SIZE :: nat where "PR_TUNABLE_BUFFER_SIZE = 1024"
definition PR_RESPONSE_BUFFER_SIZE :: nat where "PR_RESPONSE_BUFFER_SIZE = 5120"

definition CRLF :: string where "CRLF = [CHR 0x0D, CHR 0x0A]"

text \<open>A pending message: the code, \<open>NULL\<close> for a continuation of the code before it, and the text.\<close>

type_synonym pr_response_t = "string option \<times> string"

text \<open>A registered handler formats its arguments by itself; it gets the format and the arguments.\<close>

type_synonym resp_handler = "string \<Rightarrow> string list \<Rightarrow> string"

record resp_state =
  resp_list :: "pr_response_t list"
  resp_err_list :: "pr_response_t list"
  resp_blocked :: bool
  resp_have_pool :: bool
  resp_last_code :: "string option"
  resp_last_msg :: "string option"
  resp_handler_cb :: "resp_handler option"
  resp_out :: "string list"

text \<open>What the flush reads of the session.\<close>

record resp_session =
  rsess_connected :: bool
  rsess_multiline_rfc2228 :: bool
  rsess_protected :: bool

section \<open>Writing\<close>

definition pr_netio_printf :: "string \<Rightarrow> string" where
  "pr_netio_printf s = take (PR_RESPONSE_BUFFER_SIZE - 1) s"

definition write_num_str :: "resp_handler option \<Rightarrow> char \<Rightarrow> string \<Rightarrow> string \<Rightarrow> string" where
  "write_num_str h sep num msg =
     pr_netio_printf (case h of
       Some f \<Rightarrow> f (''%s'' @ [sep] @ ''%s'' @ CRLF) [num, msg]
     | None \<Rightarrow> num @ [sep] @ msg @ CRLF)"

definition write_str :: "resp_handler option \<Rightarrow> string \<Rightarrow> string \<Rightarrow> string \<Rightarrow> string" where
  "write_str h before after msg =
     pr_netio_printf (case h of
       Some f \<Rightarrow> f (before @ ''%s'' @ after) [msg]
     | None \<Rightarrow> before @ msg @ after)"

section \<open>Last response, pool and handler\<close>

definition reset_last_response :: "resp_state \<Rightarrow> resp_state" where
  "reset_last_response st = st\<lparr>resp_last_code := None, resp_last_msg := None\<rparr>"

definition pr_response_set_pool :: "bool \<Rightarrow> resp_state \<Rightarrow> resp_state" where
  "pr_response_set_pool p st =
     (let st' = st\<lparr>resp_have_pool := p\<rparr> in if \<not> p then reset_last_response st' else st')"

definition pr_response_get_last ::
  "bool \<Rightarrow> bool \<Rightarrow> bool \<Rightarrow> resp_state \<Rightarrow> (string option \<times> string option) result" where
  "pr_response_get_last have_pool want_code want_msg st =
     (if \<not> have_pool then Inl EINVAL
      else if \<not> want_code \<and> \<not> want_msg then Inl EINVAL
      else Inr (if want_code then resp_last_code st else None, if want_msg then resp_last_msg st else None))"

definition pr_response_register_handler :: "resp_handler option \<Rightarrow> resp_state \<Rightarrow> resp_state" where
  "pr_response_register_handler h st = st\<lparr>resp_handler_cb := h\<rparr>"

definition pr_response_block :: "int \<Rightarrow> resp_state \<Rightarrow> unit result \<times> resp_state" where
  "pr_response_block b st =
     (if b = 1 \<or> b = 0 then (Inr (), st\<lparr>resp_blocked := (b = 1)\<rparr>) else (Inl EINVAL, st))"

text \<open>The functions that take a list are given which of the two it is, or \<open>None\<close> for \<open>NULL\<close>.\<close>

datatype which_list = RespList | RespErrList

definition get_list :: "which_list \<Rightarrow> resp_state \<Rightarrow> pr_response_t list" where
  "get_list w st = (case w of RespList \<Rightarrow> resp_list st | RespErrList \<Rightarrow> resp_err_list st)"

definition set_list :: "which_list \<Rightarrow> pr_response_t list \<Rightarrow> resp_state \<Rightarrow> resp_state" where
  "set_list w rs st =
     (case w of RespList \<Rightarrow> st\<lparr>resp_list := rs\<rparr> | RespErrList \<Rightarrow> st\<lparr>resp_err_list := rs\<rparr>)"

definition pr_response_clear :: "which_list option \<Rightarrow> resp_state \<Rightarrow> resp_state" where
  "pr_response_clear head st =
     (let st' = reset_last_response st in
      case head of None \<Rightarrow> st' | Some w \<Rightarrow> set_list w [] st')"

section \<open>Flushing\<close>

text \<open>The loop of \<open>pr_response_flush\<close>, with its variables \<open>ml\<close> and \<open>last_numeric\<close>.\<close>

fun flush_loop ::
  "resp_session \<Rightarrow> resp_handler option \<Rightarrow> bool \<Rightarrow> string \<Rightarrow> pr_response_t list \<Rightarrow> string list option" where
  "flush_loop sess h ml last_numeric [] = Some []"
| "flush_loop sess h True last_numeric ((num, msg) # rs) =
     (if rs = [] \<or> (num \<noteq> None \<and> c_strcmp (the num) last_numeric \<noteq> 0) then
        map_option (Cons (write_num_str h (CHR '' '') last_numeric msg)) (flush_loop sess h False last_numeric rs)
      else if rsess_multiline_rfc2228 sess \<or> rsess_protected sess then
        map_option (Cons (write_num_str h (CHR ''-'') last_numeric msg)) (flush_loop sess h True last_numeric rs)
      else
        map_option (Cons (write_str h '' '' CRLF msg)) (flush_loop sess h True last_numeric rs))"
| "flush_loop sess h False last_numeric ((None, msg) # rs) = None"
| "flush_loop sess h False last_numeric ((Some num, msg) # rs) =
     (if rs \<noteq> [] \<and> (fst (hd rs) = None \<or> c_strcmp num (the (fst (hd rs))) = 0) then
        map_option (Cons (write_num_str h (CHR ''-'') num msg)) (flush_loop sess h True num rs)
      else map_option (Cons (write_num_str h (CHR '' '') num msg)) (flush_loop sess h False last_numeric rs))"

definition pr_response_flush :: "resp_session \<Rightarrow> which_list option \<Rightarrow> resp_state \<Rightarrow> resp_state option" where
  "pr_response_flush sess head st =
     (case head of
        None \<Rightarrow> Some st
      | Some w \<Rightarrow>
          (if resp_blocked st then Some st
           else if \<not> rsess_connected sess then Some st
           else
             (case flush_loop sess (resp_handler_cb st) False [] (get_list w st) of
                None \<Rightarrow> None
              | Some ws \<Rightarrow> Some (pr_response_clear head (st\<lparr>resp_out := resp_out st @ ws\<rparr>)))))"

section \<open>Adding to the pending lists\<close>

definition fill_dups :: "string option \<Rightarrow> pr_response_t list \<Rightarrow> pr_response_t list" where
  "fill_dups numeric rs =
     (if numeric = None then rs else map (\<lambda>(n, m). (if n = None then numeric else n, m)) rs)"

text \<open>The walk to the place of the new message; \<open>at_head\<close> holds at the first element of the list.\<close>

fun resp_insert :: "bool \<Rightarrow> string option \<Rightarrow> string \<Rightarrow> pr_response_t list \<Rightarrow> pr_response_t list" where
  "resp_insert at_head numeric msg [] = [(numeric, msg)]"
| "resp_insert at_head numeric msg ((n, m) # rs) =
     (if (numeric = None \<or> n = None \<or> c_strcmp (the n) (the numeric) \<le> 0) \<and>
         \<not> (numeric \<noteq> None \<and> n = None \<and> at_head)
      then (n, m) # resp_insert False numeric msg rs
      else (numeric, msg) # (n, m) # rs)"

definition add_response :: "which_list \<Rightarrow> string option \<Rightarrow> string \<Rightarrow> resp_state \<Rightarrow> resp_state option" where
  "add_response w numeric text st =
     (if \<not> resp_have_pool st then None
      else
        (let msg = take (PR_RESPONSE_BUFFER_SIZE - 1) text;
             st' = st\<lparr>resp_last_code := numeric, resp_last_msg := Some msg\<rparr>
         in Some (set_list w (resp_insert True numeric msg (fill_dups numeric (get_list w st))) st')))"

definition pr_response_add_err :: "string option \<Rightarrow> string \<Rightarrow> resp_state \<Rightarrow> resp_state option" where
  "pr_response_add_err numeric text st = add_response RespErrList numeric text st"

definition pr_response_add :: "string option \<Rightarrow> string \<Rightarrow> resp_state \<Rightarrow> resp_state option" where
  "pr_response_add numeric text st = add_response RespList numeric text st"

section \<open>Sending at once\<close>

text \<open>\<open>pstrdup\<close> from the response pool; without a pool it returns \<open>NULL\<close>.\<close>

definition pool_dup :: "resp_state \<Rightarrow> string \<Rightarrow> string option" where
  "pool_dup st s = (if resp_have_pool st then Some s else None)"

text \<open>\<open>pr_response_send_async\<close> builds the line in a buffer of its own: the code, a blank, and as much of the text as
  leaves one byte unused; the end of line is cut to what is left. The code is shorter than the buffer.\<close>

definition pr_response_send_async :: "resp_session \<Rightarrow> string \<Rightarrow> string \<Rightarrow> resp_state \<Rightarrow> resp_state" where
  "pr_response_send_async sess num text st =
     (if resp_blocked st then st
      else if \<not> rsess_connected sess then st
      else
        (let n = PR_TUNABLE_BUFFER_SIZE;
             buf = take (n - 1) (take (n - 1) num @ '' '');
             maxlen = n - length buf - 1;
             msg = take (maxlen - 1) text;
             line = take (n - 1) (buf @ msg @ CRLF)
         in st\<lparr>resp_last_code := pool_dup st num, resp_last_msg := pool_dup st (drop (length num + 1) (buf @ msg)),
                     resp_out := resp_out st @ [write_str (resp_handler_cb st) [] [] line]\<rparr>))"

definition pr_response_send :: "resp_session \<Rightarrow> string \<Rightarrow> string \<Rightarrow> resp_state \<Rightarrow> resp_state" where
  "pr_response_send sess num text st =
     (if resp_blocked st then st
      else if \<not> rsess_connected sess then st
      else
        (let msg = take (PR_RESPONSE_BUFFER_SIZE - 1) text in
         st\<lparr>resp_last_code := pool_dup st num, resp_last_msg := pool_dup st msg,
            resp_out := resp_out st @ [write_num_str (resp_handler_cb st) (CHR '' '') num msg]\<rparr>))"

definition pr_response_send_raw :: "resp_session \<Rightarrow> string \<Rightarrow> resp_state \<Rightarrow> resp_state" where
  "pr_response_send_raw sess text st =
     (if resp_blocked st then st
      else if \<not> rsess_connected sess then st
      else
        (let msg = take (PR_RESPONSE_BUFFER_SIZE - 1) text in
         st\<lparr>resp_out := resp_out st @ [write_str (resp_handler_cb st) [] CRLF msg]\<rparr>))"

section \<open>Framing of replies\<close>

text \<open>How a client reads a reply (RFC 959): the first line has the code and either a blank, or a hyphen for a reply
  that goes on until a line of the same code and a blank.\<close>

definition line_text :: "string \<Rightarrow> string" where
  "line_text l = take (length l - 2) l"

definition cont_text :: "string \<Rightarrow> string \<Rightarrow> string" where
  "cont_text c l = (if take 4 l = c @ ''-'' then drop 4 (line_text l) else drop 1 (line_text l))"

fun read_more :: "string \<Rightarrow> string list \<Rightarrow> (string list \<times> string list) option" where
  "read_more c [] = None"
| "read_more c (l # ls) =
     (if take 4 l = c @ '' '' then Some ([drop 4 (line_text l)], ls)
      else map_option (\<lambda>(ms, rest). (cont_text c l # ms, rest)) (read_more c ls))"

fun read_reply :: "string list \<Rightarrow> (string \<times> string list \<times> string list) option" where
  "read_reply [] = None"
| "read_reply (l # ls) =
     (if drop 3 (take 4 l) = '' '' then Some (take 3 l, [drop 4 (line_text l)], ls)
      else if drop 3 (take 4 l) = ''-'' then
        map_option (\<lambda>(ms, rest). (take 3 l, drop 4 (line_text l) # ms, rest)) (read_more (take 3 l) ls)
      else None)"

text \<open>A message that fits the buffers, and a reply code.\<close>

definition fits :: "string \<Rightarrow> bool" where
  "fits m \<longleftrightarrow> length m + 6 < PR_RESPONSE_BUFFER_SIZE"

definition is_code :: "string \<Rightarrow> bool" where
  "is_code c \<longleftrightarrow> length c = 3 \<and> list_all c_isdigit c"

lemma is_code_facts:
  assumes "is_code c"
  shows "NUL \<notin> set c" "length c = 3" "hd c \<noteq> CHR '' ''" "c \<noteq> []"
proof -
  have d: "\<forall>x \<in> set c. c_isdigit x" and "length c = 3" using assms by (auto simp: is_code_def list_all_iff)
  then show "NUL \<notin> set c" "length c = 3" "c \<noteq> []" by (auto simp: c_isdigit_def uchar_def)
  then have "c_isdigit (hd c)" using d by auto
  then show "hd c \<noteq> CHR '' ''" by (auto simp: c_isdigit_def uchar_def)
qed

lemma printf_fits:
  assumes "is_code c" and "fits m"
  shows "write_num_str None sep c m = c @ [sep] @ m @ CRLF" "write_str None '' '' CRLF m = '' '' @ m @ CRLF"
  using assms is_code_facts(2) [OF assms(1)]
  by (simp_all add: write_num_str_def write_str_def pr_netio_printf_def fits_def CRLF_def PR_RESPONSE_BUFFER_SIZE_def)

lemma line_parts:
  assumes "is_code c"
  shows "take 4 (c @ [sep] @ m @ CRLF) = c @ [sep]" "drop 4 (line_text (c @ [sep] @ m @ CRLF)) = m"
    "take 3 (c @ [sep] @ m @ CRLF) = c" "drop 3 (c @ [sep]) = [sep]"
    "take 4 ('' '' @ m @ CRLF) \<noteq> c @ t" "drop 1 (line_text ('' '' @ m @ CRLF)) = m"
proof -
  note c = is_code_facts [OF assms]
  show "take 4 (c @ [sep] @ m @ CRLF) = c @ [sep]" "drop 4 (line_text (c @ [sep] @ m @ CRLF)) = m"
    "take 3 (c @ [sep] @ m @ CRLF) = c" "drop 3 (c @ [sep]) = [sep]" "drop 1 (line_text ('' '' @ m @ CRLF)) = m"
    using c(2) by (simp_all add: CRLF_def line_text_def)
  show "take 4 ('' '' @ m @ CRLF) \<noteq> c @ t" using c(3,4) by (cases c) auto
qed

text \<open>The entries of one reply: the code with the first message, the code or a continuation with the others.\<close>

definition of_code :: "string \<Rightarrow> pr_response_t list \<Rightarrow> bool" where
  "of_code c rs \<longleftrightarrow> list_all (\<lambda>(n, m). (n = None \<or> n = Some c) \<and> fits m) rs"

lemma flush_more:
  assumes "is_code c" and "of_code c rs" and "rs \<noteq> []"
  shows "\<exists>ws. flush_loop sess None True c rs = Some ws \<and> read_more c ws = Some (map snd rs, [])"
  using assms(2,3)
proof (induction rs)
  case (Cons r rs)
  obtain n m where r: "r = (n, m)" by (cases r)
  have n: "n = None \<or> n = Some c" and m: "fits m" using Cons.prems r by (auto simp: of_code_def)
  note lp = line_parts [OF assms(1)] and pf = printf_fits [OF assms(1) m] and nul = is_code_facts(1) [OF assms(1)]
  have same: "\<not> (n \<noteq> None \<and> c_strcmp (the n) c \<noteq> 0)" using n c_strcmp_zero [OF nul nul] by auto
  show ?case
  proof (cases "rs = []")
    case True
    then show ?thesis using r lp(1,2) pf by simp
  next
    case False
    then obtain ws where ws: "flush_loop sess None True c rs = Some ws" "read_more c ws = Some (map snd rs, [])"
      using Cons.IH Cons.prems by (auto simp: of_code_def)
    have sep: "c @ ''-'' \<noteq> c @ '' ''" by simp
    show ?thesis
      using False r same ws lp(1,2,5,6) pf sep by (auto simp: cont_text_def)
  qed
qed simp


definition demo_resp :: resp_state where
  "demo_resp = \<lparr>resp_list = [], resp_err_list = [], resp_blocked = False, resp_have_pool = True,
     resp_last_code = None, resp_last_msg = None, resp_handler_cb = None, resp_out = []\<rparr>"

definition demo_rsess :: resp_session where
  "demo_rsess = \<lparr>rsess_connected = True, rsess_multiline_rfc2228 = False, rsess_protected = False\<rparr>"


text \<open>When two messages of one code are followed by a message of another, the flush closes the multi-line reply with
  the message of the other code, under the first code: the second code is never sent.\<close>

theorem flush_loses_second_code:
  assumes "is_code c" and "is_code d" and "c \<noteq> d" and "fits m1" and "fits m2" and "fits m3"
  shows "flush_loop sess None False [] [(Some c, m1), (Some c, m2), (Some d, m3)] =
    Some [c @ ''-'' @ m1 @ CRLF,
          (if rsess_multiline_rfc2228 sess \<or> rsess_protected sess then c @ ''-'' else '' '') @ m2 @ CRLF,
          c @ '' '' @ m3 @ CRLF]"
  using assms(1) c_strcmp_zero [OF is_code_facts(1) [OF assms(1)] is_code_facts(1) [OF assms(1)]]
    printf_fits [OF assms(1) assms(4)] printf_fits [OF assms(1) assms(5)] printf_fits [OF assms(1) assms(6)]
  by simp

theorem flush_loses_second_code_witness:
  "flush_loop demo_rsess None False [] [(Some ''200'', ''a''), (Some ''200'', ''b''), (Some ''500'', ''c'')] =
     Some [''200-a'' @ CRLF, '' b'' @ CRLF, ''200 c'' @ CRLF]"
  using flush_loses_second_code [of "''200''" "''500''" "''a''" "''b''" "''c''" demo_rsess]
  by (simp add: is_code_def fits_def PR_RESPONSE_BUFFER_SIZE_def c_isdigit_def uchar_def demo_rsess_def)

section \<open>The order of pending messages\<close>

text \<open>Adding messages that all have a code.\<close>

definition add_all :: "(string \<times> string) list \<Rightarrow> pr_response_t list" where
  "add_all ms = foldl (\<lambda>rs (n, m). resp_insert True (Some n) m (fill_dups (Some n) rs)) [] ms"

definition coded :: "pr_response_t list \<Rightarrow> bool" where
  "coded rs \<longleftrightarrow> list_all (\<lambda>(n, m). n \<noteq> None \<and> NUL \<notin> set (the n)) rs"

definition code_le :: "string \<Rightarrow> string \<Rightarrow> bool" where
  "code_le a b \<longleftrightarrow> c_strcmp a b \<le> 0"

lemma fill_dups_coded: "coded rs \<Longrightarrow> fill_dups n rs = rs"
  by (induction rs) (auto simp: coded_def fill_dups_def)

lemma code_le_trans:
  "NUL \<notin> set a \<Longrightarrow> NUL \<notin> set b \<Longrightarrow> code_le a b \<Longrightarrow> code_le b c \<Longrightarrow> code_le a c"
  using c_strncmp_le_trans [of a b "length a + length b + 1" c] c_strncmp_longer [of a "length a + length b + 1"]
    c_strncmp_longer [of b "length a + length b + 1"] by (simp add: code_le_def)

definition codes_sorted :: "pr_response_t list \<Rightarrow> bool" where
  "codes_sorted rs \<longleftrightarrow> sorted_wrt (\<lambda>x y. code_le (the (fst x)) (the (fst y))) rs"

definition with_code :: "string \<Rightarrow> pr_response_t list \<Rightarrow> string list" where
  "with_code c rs = map snd (filter (\<lambda>(n, m). n = Some c) rs)"

lemma resp_insert_coded:
  assumes "coded rs" and "NUL \<notin> set n"
  shows "coded (resp_insert h (Some n) m rs)" "set (resp_insert h (Some n) m rs) = insert (Some n, m) (set rs)"
  using assms by (induction h "Some n" m rs rule: resp_insert.induct) (auto simp: coded_def)

lemma resp_insert_sorted:
  assumes "coded rs" and "NUL \<notin> set n" and "codes_sorted rs"
  shows "codes_sorted (resp_insert h (Some n) m rs)"
  using assms
proof (induction rs arbitrary: h)
  case (Cons r rs)
  obtain k t where r: "r = (Some k, t)" "NUL \<notin> set k" using Cons.prems(1) by (cases r) (auto simp: coded_def)
  have rs: "coded rs" "codes_sorted rs" using Cons.prems by (auto simp: coded_def codes_sorted_def)
  have le: "\<forall>y \<in> set rs. code_le k (the (fst y))" using Cons.prems(3) r by (auto simp: codes_sorted_def)
  show ?case
  proof (cases "c_strcmp k n \<le> 0")
    case True
    then show ?thesis
      using Cons.IH [OF rs(1) Cons.prems(2) rs(2), of False] resp_insert_coded(2) [OF rs(1) Cons.prems(2), of False m] r le
      by (auto simp: codes_sorted_def code_le_def)
  next
    case False
    then have "code_le n k" using c_strcmp_swap [OF r(2) Cons.prems(2)] by (simp add: code_le_def)
    then have "\<forall>y \<in> set rs. code_le n (the (fst y))" using le code_le_trans [OF Cons.prems(2) r(2)] by blast
    then show ?thesis using False Cons.prems(3) r \<open>code_le n k\<close> by (auto simp: codes_sorted_def code_le_def)
  qed
qed (simp add: codes_sorted_def)

lemma resp_insert_stable:
  assumes "coded rs" and "NUL \<notin> set n" and "codes_sorted rs" and "NUL \<notin> set c"
  shows "with_code c (resp_insert h (Some n) m rs) = with_code c rs @ (if n = c then [m] else [])"
  using assms
proof (induction rs arbitrary: h)
  case (Cons r rs)
  obtain k t where r: "r = (Some k, t)" "NUL \<notin> set k" using Cons.prems(1) by (cases r) (auto simp: coded_def)
  have rs: "coded rs" "codes_sorted rs" using Cons.prems by (auto simp: coded_def codes_sorted_def)
  show ?case
  proof (cases "c_strcmp k n \<le> 0")
    case True
    then show ?thesis using Cons.IH [OF rs(1) Cons.prems(2) rs(2) Cons.prems(4), of False] r by (auto simp: with_code_def)
  next
    case False
    have "\<forall>y \<in> set (r # rs). fst y \<noteq> Some n"
    proof
      fix y assume y: "y \<in> set (r # rs)"
      have "code_le k (the (fst y))"
        using y Cons.prems(3) r c_strcmp_zero [OF r(2) r(2)] by (auto simp: codes_sorted_def code_le_def)
      then show "fst y \<noteq> Some n" using False by (auto simp: code_le_def)
    qed
    then have "n = c \<Longrightarrow> with_code c (r # rs) = []" by (auto simp: with_code_def filter_empty_conv)
    then show ?thesis using False r by (auto simp: with_code_def)
  qed
qed (simp add: with_code_def)

text \<open>Messages added with a code stay ordered by code, and the messages of each code stay in the order in which they
  were added.\<close>

theorem pending_messages_ordered:
  assumes "\<forall>(n, m) \<in> set ms. NUL \<notin> set n" and "NUL \<notin> set c"
  shows "codes_sorted (add_all ms) \<and> with_code c (add_all ms) = map snd (filter (\<lambda>(n, m). n = c) ms)"
proof -
  have "coded (add_all ms) \<and> codes_sorted (add_all ms) \<and>
      (\<forall>c. NUL \<notin> set c \<longrightarrow> with_code c (add_all ms) = map snd (filter (\<lambda>(n, m). n = c) ms))"
    using assms(1)
  proof (induction ms rule: rev_induct)
    case (snoc x ms)
    obtain n m where x: "x = (n, m)" by (cases x)
    have n: "NUL \<notin> set n" using snoc.prems x by auto
    have IH: "coded (add_all ms)" "codes_sorted (add_all ms)"
      "\<And>c. NUL \<notin> set c \<Longrightarrow> with_code c (add_all ms) = map snd (filter (\<lambda>(n, m). n = c) ms)"
      using snoc by auto
    have "add_all (ms @ [x]) = resp_insert True (Some n) m (add_all ms)"
      using x fill_dups_coded [OF IH(1)] by (simp add: add_all_def)
    then show ?case
      using resp_insert_coded(1) [OF IH(1) n] resp_insert_sorted [OF IH(1) n IH(2)] resp_insert_stable [OF IH(1) n IH(2)] IH(3) x
      by auto
  qed (simp add: add_all_def coded_def codes_sorted_def with_code_def)
  then show ?thesis using assms(2) by blast
qed

theorem pending_messages_ordered_witness:
  "with_code ''220'' (add_all [(''220'', ''a''), (''150'', ''b''), (''220'', ''c'')]) = [''a'', ''c'']"
  using pending_messages_ordered [of "[(''220'', ''a''), (''150'', ''b''), (''220'', ''c'')]" "''220''"] by simp

text \<open>A continuation takes the code of the next message that is added, not the one of the message before it.\<close>

lemma continuation_takes_later_code:
  "fill_dups (Some ''500'') (resp_insert True None ''b'' (resp_insert True (Some ''200'') ''a'' [])) =
     [(Some ''200'', ''a''), (Some ''500'', ''b'')]"
  by (simp add: fill_dups_def)

end
