(* ===== verification/Data.thy ===== *)
theory Data
  imports C_Lib
begin

text \<open>
  The ASCII mode of data transfers, \<open>src/data.c\<close>: the two translation routines on their buffers, the loops of
  \<open>pr_data_xfer\<close> that call them, and the transfer timeouts. A buffer is the list of its bytes, as long as the
  memory it has. The network is given by what each read returns and by whether a write succeeds.
\<close>

abbreviation CR :: char where "CR \<equiv> CHR 0x0D"
abbreviation LF :: char where "LF \<equiv> CHR 0x0A"

section \<open>Reading: CR LF to LF\<close>

text \<open>The loop of \<open>xfrm_ascii_read\<close> over the data in the buffer: the bytes kept and the number of bytes held back, a
  single CR at the end of the data, which stays in the buffer after the bytes kept.\<close>

fun xfrm_ascii_read :: "string \<Rightarrow> string \<times> nat" where
  "xfrm_ascii_read [] = ([], 0)"
| "xfrm_ascii_read (c # cs) =
     (if c \<noteq> CR then (let (out, adj) = xfrm_ascii_read cs in (c # out, adj))
      else
        (case cs of
           [] \<Rightarrow> ([], 1)
         | d # ds \<Rightarrow>
             (let (out, adj) = xfrm_ascii_read cs in if d = LF then (out, adj) else (c # out, adj))))"

text \<open>What a read from the data connection returns.\<close>

datatype net_read = Got string | Again | ReadError

record xfer_state =
  xf_buf :: string
  xf_total :: nat

text \<open>The bytes held back at the end of a translation.\<close>

definition held_back :: "nat \<Rightarrow> string" where
  "held_back adj = replicate adj CR"

text \<open>The loop of \<open>pr_data_xfer\<close> for an upload in ASCII mode. \<open>xf_buf\<close> is what remains in the transfer buffer; each
  read adds to it. The result is the data copied to the caller's buffer of \<open>cl_size\<close> bytes, none at the end of
  the data, or the error; the reads that are left are returned as well. A run out of reads is \<open>None\<close>.\<close>

fun data_read_ascii ::
  "nat \<Rightarrow> xfer_state \<Rightarrow> net_read list \<Rightarrow> ((unit + string) \<times> xfer_state \<times> net_read list) option" where
  "data_read_ascii cl_size st [] = None"
| "data_read_ascii cl_size st (ReadError # rs) = Some (Inl (), st, rs)"
| "data_read_ascii cl_size st (Again # rs) = data_read_ascii cl_size st rs"
| "data_read_ascii cl_size st (Got new # rs) =
     (let data = xf_buf st @ new in
      if data = [] then Some (Inr [], st, rs)
      else
        (let (out, adj) = (if new \<noteq> [] \<or> length data > 1 then xfrm_ascii_read data else (data, 0));
             cl = take cl_size out;
             st' = st\<lparr>xf_buf := drop cl_size out @ held_back adj, xf_total := xf_total st + length cl\<rparr>
         in if new \<noteq> [] \<and> cl = [] then data_read_ascii cl_size st' rs
            else Some (Inr cl, st', rs)))"

section \<open>Writing: LF to CR LF\<close>

text \<open>The count of bare LFs after the first byte.\<close>

fun count_bare :: "string \<Rightarrow> nat" where
  "count_bare (a # b # cs) = (if b = LF \<and> a \<noteq> CR then 1 else 0) + count_bare (b # cs)"
| "count_bare _ = 0"

text \<open>\<open>memmove(&buf[i+1], &buf[i], bufsize-i-1)\<close> and the store of CR at \<open>i\<close>.\<close>

definition insert_cr :: "nat \<Rightarrow> nat \<Rightarrow> string \<Rightarrow> string" where
  "insert_cr i bufsize buf = take i buf @ [CR] @ take (bufsize - i - 1) (drop i buf) @ drop bufsize buf"

function aw_loop :: "nat \<Rightarrow> nat \<Rightarrow> nat \<Rightarrow> nat \<Rightarrow> string \<Rightarrow> nat \<times> string" where
  "aw_loop i bufsize lfcount added buf =
     (if i < bufsize \<and> lfcount > 0 then
        (if buf ! i = LF \<and> buf ! (i - 1) \<noteq> CR then
           aw_loop (Suc i) bufsize (lfcount - 1) (Suc added) (insert_cr i bufsize buf)
         else aw_loop (Suc i) bufsize lfcount added buf)
      else (added, buf))"
  by pat_completeness auto
termination by (relation "measure (\<lambda>(i, bufsize, _). bufsize - i)") auto

declare aw_loop.simps [simp del]

text \<open>The state of a download: the transfer buffer, its size and the flag of a CR at the end of the last buffer.\<close>

record write_state =
  ws_buf :: string
  ws_bufsize :: nat
  have_dangling_cr :: bool

text \<open>The number of bare LFs in the data.\<close>

definition aw_lfcount :: "bool \<Rightarrow> string \<Rightarrow> nat" where
  "aw_lfcount dangling data = (if \<not> dangling \<and> hd data = LF then 1 else 0) + count_bare data"

text \<open>The insertion of the CRs: first at the front, by moving all of the data, then in the loop.\<close>

definition aw_insert :: "nat \<Rightarrow> nat \<Rightarrow> nat \<Rightarrow> string \<Rightarrow> nat \<times> string" where
  "aw_insert len bufsize lfcount buf =
     (if hd buf = LF then aw_loop 1 bufsize (lfcount - 1) 1 (CR # take len buf @ drop (len + 1) buf)
      else aw_loop 1 bufsize lfcount 0 buf)"

text \<open>A larger buffer when there is no room for the CRs.\<close>

definition aw_room :: "nat \<Rightarrow> nat \<Rightarrow> write_state \<Rightarrow> write_state" where
  "aw_room len lfcount st =
     (if to_int (int (ws_bufsize st) - int len - int lfcount) \<le> 0 then
        st\<lparr>ws_buf := take len (ws_buf st) @ replicate (lfcount + 1) NUL, ws_bufsize := len + lfcount + 1\<rparr>
      else st)"

text \<open>\<open>xfrm_ascii_write\<close> on the first \<open>len\<close> bytes of the buffer: the new length and state; \<open>None\<close> for no data, when the
  byte before the buffer is read. The difference of the sizes is computed as an unsigned number and then read as
  a signed one.\<close>

definition xfrm_ascii_write :: "nat \<Rightarrow> write_state \<Rightarrow> (nat \<times> write_state) option" where
  "xfrm_ascii_write len st =
     (if len = 0 then None
      else
        (let data = take len (ws_buf st);
             lfcount = aw_lfcount (have_dangling_cr st) data;
             st1 = st\<lparr>have_dangling_cr := (last data = CR)\<rparr>
         in if lfcount = 0 then Some (len, st1)
            else
              (let st2 = aw_room len lfcount st1;
                   (added, buf) = aw_insert len (ws_bufsize st2) lfcount (ws_buf st2)
               in Some (len + added, st2\<lparr>ws_buf := buf\<rparr>))))"

text \<open>The loop of \<open>pr_data_xfer\<close> for a download in ASCII mode: pieces of at most \<open>bufsz\<close> bytes are copied into the buffer,
  translated and written. \<open>ok\<close> tells which writes succeed; a write that would block is tried again with the
  same buffer and is not visible here. The result has what was written; \<open>Inl\<close> is the error return.\<close>

function data_write_ascii ::
  "nat \<Rightarrow> (string \<Rightarrow> bool) \<Rightarrow> write_state \<Rightarrow> string \<Rightarrow> ((unit + string) \<times> write_state) option" where
  "data_write_ascii bufsz ok st cl_buf =
     (if cl_buf = [] then Some (Inr [], st)
      else
        (case xfrm_ascii_write (length (take bufsz cl_buf))
                (st\<lparr>ws_buf := take bufsz cl_buf @ drop (length (take bufsz cl_buf)) (ws_buf st)\<rparr>) of
           None \<Rightarrow> None
         | Some (len, st') \<Rightarrow>
             (if \<not> ok (take len (ws_buf st')) then Some (Inl (), st')
              else
                (case data_write_ascii bufsz ok st' (drop bufsz cl_buf) of
                   None \<Rightarrow> None
                 | Some (Inl e, st'') \<Rightarrow> Some (Inl e, st'')
                 | Some (Inr out, st'') \<Rightarrow> Some (Inr (take len (ws_buf st') @ out), st'')))))"
  by pat_completeness auto
termination
  by (relation "measure (\<lambda>(_, _, _, cl_buf). length cl_buf)") (auto simp: xfrm_ascii_write_def split: if_splits)

declare data_write_ascii.simps [simp del]

text \<open>\<open>pr_data_init\<close> and \<open>pr_data_reset\<close> clear the flag.\<close>

definition clear_dangling_cr :: "write_state \<Rightarrow> write_state" where
  "clear_dangling_cr st = st\<lparr>have_dangling_cr := False\<rparr>"

section \<open>Timeouts\<close>

record data_timeouts =
  timeout_idle :: int
  timeout_noxfer :: int
  timeout_stalled :: int

datatype timeout_id = PR_DATA_TIMEOUT_IDLE | PR_DATA_TIMEOUT_NO_TRANSFER | PR_DATA_TIMEOUT_STALLED | OtherTimeout

definition pr_data_get_timeout :: "timeout_id \<Rightarrow> data_timeouts \<Rightarrow> int result" where
  "pr_data_get_timeout i st =
     (case i of
        PR_DATA_TIMEOUT_IDLE \<Rightarrow> Inr (timeout_idle st)
      | PR_DATA_TIMEOUT_NO_TRANSFER \<Rightarrow> Inr (timeout_noxfer st)
      | PR_DATA_TIMEOUT_STALLED \<Rightarrow> Inr (timeout_stalled st)
      | OtherTimeout \<Rightarrow> Inl EINVAL)"

definition pr_data_set_timeout :: "timeout_id \<Rightarrow> int \<Rightarrow> data_timeouts \<Rightarrow> data_timeouts" where
  "pr_data_set_timeout i t st =
     (case i of
        PR_DATA_TIMEOUT_IDLE \<Rightarrow> st\<lparr>timeout_idle := t\<rparr>
      | PR_DATA_TIMEOUT_NO_TRANSFER \<Rightarrow> st\<lparr>timeout_noxfer := t\<rparr>
      | PR_DATA_TIMEOUT_STALLED \<Rightarrow> st\<lparr>timeout_stalled := t\<rparr>
      | OtherTimeout \<Rightarrow> st)"

section \<open>Uploads\<close>

text \<open>The translation of a whole text: every CR LF becomes LF.\<close>

fun from_net :: "string \<Rightarrow> string" where
  "from_net [] = []"
| "from_net (c # cs) = (if c = CR \<and> take 1 cs = [LF] then from_net cs else c # from_net cs)"

lemma xfrm_ascii_read_from_net:
  "xfrm_ascii_read data = (out, adj) \<Longrightarrow> from_net (data @ nxt) = out @ from_net (held_back adj @ nxt)"
proof (induction data arbitrary: out adj rule: xfrm_ascii_read.induct)
  case 1
  then show ?case by (simp add: held_back_def)
next
  case (2 c cs)
  show ?case
  proof (cases "c = CR")
    case False
    then show ?thesis using 2 by (auto split: prod.splits)
  next
    case True
    show ?thesis
    proof (cases cs)
      case Nil
      then show ?thesis using 2(3) True by (auto simp: held_back_def)
    next
      case (Cons d ds)
      obtain out' adj' where cs: "xfrm_ascii_read cs = (out', adj')" by (cases "xfrm_ascii_read cs")
      have "from_net (cs @ nxt) = out' @ from_net (held_back adj' @ nxt)" using 2(2) True Cons cs by blast
      then show ?thesis using 2(3) True Cons cs by (auto split: if_splits)
    qed
  qed
qed

lemma xfrm_ascii_read_adj: "xfrm_ascii_read data = (out, adj) \<Longrightarrow> adj \<le> 1 \<and> length out + adj \<le> length data"
proof (induction data arbitrary: out adj rule: xfrm_ascii_read.induct)
  case (2 c cs)
  show ?case
  proof (cases "c = CR \<and> cs \<noteq> []")
    case True
    obtain out' adj' where cs: "xfrm_ascii_read cs = (out', adj')" by (cases "xfrm_ascii_read cs")
    then have "adj' \<le> 1 \<and> length out' + adj' \<le> length cs" using 2(2) True by (cases cs) blast+
    then show ?thesis using 2(3) True cs by (cases cs) (auto split: if_splits)
  next
    case False
    obtain out' adj' where cs: "xfrm_ascii_read cs = (out', adj')" by (cases "xfrm_ascii_read cs")
    show ?thesis
    proof (cases "c = CR")
      case True
      then show ?thesis using 2(3) False by simp
    next
      case neq: False
      then have "adj' \<le> 1 \<and> length out' + adj' \<le> length cs" using 2(1) cs by blast
      then show ?thesis using 2(3) neq cs by auto
    qed
  qed
qed simp

text \<open>The loop of a client of \<open>pr_data_xfer\<close>: it calls until no data is returned.\<close>

fun upload :: "nat \<Rightarrow> nat \<Rightarrow> xfer_state \<Rightarrow> net_read list \<Rightarrow> string option" where
  "upload 0 cl_size st rs = None"
| "upload (Suc fuel) cl_size st rs =
     (case data_read_ascii cl_size st rs of
        None \<Rightarrow> None
      | Some (Inl _, _, _) \<Rightarrow> None
      | Some (Inr data, st', rs') \<Rightarrow> (if data = [] then Some [] else map_option ((@) data) (upload fuel cl_size st' rs')))"

lemma held_back_cases: "adj \<le> 1 \<Longrightarrow> held_back adj = [] \<or> held_back adj = [CR]"
  by (cases adj) (auto simp: held_back_def)

lemma upload_end:
  assumes "xf_buf st = [] \<or> xf_buf st = [CR]" and "cl_size > 0"
  shows "upload (Suc (Suc fuel)) cl_size st [Got [], Got []] = Some (xf_buf st)"
  using assms by (cases cl_size) (auto simp: held_back_def)

lemma upload_chunks:
  assumes "\<forall>ch \<in> set chunks. ch \<noteq> [] \<and> length ch < cl_size" and "cl_size > 0"
    and "xf_buf st = [] \<or> xf_buf st = [CR]"
  shows "upload (length chunks + Suc (Suc fuel)) cl_size st (map Got chunks @ [Got [], Got []]) =
    Some (from_net (xf_buf st @ concat chunks))"
  using assms(1,3)
proof (induction chunks arbitrary: st fuel)
  case Nil
  then show ?case using upload_end [OF Nil(2) assms(2)] by auto
next
  case (Cons ch chunks)
  let ?rs = "map Got chunks @ [Got [], Got []]"
  have ch: "ch \<noteq> []" "length ch < cl_size" using Cons.prems(1) by auto
  obtain out adj where tr: "xfrm_ascii_read (xf_buf st @ ch) = (out, adj)" by (cases "xfrm_ascii_read (xf_buf st @ ch)")
  have adj: "adj \<le> 1" "length out \<le> cl_size" using xfrm_ascii_read_adj [OF tr] ch Cons.prems(2) by auto
  let ?st = "st\<lparr>xf_buf := held_back adj, xf_total := xf_total st + length out\<rparr>"
  have IH: "upload (length chunks + Suc (Suc k)) cl_size ?st ?rs = Some (from_net (held_back adj @ concat chunks))" for k
    using Cons.IH [of ?st k] Cons.prems(1) held_back_cases [OF adj(1)] by simp
  have val: "from_net (xf_buf st @ concat (ch # chunks)) = out @ from_net (held_back adj @ concat chunks)"
    using xfrm_ascii_read_from_net [OF tr, of "concat chunks"] by simp
  have step: "data_read_ascii cl_size st (Got ch # ?rs) =
      (if out = [] then data_read_ascii cl_size ?st ?rs else Some (Inr out, ?st, ?rs))"
    using ch tr adj by (simp add: Let_def)
  show ?case
  proof (cases "out = []")
    case True
    then have "upload (length (ch # chunks) + Suc (Suc fuel)) cl_size st (map Got (ch # chunks) @ [Got [], Got []]) =
        upload (length chunks + Suc (Suc (Suc fuel))) cl_size ?st ?rs"
      using step by simp
    then show ?thesis using IH [of "Suc fuel"] val True by simp
  next
    case False
    then show ?thesis using step IH [of fuel] val by simp
  qed
qed



section \<open>Downloads\<close>

text \<open>The translation of a whole text: a LF that does not follow a CR gets one. \<open>cr\<close> tells whether the byte before the
  text is a CR.\<close>

fun to_net :: "bool \<Rightarrow> string \<Rightarrow> string" where
  "to_net cr [] = []"
| "to_net cr (c # cs) = (if c = LF \<and> \<not> cr then CR # LF # to_net False cs else c # to_net (c = CR) cs)"

fun bare :: "bool \<Rightarrow> string \<Rightarrow> nat" where
  "bare cr [] = 0"
| "bare cr (c # cs) = (if c = LF \<and> \<not> cr then 1 else 0) + bare (c = CR) cs"

lemma count_bare_bare: "count_bare (a # s) = bare (a = CR) s"
  by (induction s arbitrary: a) auto

lemma to_net_no_bare: "bare cr s = 0 \<Longrightarrow> to_net cr s = s"
  by (induction cr s rule: to_net.induct) (auto split: if_splits)

lemma length_to_net: "length (to_net cr s) = length s + bare cr s"
  by (induction cr s rule: to_net.induct) auto

lemma aw_loop_translates:
  assumes "buf = pre @ s @ junk" and "i = length pre" and "pre \<noteq> []" and "length buf = bufsize"
    and "lfcount = bare (last pre = CR) s" and "length pre + length s + lfcount \<le> bufsize"
  shows "\<exists>junk'. aw_loop i bufsize lfcount added buf =
    (added + lfcount, pre @ to_net (last pre = CR) s @ junk') \<and> length (pre @ to_net (last pre = CR) s @ junk') = bufsize"
  using assms
proof (induction i bufsize lfcount added buf arbitrary: pre s junk rule: aw_loop.induct)
  case (1 i bufsize lfcount added buf)
  show ?case
  proof (cases "lfcount = 0")
    case True
    then show ?thesis using 1(3-) to_net_no_bare [of "last pre = CR" s] by (subst aw_loop.simps) auto
  next
    case False
    then obtain c cs where s: "s = c # cs" using 1(7) by (cases s) auto
    have i: "i < bufsize" "buf ! i = c" "buf ! (i - 1) = last pre"
      using 1(3-6) s by (auto simp: nth_append last_conv_nth)
    show ?thesis
    proof (cases "c = LF \<and> last pre \<noteq> CR")
      case True
      have "junk \<noteq> []" using 1(3,6,8) False s by auto
      then have "insert_cr i bufsize buf = (pre @ [CR]) @ s @ take (length junk - 1) junk"
        using 1(3-6) s by (cases "length junk") (auto simp: insert_cr_def)
      moreover have "bare (last (pre @ [CR]) = CR) s = lfcount - 1" using 1(7) s True by simp
      moreover have "length ((pre @ [CR]) @ s @ take (length junk - 1) junk) = bufsize" using 1(3,6) \<open>junk \<noteq> []\<close> by (cases junk) auto
      ultimately obtain junk' where
        "aw_loop (Suc i) bufsize (lfcount - 1) (Suc added) (insert_cr i bufsize buf) =
           (Suc added + (lfcount - 1), (pre @ [CR]) @ to_net True s @ junk')"
        "length ((pre @ [CR]) @ to_net True s @ junk') = bufsize"
        using 1(1) [of "pre @ [CR]" s "take (length junk - 1) junk"] 1(4,8) i True False by auto
      then show ?thesis using i True False s by (subst aw_loop.simps) auto
    next
      case other: False
      have cond: "\<not> (buf ! i = LF \<and> buf ! (i - 1) \<noteq> CR)" using i(2,3) other by simp
      have "bare (last (pre @ [c]) = CR) cs = lfcount" using 1(7) s other by auto
      then obtain junk' where
        "aw_loop (Suc i) bufsize lfcount added buf = (added + lfcount, (pre @ [c]) @ to_net (c = CR) cs @ junk')"
        "length ((pre @ [c]) @ to_net (c = CR) cs @ junk') = bufsize"
        using 1(2) [OF _ cond, of "pre @ [c]" cs junk] 1(3-8) i(1) False s by auto
      then show ?thesis using i other False s by (subst aw_loop.simps) auto
    qed
  qed
qed

definition write_ok :: "write_state \<Rightarrow> bool" where
  "write_ok st \<longleftrightarrow> length (ws_buf st) = ws_bufsize st \<and> ws_bufsize st < 2 ^ 31"

text \<open>The buffer with its data and the two outcomes of the test for room.\<close>

lemma room_test:
  assumes "write_ok st" and "len \<le> ws_bufsize st" and "lf \<le> len" and "2 * len < 2 ^ 31"
  shows "to_int (int (ws_bufsize st) - int len - int lf) \<le> 0 \<longleftrightarrow> ws_bufsize st \<le> len + lf"
proof -
  have "to_int (int (ws_bufsize st) - int len - int lf) = int (ws_bufsize st) - int len - int lf"
    using assms by (simp add: to_int_def write_ok_def)
  then show ?thesis by linarith
qed

lemma bare_le: "bare cr s \<le> length s"
  by (induction cr s rule: bare.induct) auto

lemma aw_lfcount_bare: "data \<noteq> [] \<Longrightarrow> aw_lfcount d data = bare d data"
  by (cases data) (simp_all add: aw_lfcount_def count_bare_bare)

lemma aw_room_ok:
  assumes "write_ok st" and "len \<le> ws_bufsize st" and "lf \<le> len" and "2 * len < 2 ^ 31"
  shows "\<exists>junk. ws_buf (aw_room len lf st) = take len (ws_buf st) @ junk" "len + lf + 1 \<le> ws_bufsize (aw_room len lf st)"
    "length (ws_buf (aw_room len lf st)) = ws_bufsize (aw_room len lf st)"
    "have_dangling_cr (aw_room len lf st) = have_dangling_cr st"
proof -
  note t = room_test [OF assms]
  show "len + lf + 1 \<le> ws_bufsize (aw_room len lf st)" using t by (simp add: aw_room_def)
  show "have_dangling_cr (aw_room len lf st) = have_dangling_cr st" by (simp add: aw_room_def)
  show "length (ws_buf (aw_room len lf st)) = ws_bufsize (aw_room len lf st)"
    using assms by (simp add: aw_room_def write_ok_def)
  have "\<exists>junk. ws_buf st = take len (ws_buf st) @ junk" by (metis append_take_drop_id)
  then show "\<exists>junk. ws_buf (aw_room len lf st) = take len (ws_buf st) @ junk"
    by (cases "to_int (int (ws_bufsize st) - int len - int lf) \<le> 0") (simp_all add: aw_room_def)
qed

lemma aw_insert_translates:
  assumes "buf = data @ junk" and "length data = len" and "len > 0" and "length buf = bufsize"
    and "lf = bare d data" and "len + lf + 1 \<le> bufsize" and "lf > 0" and "\<not> (d \<and> hd data = LF)"
  shows "\<exists>junk'. aw_insert len bufsize lf buf = (lf, to_net d data @ junk') \<and> length (to_net d data @ junk') = bufsize"
proof -
  obtain a s where as: "data = a # s" using assms(2,3) by (cases data) auto
  show ?thesis
  proof (cases "a = LF")
    case True
    then have d: "\<not> d" using assms(8) as by simp
    have shift: "CR # take len buf @ drop (len + 1) buf = [CR] @ data @ drop 1 junk" using assms(1,2) by simp
    moreover have l: "length (CR # take len buf @ drop (len + 1) buf) = bufsize" using shift assms(1,2,4,6) by auto
    moreover have c: "lf - 1 = bare (last [CR] = CR) data" using assms(5) as True d by simp
    moreover have r: "length [CR] + length data + (lf - 1) \<le> bufsize" using assms(2,6,7) by simp
    ultimately obtain j where "aw_loop 1 bufsize (lf - 1) 1 (CR # take len buf @ drop (len + 1) buf) =
        (1 + (lf - 1), [CR] @ to_net True data @ j)" "length ([CR] @ to_net True data @ j) = bufsize"
      using aw_loop_translates [OF shift _ _ l c r, of 1 1] by auto
    then show ?thesis using assms(1,7) as True d by (auto simp: aw_insert_def)
  next
    case False
    have "lf = bare (a = CR) s" using assms(5) as False by simp
    then obtain j where "aw_loop 1 bufsize lf 0 buf = (0 + lf, [a] @ to_net (a = CR) s @ j)"
      "length ([a] @ to_net (a = CR) s @ j) = bufsize"
      using aw_loop_translates [of buf "[a]" s junk 1 bufsize lf 0] assms(1,2,4,6) as by auto
    then show ?thesis using assms(1) as False by (auto simp: aw_insert_def)
  qed
qed

lemma xfrm_ascii_write_correct:
  assumes ok: "write_ok st" and len: "0 < len" "len \<le> ws_bufsize st" "2 * len < 2 ^ 31"
    and data: "data = take len (ws_buf st)"
    and safe: "\<not> (have_dangling_cr st \<and> hd data = LF \<and> bare True data > 0)"
  shows "\<exists>len' st'. xfrm_ascii_write len st = Some (len', st') \<and>
    take len' (ws_buf st') = to_net (have_dangling_cr st) data \<and>
    have_dangling_cr st' = (last data = CR) \<and> length (ws_buf st') = ws_bufsize st' \<and>
    ws_bufsize st \<le> ws_bufsize st' \<and> ws_bufsize st' \<le> max (ws_bufsize st) (2 * len + 1)"
proof -
  let ?d = "have_dangling_cr st" let ?lf = "bare ?d data"
  have ldata: "length data = len" using data len ok by (simp add: write_ok_def)
  then have ne: "data \<noteq> []" using len(1) by auto
  let ?st1 = "st\<lparr>have_dangling_cr := (last data = CR)\<rparr>"
  show ?thesis
  proof (cases "?lf = 0")
    case True
    then show ?thesis
      using len ok data ldata to_net_no_bare [OF True] aw_lfcount_bare [OF ne, of ?d]
      by (simp add: xfrm_ascii_write_def Let_def write_ok_def)
  next
    case False
    let ?st2 = "aw_room len ?lf ?st1"
    have ok1: "write_ok ?st1" "len \<le> ws_bufsize ?st1" "?lf \<le> len"
      using ok len bare_le [of ?d data] ldata by (simp_all add: write_ok_def)
    note room = aw_room_ok [OF ok1 len(3)]
    obtain junk where junk: "ws_buf ?st2 = data @ junk" using room(1) data by auto
    have nd: "\<not> (?d \<and> hd data = LF)" using safe False by (cases ?d) auto
    obtain j where j: "aw_insert len (ws_bufsize ?st2) ?lf (ws_buf ?st2) = (?lf, to_net ?d data @ j)"
      "length (to_net ?d data @ j) = ws_bufsize ?st2"
      using aw_insert_translates [OF junk ldata len(1) room(3) refl room(2) _ nd] False by blast
    have sz: "ws_bufsize st \<le> ws_bufsize ?st2" "ws_bufsize ?st2 \<le> max (ws_bufsize st) (2 * len + 1)"
      using room_test [OF ok1 len(3)] ok1(3) by (auto simp: aw_room_def)
    have "xfrm_ascii_write len st = Some (len + ?lf, ?st2\<lparr>ws_buf := to_net ?d data @ j\<rparr>)"
      using j(1) False len(1) aw_lfcount_bare [OF ne, of ?d] by (simp add: xfrm_ascii_write_def Let_def flip: data)
    then show ?thesis using j(2) room(4) length_to_net [of ?d data] ldata sz by simp
  qed
qed

lemma to_net_append: "to_net cr (p @ q) = to_net cr p @ to_net (if p = [] then cr else last p = CR) q"
  by (induction cr p rule: to_net.induct) auto

lemma download_text:
  assumes "CR \<notin> set cl_buf" and "bufsz > 0" and "2 * bufsz + 1 < 2 ^ 31"
    and "write_ok st" and "bufsz \<le> ws_bufsize st" and "\<not> have_dangling_cr st"
  shows "\<exists>st'. data_write_ascii bufsz (\<lambda>_. True) st cl_buf = Some (Inr (to_net False cl_buf), st')"
  using assms
proof (induction "length cl_buf" arbitrary: cl_buf st rule: less_induct)
  case less
  show ?case
  proof (cases "cl_buf = []")
    case True
    then show ?thesis by (subst data_write_ascii.simps) simp
  next
    case False
    let ?p = "take bufsz cl_buf" and ?q = "drop bufsz cl_buf"
    let ?st = "st\<lparr>ws_buf := ?p @ drop (length ?p) (ws_buf st)\<rparr>"
    have p: "?p \<noteq> []" "CR \<notin> set ?p" "CR \<notin> set ?q" using False less(2,3) by (auto dest: in_set_takeD in_set_dropD)
    have fits: "length ?p \<le> ws_bufsize st" using less(6) by simp
    have ok: "write_ok ?st" "length ?p \<le> ws_bufsize ?st" using less(5) fits by (simp_all add: write_ok_def)
    have data: "?p = take (length ?p) (ws_buf ?st)" by (simp add: min_def)
    have sz: "0 < length ?p" "2 * length ?p < 2 ^ 31" using p(1) less(4) by simp_all
    obtain len st' where w: "xfrm_ascii_write (length ?p) ?st = Some (len, st')" "take len (ws_buf st') = to_net False ?p"
      "have_dangling_cr st' = (last ?p = CR)" "length (ws_buf st') = ws_bufsize st'"
      "ws_bufsize ?st \<le> ws_bufsize st'" "ws_bufsize st' \<le> max (ws_bufsize ?st) (2 * length ?p + 1)"
      using xfrm_ascii_write_correct [OF ok(1) sz(1) ok(2) sz(2) data] less(7) by auto
    have nd: "\<not> have_dangling_cr st'" using w(3) p(2) last_in_set [OF p(1)] by metis
    have ok': "write_ok st'" "bufsz \<le> ws_bufsize st'" using w(4-6) less(4-6) by (auto simp: write_ok_def)
    have "length ?q < length cl_buf" using less(3) False by simp
    from less(1) [OF this p(3) less(3,4) ok' nd] obtain st'' where
      "data_write_ascii bufsz (\<lambda>_. True) st' ?q = Some (Inr (to_net False ?q), st'')" by blast
    moreover have "to_net False cl_buf = to_net False ?p @ to_net False ?q"
      using to_net_append [of False ?p ?q] w(3) nd p(1) by simp
    ultimately show ?thesis using w(1,2) False by (subst data_write_ascii.simps) simp
  qed
qed

text \<open>C22. A download in ASCII mode of a text without CRs sends every line ended by CR LF, however long the text is and
  whatever the size of the transfer buffer, which grows when the CRs do not fit.\<close>

theorem download_translates_text:
  assumes "CR \<notin> set cl_buf" and "bufsz > 0" and "2 * bufsz + 1 < 2 ^ 31"
    and "write_ok st" and "bufsz \<le> ws_bufsize st"
  shows "\<exists>st'. data_write_ascii bufsz (\<lambda>_. True) (clear_dangling_cr st) cl_buf = Some (Inr (to_net False cl_buf), st')"
  using download_text [OF assms(1-3), of "clear_dangling_cr st"] assms(4,5) by (simp add: clear_dangling_cr_def write_ok_def)

definition demo_write :: write_state where
  "demo_write = \<lparr>ws_buf = replicate 4 NUL, ws_bufsize = 4, have_dangling_cr = True\<rparr>"

theorem download_translates_text_witness:
  "\<exists>st'. data_write_ascii 4 (\<lambda>_. True) (clear_dangling_cr demo_write) ([LF, LF] @ ''ab'' @ [LF]) =
     Some (Inr ([CR, LF, CR, LF] @ ''ab'' @ [CR, LF]), st')"
  using download_translates_text [of "[LF, LF] @ ''ab'' @ [LF]" 4 demo_write] by (simp add: demo_write_def write_ok_def)

text \<open>A buffer that starts with LF, after one that ended in CR, is translated wrongly when it has a bare LF later: the
  first LF gets a second CR, and the last bare LF gets none.\<close>

theorem xfrm_ascii_write_split_crlf:
  assumes "CR \<notin> set x" and "LF \<notin> set x" and "x \<noteq> []" and "write_ok st" and "have_dangling_cr st"
    and "take (length x + 2) (ws_buf st) = LF # x @ [LF]" and "length x + 3 < ws_bufsize st" and "2 * (length x + 2) < 2 ^ 31"
  shows "\<exists>st'. xfrm_ascii_write (length x + 2) st = Some (length x + 3, st') \<and>
    take (length x + 3) (ws_buf st') = CR # LF # x @ [LF]"
proof -
  let ?data = "LF # x @ [LF]" and ?len = "length x + 2"
  have bare_x: "bare cr (x @ [LF]) = (if cr \<and> x = [] then 0 else 1)" if "CR \<notin> set x" "LF \<notin> set x" for cr x
    using that by (induction x arbitrary: cr) auto
  have lf: "aw_lfcount True ?data = 1"
    using bare_x [OF assms(1,2), of False] assms(3) by (simp add: aw_lfcount_def count_bare_bare)
  let ?st1 = "st\<lparr>have_dangling_cr := False\<rparr>"
  have "write_ok ?st1" using assms(4) by (simp add: write_ok_def)
  then have room: "aw_room ?len 1 ?st1 = ?st1"
    using room_test [of ?st1 ?len 1] assms(7,8) by (simp add: aw_room_def)
  have "aw_insert ?len (ws_bufsize st) 1 (ws_buf st) = (1, CR # ?data @ drop (?len + 1) (ws_buf st))"
    using assms(6) by (cases "ws_buf st") (auto simp: aw_insert_def aw_loop.simps)
  then have "xfrm_ascii_write ?len st = Some (length x + 3, ?st1\<lparr>ws_buf := CR # ?data @ drop (?len + 1) (ws_buf st)\<rparr>)"
    using lf room assms(5,6) by (simp add: xfrm_ascii_write_def)
  then show ?thesis by (simp add: numeral_3_eq_3)
qed

theorem xfrm_ascii_write_split_crlf_witness:
  "\<exists>st'. xfrm_ascii_write 3 \<lparr>ws_buf = [LF, CHR ''a'', LF, NUL, NUL], ws_bufsize = 5, have_dangling_cr = True\<rparr> = Some (4, st') \<and>
    take 4 (ws_buf st') = [CR, LF, CHR ''a'', LF]"
proof -
  have n: "length ''a'' + 2 = 3" "length ''a'' + 3 = 4" by simp_all
  show ?thesis
    using xfrm_ascii_write_split_crlf
      [of "''a''" "\<lparr>ws_buf = [LF, CHR ''a'', LF, NUL, NUL], ws_bufsize = 5, have_dangling_cr = True\<rparr>", unfolded n]
    by (simp add: write_ok_def)
qed

section \<open>There and back\<close>

lemma from_net_to_net: "CR \<notin> set s \<Longrightarrow> from_net (to_net False s) = s"
  by (induction s) auto

text \<open>C20. A text without CRs that is downloaded and uploaded again in ASCII mode arrives unchanged, whatever the buffer
  size of the download and the pieces of the upload are.\<close>

theorem ascii_round_trip:
  assumes "CR \<notin> set s" and "bufsz > 0" and "2 * bufsz + 1 < 2 ^ 31" and "write_ok st" and "bufsz \<le> ws_bufsize st"
    and "data_write_ascii bufsz (\<lambda>_. True) (clear_dangling_cr st) s = Some (Inr sent, st')"
    and "concat chunks = sent" and "\<forall>ch \<in> set chunks. ch \<noteq> [] \<and> length ch < cl_size" and "cl_size > 0"
  shows "upload (length chunks + 2) cl_size \<lparr>xf_buf = [], xf_total = 0\<rparr> (map Got chunks @ [Got [], Got []]) = Some s"
proof -
  have "write_ok (clear_dangling_cr st)" using assms(4) by (simp add: write_ok_def clear_dangling_cr_def)
  then have "sent = to_net False s"
    using download_text [OF assms(1-3), of "clear_dangling_cr st"] assms(5,6) by (auto simp: clear_dangling_cr_def)
  then show ?thesis
    using upload_chunks [OF assms(8,9), of "\<lparr>xf_buf = [], xf_total = 0\<rparr>" 0] from_net_to_net [OF assms(1)] assms(7) by simp
qed

theorem ascii_round_trip_witness:
  "upload 4 64 \<lparr>xf_buf = [], xf_total = 0\<rparr> [Got (''ab'' @ [CR]), Got ([LF] @ ''c''), Got [], Got []] = Some (''ab'' @ [LF] @ ''c'')"
proof -
  have ok: "write_ok demo_write" "4 \<le> ws_bufsize demo_write" by (simp_all add: demo_write_def write_ok_def)
  have n: "length [''ab'' @ [CR], [LF] @ ''c''] + 2 = 4" by simp
  obtain st' where w: "data_write_ascii 4 (\<lambda>_. True) (clear_dangling_cr demo_write) (''ab'' @ [LF] @ ''c'') =
      Some (Inr (''ab'' @ [CR, LF] @ ''c''), st')"
    using download_text [of "''ab'' @ [LF] @ ''c''" 4 "clear_dangling_cr demo_write"]
    by (auto simp: clear_dangling_cr_def demo_write_def write_ok_def)
  show ?thesis
    using ascii_round_trip [OF _ _ _ ok w, of "[''ab'' @ [CR], [LF] @ ''c'']" 64, unfolded n]
    by (simp del: upload.simps data_read_ascii.simps)
qed

end
