(* ===== verification/Netio.thy ===== *)
theory Netio
  imports Response
begin

text \<open>
  Reading of lines from a connection, \<open>src/netio.c\<close>: \<open>pr_netio_gets\<close> and \<open>pr_netio_telnet_gets\<close>, which also answers
  and removes the Telnet commands in the control connection.
  A stream buffer is the list of its unread bytes. The connection is the list of the pieces of data that
  arrive; an empty piece, and the end of the list, is an end of file or a read error.
\<close>

section \<open>Streams\<close>

abbreviation TELNET_IAC :: char where "TELNET_IAC \<equiv> CHR 0xFF"
abbreviation TELNET_DONT :: char where "TELNET_DONT \<equiv> CHR 0xFE"
abbreviation TELNET_DO :: char where "TELNET_DO \<equiv> CHR 0xFD"
abbreviation TELNET_WONT :: char where "TELNET_WONT \<equiv> CHR 0xFC"
abbreviation TELNET_WILL :: char where "TELNET_WILL \<equiv> CHR 0xFB"
abbreviation TELNET_IP :: char where "TELNET_IP \<equiv> CHR 0xF4"
abbreviation TELNET_DM :: char where "TELNET_DM \<equiv> CHR 0xF2"
abbreviation newline :: char where "newline \<equiv> CHR 0x0A"

text \<open>A read of at most \<open>n\<close> bytes.\<close>

fun net_in :: "nat \<Rightarrow> string list \<Rightarrow> string \<times> string list" where
  "net_in n [] = ([], [])"
| "net_in n (c # cs) = (if length c \<le> n then (c, cs) else (take n c, drop n c # cs))"

record netio_state =
  nio_unread :: string
  nio_pieces :: "string list"
  nio_bufsz :: nat
  telnet_mode :: char
  properly_terminated_prev_command :: bool
  nio_replies :: "string list"

text \<open>The number of bytes and pieces that are left.\<close>

definition nio_left :: "netio_state \<Rightarrow> nat" where
  "nio_left st = length (nio_unread st) + length (concat (nio_pieces st)) + length (nio_pieces st)"

text \<open>The refill at the top of both loops: when the buffer is empty, a read of at most the room left.\<close>

definition refill :: "nat \<Rightarrow> netio_state \<Rightarrow> netio_state" where
  "refill buflen st =
     (if nio_unread st = [] then
        (let (new, rest) = net_in (min buflen (nio_bufsz st)) (nio_pieces st) in
         st\<lparr>nio_unread := new, nio_pieces := rest\<rparr>)
      else st)"

section \<open>Plain lines\<close>

text \<open>The inner loop of \<open>pr_netio_gets\<close>: bytes with the high bit set are dropped.\<close>

fun gets_inner :: "nat \<Rightarrow> string \<Rightarrow> string \<times> string" where
  "gets_inner 0 cs = ([], cs)"
| "gets_inner (Suc n) [] = ([], [])"
| "gets_inner (Suc n) (c # cs) =
     (if c = newline then ([], c # cs)
      else if uchar c \<ge> 128 then gets_inner (Suc n) cs
      else (let (w, rest) = gets_inner n cs in (c # w, rest)))"

lemma net_in_left:
  "fst (net_in n ps) \<noteq> [] \<Longrightarrow>
   length (concat (snd (net_in n ps))) + length (fst (net_in n ps)) = length (concat ps) \<and> length (snd (net_in n ps)) \<le> length ps"
  by (cases ps) auto

lemma refill_left: "nio_unread (refill n st) \<noteq> [] \<Longrightarrow> nio_left (refill n st) \<le> nio_left st"
  using net_in_left [of "min n (nio_bufsz st)" "nio_pieces st"]
  by (auto simp: refill_def nio_left_def Let_def split: prod.splits)

lemma gets_inner_left: "length (snd (gets_inner n cs)) \<le> length cs"
  by (induction n cs rule: gets_inner.induct) (auto split: prod.splits)

lemma gets_inner_sum: "length (fst (gets_inner n cs)) + length (snd (gets_inner n cs)) \<le> length cs"
  by (induction n cs rule: gets_inner.induct) (auto split: prod.splits)

lemma gets_inner_progress:
  assumes "gets_inner n cs = (w, rest)" and "cs \<noteq> []" and "n > 0"
    and "\<not> (n - length w > 0 \<and> rest \<noteq> [] \<and> hd rest = newline)"
  shows "length rest < length cs"
proof (rule ccontr)
  assume "\<not> length rest < length cs"
  moreover have "length w + length rest \<le> length cs" using gets_inner_sum [of n cs] assms(1) by simp
  ultimately have "length w = 0" and l: "length rest = length cs" by linarith+
  then have w: "w = []" "length rest = length cs" by simp_all
  obtain m where n: "n = Suc m" using assms(3) by (cases n) auto
  obtain c ds where cs: "cs = c # ds" using assms(2) by (cases cs) auto
  show False
  proof (cases "c = newline")
    case True
    then show ?thesis using assms n cs by auto
  next
    case False
    then have "uchar c \<ge> 128" using assms(1) w(1) n cs by (auto split: prod.splits if_splits)
    then have "gets_inner (Suc m) ds = (w, rest)" using assms(1) n cs False by simp
    then show ?thesis using gets_inner_left [of "Suc m" ds] w(2) cs by simp
  qed
qed

text \<open>The outer loop with the text read so far; \<open>Inl\<close> is the return of \<open>NULL\<close>.\<close>

function gets_outer :: "nat \<Rightarrow> string \<Rightarrow> netio_state \<Rightarrow> (unit + string) \<times> netio_state" where
  "gets_outer buflen out st =
     (if buflen = 0 then (Inr out, st)
      else
        (let st1 = refill buflen st in
         if nio_unread st1 = [] then (if out \<noteq> [] then Inr out else Inl (), st1)
         else
           (let (w, rest) = gets_inner buflen (nio_unread st1); buflen' = buflen - length w in
            if buflen' > 0 \<and> rest \<noteq> [] \<and> hd rest = newline
            then (Inr (out @ w @ [newline]), st1\<lparr>nio_unread := tl rest\<rparr>)
            else gets_outer buflen' (out @ w) (st1\<lparr>nio_unread := rest\<rparr>))))"
  by pat_completeness auto
termination
proof (relation "measure (\<lambda>(_, _, st). nio_left st)", goal_cases)
  case (2 buflen out st st1 p w rest buflen')
  then have "length rest < length (nio_unread st1)" using gets_inner_progress [of buflen "nio_unread st1" w rest] by auto
  then show ?case using refill_left [of buflen st] 2(2,3) by (simp add: nio_left_def)
qed simp

declare gets_outer.simps [simp del]

definition pr_netio_gets :: "nat \<Rightarrow> netio_state \<Rightarrow> (errno option + string) \<times> netio_state" where
  "pr_netio_gets buflen st =
     (if buflen = 0 then (Inl (Some EINVAL), st)
      else (let (r, st') = gets_outer (buflen - 1) [] st in (map_sum (\<lambda>_. None) id r, st')))"

section \<open>Lines with Telnet commands\<close>

text \<open>What one byte does: it is skipped, with the answer sent if any, or the bytes to be stored.\<close>

datatype telnet_step = Skip char "string list" | Emit char string

text \<open>An answer is written with \<open>printf\<close> and ends at a zero byte.\<close>

definition telnet_reply :: "char \<Rightarrow> char \<Rightarrow> string" where
  "telnet_reply verb c = c_text [TELNET_IAC, verb, c]"

definition telnet_byte :: "bool \<Rightarrow> char \<Rightarrow> char \<Rightarrow> telnet_step" where
  "telnet_byte handle_iac mode c =
     (if \<not> handle_iac then Emit mode [c]
      else if mode = TELNET_IAC then
        (if c \<in> {TELNET_WILL, TELNET_WONT, TELNET_DO, TELNET_DONT, TELNET_IP, TELNET_DM} then Skip c []
         else if c = TELNET_IAC then Emit NUL [c]
         else Emit NUL [TELNET_IAC, c])
      else if mode = TELNET_WILL \<or> mode = TELNET_WONT then Skip NUL [telnet_reply TELNET_DONT c]
      else if mode = TELNET_DO \<or> mode = TELNET_DONT then Skip NUL [telnet_reply TELNET_WONT c]
      else if c = TELNET_IAC then Skip c []
      else Emit mode [c])"

text \<open>The inner loop: the bytes stored, the mode, the answers and the bytes left. When the room ends between an
  escaped \<open>IAC\<close> and the byte after it, that byte has been taken from the buffer and is lost.\<close>

fun telnet_inner :: "bool \<Rightarrow> char \<Rightarrow> nat \<Rightarrow> string \<Rightarrow> string \<times> char \<times> string list \<times> string" where
  "telnet_inner h mode buflen [] = ([], mode, [], [])"
| "telnet_inner h mode buflen (c # cs) =
     (if buflen = 0 \<or> c = newline then ([], mode, [], c # cs)
      else
        (case telnet_byte h mode c of
           Skip mode' rs \<Rightarrow>
             (let (w, m, rs', rest) = telnet_inner h mode' buflen cs in (w, m, rs @ rs', rest))
         | Emit mode' bs \<Rightarrow>
             (if length bs > buflen then (take buflen bs, mode', [], cs)
              else (let (w, m, rs', rest) = telnet_inner h mode' (buflen - length bs) cs in (bs @ w, m, rs', rest)))))"

lemma telnet_inner_left:
  "length (snd (snd (snd (telnet_inner h mode buflen cs)))) \<le> length cs"
proof (induction h mode buflen cs rule: telnet_inner.induct)
  case (2 h mode buflen c cs)
  then show ?case by (auto split: telnet_step.splits prod.splits simp: le_SucI)
qed simp

lemma telnet_inner_progress:
  assumes "telnet_inner h mode buflen cs = (w, m, rs, rest)" and "cs \<noteq> []" and "buflen > 0"
    and "\<not> (buflen - length w > 0 \<and> rest \<noteq> [] \<and> hd rest = newline)"
  shows "length rest < length cs"
proof -
  obtain c ds where cs: "cs = c # ds" using assms(2) by (cases cs) auto
  show ?thesis
  proof (cases "c = newline")
    case True
    then show ?thesis using assms cs by auto
  next
    case False
    then have "length rest \<le> length ds"
      using assms(1,3) cs telnet_inner_left [of h _ buflen ds] telnet_inner_left [of h _ "buflen - _" ds]
      by (auto split: telnet_step.splits prod.splits if_splits) (metis snd_conv)+
    then show ?thesis using cs by simp
  qed
qed

text \<open>The outer loop with the text stored so far. \<open>TgEof\<close> is the return from a failed read, \<open>TgLine\<close> the end of the loop
  with the value of \<open>saw_newline\<close>.\<close>

datatype telnet_end = TgEof string | TgLine string bool

function telnet_outer :: "bool \<Rightarrow> nat \<Rightarrow> string \<Rightarrow> netio_state \<Rightarrow> telnet_end \<times> netio_state" where
  "telnet_outer h buflen out st =
     (if buflen = 0 then (TgLine out False, st)
      else
        (let st1 = refill buflen st in
         if nio_unread st1 = [] then (TgEof out, st1)
         else
           (let (w, m, rs, rest) = telnet_inner h (telnet_mode st1) buflen (nio_unread st1);
                buflen' = buflen - length w;
                st2 = st1\<lparr>telnet_mode := m, nio_replies := nio_replies st1 @ rs, nio_unread := rest\<rparr>
            in if buflen' > 0 \<and> rest \<noteq> [] \<and> hd rest = newline
               then (TgLine (out @ w @ [newline]) True, st2\<lparr>nio_unread := tl rest\<rparr>)
               else telnet_outer h buflen' (out @ w) st2)))"
  by pat_completeness auto
termination
proof (relation "measure (\<lambda>(_, _, _, st). nio_left st)", goal_cases)
  case (2 h buflen out st st1 p w q m r rs rest buflen' st2)
  then have "length rest < length (nio_unread st1)"
    using telnet_inner_progress [of h "telnet_mode st1" buflen "nio_unread st1" w m rs rest] by auto
  then show ?case using refill_left [of buflen st] 2(2,3) 2(9) by (simp add: nio_left_def)
qed simp

declare telnet_outer.simps [simp del]

text \<open>\<open>Inl None\<close> is the return of \<open>NULL\<close> after a failed read. \<open>handle_iac\<close> is off only for character sets in which the
  byte \<open>IAC\<close> is a letter.\<close>

definition pr_netio_telnet_gets ::
  "bool \<Rightarrow> bool \<Rightarrow> nat \<Rightarrow> netio_state \<Rightarrow> (errno option + string) \<times> netio_state" where
  "pr_netio_telnet_gets have_streams handle_iac buflen st =
     (if buflen = 0 \<or> \<not> have_streams then (Inl (Some EINVAL), st)
      else
        (case telnet_outer handle_iac (buflen - 1) [] st of
           (TgEof out, st') \<Rightarrow> (if out \<noteq> [] then Inr out else Inl None, st')
         | (TgLine out saw_newline, st') \<Rightarrow>
             (if \<not> saw_newline then
                (Inl (Some E2BIG), st'\<lparr>properly_terminated_prev_command := False\<rparr>)
              else if \<not> properly_terminated_prev_command st' then
                (Inl (Some E2BIG), st'\<lparr>properly_terminated_prev_command := True\<rparr>)
              else (Inr out, st'\<lparr>properly_terminated_prev_command := True\<rparr>))))"

section \<open>Bounds\<close>

lemma telnet_inner_room: "length (fst (telnet_inner h mode buflen cs)) \<le> buflen"
proof (induction h mode buflen cs rule: telnet_inner.induct)
  case (2 h mode buflen c cs)
  then show ?case by (auto split: telnet_step.splits prod.splits)
qed simp

lemma gets_inner_room: "length (fst (gets_inner n cs)) \<le> n"
  by (induction n cs rule: gets_inner.induct) (auto split: prod.splits)

fun tg_text :: "telnet_end \<Rightarrow> string" where
  "tg_text (TgEof s) = s"
| "tg_text (TgLine s _) = s"

lemma telnet_outer_room: "length (tg_text (fst (telnet_outer h buflen out st))) \<le> length out + buflen"
proof (induction h buflen out st rule: telnet_outer.induct)
  case (1 h buflen out st)
  let ?st = "refill buflen st"
  obtain w m rs rest where i: "telnet_inner h (telnet_mode ?st) buflen (nio_unread ?st) = (w, m, rs, rest)"
    by (cases "telnet_inner h (telnet_mode ?st) buflen (nio_unread ?st)")
  have w: "length w \<le> buflen" using telnet_inner_room [of h "telnet_mode ?st" buflen "nio_unread ?st"] i by simp
  show ?case
  proof (cases "buflen = 0 \<or> nio_unread ?st = []")
    case True
    then show ?thesis by (subst telnet_outer.simps) (auto simp: Let_def)
  next
    case False
    then show ?thesis
      using 1 [OF _ refl _ i [symmetric] refl refl refl refl refl] i w by (subst telnet_outer.simps) (auto simp: Let_def)
  qed
qed

lemma gets_outer_room: "fst (gets_outer buflen out st) = Inr s \<Longrightarrow> length s \<le> length out + buflen"
proof (induction buflen out st rule: gets_outer.induct)
  case (1 buflen out st)
  let ?st = "refill buflen st"
  obtain w rest where i: "gets_inner buflen (nio_unread ?st) = (w, rest)" by (cases "gets_inner buflen (nio_unread ?st)")
  have w: "length w \<le> buflen" using gets_inner_room [of buflen "nio_unread ?st"] i by simp
  show ?case
  proof (cases "buflen = 0 \<or> nio_unread ?st = []")
    case True
    then show ?thesis using 1(2) by (subst (asm) gets_outer.simps) (auto simp: Let_def split: if_splits)
  next
    case False
    then show ?thesis
      using 1(2) 1(1) [OF _ refl _ i [symmetric] refl] i w
      by (auto simp: gets_outer.simps [of buflen out st] Let_def split: if_splits)
  qed
qed

text \<open>C19. A line that is read, with or without Telnet commands, together with its terminating zero fits the caller's buffer,
  whatever arrives: the escaped \<open>IAC\<close> that stores two bytes for one does not exceed it either.\<close>

theorem netio_gets_within_buffer:
  assumes "pr_netio_telnet_gets streams h buflen st = (Inr line, st') \<or> pr_netio_gets buflen st = (Inr line, st')"
  shows "length line + 1 \<le> buflen"
proof (cases "buflen = 0")
  case True
  then show ?thesis using assms by (auto simp: pr_netio_telnet_gets_def pr_netio_gets_def)
next
  case False
  have "length line \<le> buflen - 1" if g: "pr_netio_telnet_gets streams h buflen st = (Inr line, st')"
  proof -
    have "tg_text (fst (telnet_outer h (buflen - 1) [] st)) = line"
      using g by (auto simp: pr_netio_telnet_gets_def split: if_splits prod.splits telnet_end.splits)
    then show ?thesis using telnet_outer_room [of h "buflen - 1" "[]" st] by simp
  qed
  moreover have "length line \<le> buflen - 1" if g: "pr_netio_gets buflen st = (Inr line, st')"
  proof -
    have "fst (gets_outer (buflen - 1) [] st) = Inr line"
      using g False by (cases "fst (gets_outer (buflen - 1) [] st)") (auto simp: pr_netio_gets_def split: prod.splits)
    then show ?thesis using gets_outer_room [of "buflen - 1" "[]" st line] by simp
  qed
  ultimately show ?thesis using assms False by fastforce
qed

definition demo_netio :: "string list \<Rightarrow> netio_state" where
  "demo_netio pieces = \<lparr>nio_unread = [], nio_pieces = pieces, nio_bufsz = 64, telnet_mode = NUL,
     properly_terminated_prev_command = True, nio_replies = []\<rparr>"

section \<open>Reading a line\<close>

text \<open>The Telnet protocol of one line, without a limit: the text, the mode and the answers.\<close>

fun telnet_decode :: "bool \<Rightarrow> char \<Rightarrow> string \<Rightarrow> string \<times> char \<times> string list" where
  "telnet_decode h mode [] = ([], mode, [])"
| "telnet_decode h mode (c # cs) =
     (case telnet_byte h mode c of
        Skip mode' rs \<Rightarrow> (let (w, m, rs') = telnet_decode h mode' cs in (w, m, rs @ rs'))
      | Emit mode' bs \<Rightarrow> (let (w, m, rs') = telnet_decode h mode' cs in (bs @ w, m, rs')))"

lemma telnet_decode_append:
  "telnet_decode h mode (a @ b) =
     (let (w, m, rs) = telnet_decode h mode a; (w', m', rs') = telnet_decode h m b in (w @ w', m', rs @ rs'))"
  by (induction h mode a rule: telnet_decode.induct) (auto split: telnet_step.splits prod.splits)

text \<open>Without \<open>IAC\<close> bytes the text is the line.\<close>

definition idle_mode :: "char \<Rightarrow> bool" where
  "idle_mode m \<longleftrightarrow> m \<notin> {TELNET_IAC, TELNET_WILL, TELNET_WONT, TELNET_DO, TELNET_DONT}"

lemma telnet_decode_plain:
  "idle_mode m \<Longrightarrow> TELNET_IAC \<notin> set a \<Longrightarrow> telnet_decode h m a = (a, m, [])"
  by (induction a) (auto simp: telnet_byte_def idle_mode_def)

lemma telnet_inner_decode:
  assumes "telnet_decode h mode a = (w, m, rs)" and "newline \<notin> set a" and "length w < buflen" and "b = [] \<or> hd b = newline"
  shows "telnet_inner h mode buflen (a @ b) = (w, m, rs, b)"
  using assms
proof (induction a arbitrary: mode buflen w m rs)
  case Nil
  then show ?case by (cases b) auto
next
  case (Cons c a)
  show ?case
  proof (cases "telnet_byte h mode c")
    case (Skip mode' rs1)
    obtain w' m' rs' where d: "telnet_decode h mode' a = (w', m', rs')" by (cases "telnet_decode h mode' a")
    then show ?thesis using Cons.IH [OF d, of buflen] Cons.prems Skip by auto
  next
    case (Emit mode' bs)
    obtain w' m' rs' where d: "telnet_decode h mode' a = (w', m', rs')" by (cases "telnet_decode h mode' a")
    then show ?thesis using Cons.IH [OF d, of "buflen - length bs"] Cons.prems Emit by auto
  qed
qed

text \<open>The bytes still to be read, and streams on which a read returns data.\<close>

definition nio_bytes :: "netio_state \<Rightarrow> string" where
  "nio_bytes st = nio_unread st @ concat (nio_pieces st)"

definition nio_ok :: "netio_state \<Rightarrow> bool" where
  "nio_ok st \<longleftrightarrow> [] \<notin> set (nio_pieces st) \<and> nio_bufsz st > 0"

lemma net_in_bytes:
  assumes "[] \<notin> set ps" and "ps \<noteq> []" and "n > 0"
  shows "fst (net_in n ps) \<noteq> []" "fst (net_in n ps) @ concat (snd (net_in n ps)) = concat ps" "[] \<notin> set (snd (net_in n ps))"
  using assms by (cases ps; auto)+

lemma refill_ok:
  assumes "nio_ok st" and "nio_bytes st \<noteq> []" and "buflen > 0"
  shows "nio_unread (refill buflen st) \<noteq> []" "nio_bytes (refill buflen st) = nio_bytes st" "nio_ok (refill buflen st)"
    "telnet_mode (refill buflen st) = telnet_mode st" "nio_replies (refill buflen st) = nio_replies st"
    "properly_terminated_prev_command (refill buflen st) = properly_terminated_prev_command st"
proof -
  have p: "nio_unread st = [] \<Longrightarrow> nio_pieces st \<noteq> []" using assms(2) by (auto simp: nio_bytes_def)
  have n: "min buflen (nio_bufsz st) > 0" using assms(1,3) by (simp add: nio_ok_def)
  show "nio_unread (refill buflen st) \<noteq> []" "nio_bytes (refill buflen st) = nio_bytes st" "nio_ok (refill buflen st)"
    "telnet_mode (refill buflen st) = telnet_mode st" "nio_replies (refill buflen st) = nio_replies st"
    "properly_terminated_prev_command (refill buflen st) = properly_terminated_prev_command st"
    using net_in_bytes [of "nio_pieces st" "min buflen (nio_bufsz st)"] p n assms(1)
    by (auto simp: refill_def nio_ok_def nio_bytes_def Let_def split: prod.splits)
qed

lemma refill_consumed:
  "nio_unread (refill n st) \<noteq> [] \<Longrightarrow>
   nio_left ((refill n st)\<lparr>telnet_mode := m, nio_replies := rs, nio_unread := []\<rparr>) < nio_left st"
  using refill_left [of n st] by (cases "nio_unread (refill n st)") (simp_all add: nio_left_def)

lemma append_split_len:
  "xs @ ys = a @ r \<Longrightarrow> length xs \<le> length a \<Longrightarrow> \<exists>a2. a = xs @ a2 \<and> ys = a2 @ r"
  "xs @ ys = a @ r \<Longrightarrow> length a \<le> length xs \<Longrightarrow> \<exists>b. xs = a @ b \<and> b @ ys = r"
  by (auto simp: append_eq_append_conv2)

lemma append_split_at:
  "xs @ ys = a @ c # r \<Longrightarrow> (\<exists>b. xs = a @ c # b \<and> b @ ys = r) \<or> (\<exists>a2. a = xs @ a2 \<and> ys = a2 @ c # r)"
  by (auto simp: append_eq_append_conv2 append_eq_Cons_conv)

lemma telnet_outer_line:
  assumes "nio_ok st" and "nio_bytes st = a @ newline # rest" and "newline \<notin> set a"
    and "telnet_decode h (telnet_mode st) a = (w, m, rs)" and "length w < buflen"
  shows "\<exists>st'. telnet_outer h buflen out st = (TgLine (out @ w @ [newline]) True, st') \<and> nio_ok st' \<and>
    nio_bytes st' = rest \<and> telnet_mode st' = m \<and> nio_replies st' = nio_replies st @ rs \<and>
    properly_terminated_prev_command st' = properly_terminated_prev_command st"
  using assms
proof (induction "nio_left st" arbitrary: st a w rs buflen out rule: less_induct)
  case less
  let ?st = "refill buflen st"
  have pos: "buflen > 0" using less.prems(5) by simp
  have bytes: "nio_bytes st \<noteq> []" using less.prems(2) by simp
  note r = refill_ok [OF less.prems(1) bytes pos]
  have eq: "nio_unread ?st @ concat (nio_pieces ?st) = a @ newline # rest"
    using r(2) less.prems(2) by (simp add: nio_bytes_def)
  show ?case
  proof (cases "\<exists>b. nio_unread ?st = a @ newline # b \<and> b @ concat (nio_pieces ?st) = rest")
    case True
    then obtain b where b: "nio_unread ?st = a @ newline # b" "b @ concat (nio_pieces ?st) = rest" by blast
    have i: "telnet_inner h (telnet_mode ?st) buflen (nio_unread ?st) = (w, m, rs, newline # b)"
      using telnet_inner_decode [OF less.prems(4,3,5), of "newline # b"] b(1) r(4) by simp
    show ?thesis
      using i r pos b less.prems(5) by (subst telnet_outer.simps) (simp add: Let_def nio_ok_def nio_bytes_def)
  next
    case False
    then obtain a2 where a2: "a = nio_unread ?st @ a2" "concat (nio_pieces ?st) = a2 @ newline # rest"
      using append_split_at [OF eq] by blast
    obtain w1 m1 rs1 where d1: "telnet_decode h (telnet_mode st) (nio_unread ?st) = (w1, m1, rs1)"
      by (cases "telnet_decode h (telnet_mode st) (nio_unread ?st)")
    obtain w2 m2 rs2 where d2: "telnet_decode h m1 a2 = (w2, m2, rs2)" by (cases "telnet_decode h m1 a2")
    have w: "w = w1 @ w2" "m = m2" "rs = rs1 @ rs2"
      using less.prems(4) d1 d2 a2(1) telnet_decode_append [of h "telnet_mode st" "nio_unread ?st" a2] by auto
    have i: "telnet_inner h (telnet_mode ?st) buflen (nio_unread ?st) = (w1, m1, rs1, [])"
      using telnet_inner_decode [OF d1, of buflen "[]"] less.prems(3,5) a2(1) w(1) r(4) by auto
    let ?st2 = "?st\<lparr>telnet_mode := m1, nio_replies := nio_replies ?st @ rs1, nio_unread := []\<rparr>"
    have left: "nio_left ?st2 < nio_left st" by (rule refill_consumed [OF r(1)])
    have "\<exists>st'. telnet_outer h (buflen - length w1) (out @ w1) ?st2 = (TgLine ((out @ w1) @ w2 @ [newline]) True, st') \<and>
        nio_ok st' \<and> nio_bytes st' = rest \<and> telnet_mode st' = m2 \<and> nio_replies st' = nio_replies ?st2 @ rs2 \<and>
        properly_terminated_prev_command st' = properly_terminated_prev_command ?st2"
      using less.hyps [OF left, of a2 w2 rs2 "buflen - length w1" "out @ w1"] r(3) a2 d2 less.prems(3,5) w
      by (auto simp: nio_ok_def nio_bytes_def)
    then show ?thesis
      using i r pos w by (subst telnet_outer.simps) (auto simp: Let_def)
  qed
qed

text \<open>C7. Whatever the pieces are in which a line arrives, \<open>pr_netio_telnet_gets\<close> returns its text, with the Telnet commands
  taken out, up to and including the newline, sends the answers that the protocol asks for, and leaves the bytes
  after the line for the next call. A line that follows a too-long one is refused with \<open>E2BIG\<close> instead.\<close>

theorem telnet_gets_reads_line:
  assumes "nio_ok st" and "nio_bytes st = line @ newline # rest" and "newline \<notin> set line"
    and "telnet_decode h (telnet_mode st) line = (text, m, rs)" and "length text + 2 \<le> buflen"
  shows "\<exists>st'. pr_netio_telnet_gets True h buflen st =
      (if properly_terminated_prev_command st then Inr (text @ [newline]) else Inl (Some E2BIG), st') \<and>
    nio_ok st' \<and> nio_bytes st' = rest \<and> telnet_mode st' = m \<and> nio_replies st' = nio_replies st @ rs \<and>
    properly_terminated_prev_command st'"
proof -
  have "length text < buflen - 1" using assms(5) by simp
  from telnet_outer_line [OF assms(1-4) this, of "[]"] show ?thesis
    using assms(5) by (auto simp: pr_netio_telnet_gets_def nio_ok_def nio_bytes_def)
qed

theorem telnet_gets_reads_line_witness:
  "\<exists>st'. pr_netio_telnet_gets True True 16 (demo_netio [''NO'', [CHR ''O'', TELNET_IAC], [TELNET_DO, CHR 0x01, CHR ''P''], [newline]]) =
      (Inr (''NOOP'' @ [newline]), st') \<and> nio_replies st' = [[TELNET_IAC, TELNET_WONT, CHR 0x01]]"
  using telnet_gets_reads_line [of "demo_netio [''NO'', [CHR ''O'', TELNET_IAC], [TELNET_DO, CHR 0x01, CHR ''P''], [newline]]"
      "''NOO'' @ [TELNET_IAC, TELNET_DO, CHR 0x01, CHR ''P'']" "[]" True "''NOOP''" NUL "[[TELNET_IAC, TELNET_WONT, CHR 0x01]]" 16]
  by (auto simp: demo_netio_def nio_ok_def nio_bytes_def telnet_byte_def telnet_reply_def c_text_def)

theorem netio_gets_within_buffer_witness:
  "\<exists>line st'. pr_netio_telnet_gets True True 16 (demo_netio [''NOOP'', [newline]]) = (Inr line, st') \<and> length line + 1 \<le> 16"
proof -
  have d: "nio_ok (demo_netio [''NOOP'', [newline]])" "nio_bytes (demo_netio [''NOOP'', [newline]]) = ''NOOP'' @ newline # []"
    "telnet_decode True (telnet_mode (demo_netio [''NOOP'', [newline]])) ''NOOP'' = (''NOOP'', NUL, [])"
    by (simp_all add: demo_netio_def nio_ok_def nio_bytes_def telnet_byte_def)
  obtain st' where "telnet_outer True 15 [] (demo_netio [''NOOP'', [newline]]) = (TgLine (''NOOP'' @ [newline]) True, st')"
    "properly_terminated_prev_command st'"
    using telnet_outer_line [OF d(1,2) _ d(3), of 15 "[]"] by (auto simp: demo_netio_def)
  then have "pr_netio_telnet_gets True True 16 (demo_netio [''NOOP'', [newline]]) =
      (Inr (''NOOP'' @ [newline]), st'\<lparr>properly_terminated_prev_command := True\<rparr>)"
    by (simp add: pr_netio_telnet_gets_def)
  then show ?thesis using netio_gets_within_buffer by blast
qed

section \<open>Too-long lines\<close>

lemma telnet_inner_stop:
  assumes "newline \<notin> set a" and "TELNET_IAC \<notin> set a" and "idle_mode mode"
  shows "telnet_inner h mode (length a) (a @ b) = (a, mode, [], b)"
  using assms
proof (induction a)
  case Nil
  then show ?case by (cases b) auto
next
  case (Cons c a)
  then show ?case by (auto simp: telnet_byte_def idle_mode_def)
qed

lemma telnet_outer_full:
  assumes "nio_ok st" and "nio_bytes st = a @ rest" and "newline \<notin> set a" and "TELNET_IAC \<notin> set a"
    and "idle_mode (telnet_mode st)" and "length a = buflen"
  shows "\<exists>st'. telnet_outer h buflen out st = (TgLine (out @ a) False, st') \<and> nio_ok st' \<and> nio_bytes st' = rest \<and>
    telnet_mode st' = telnet_mode st \<and> nio_replies st' = nio_replies st"
  using assms
proof (induction "nio_left st" arbitrary: st a buflen out rule: less_induct)
  case less
  show ?case
  proof (cases "a = []")
    case True
    then show ?thesis using less.prems by (subst telnet_outer.simps) simp
  next
    case False
    let ?st = "refill buflen st"
    have pos: "buflen > 0" "nio_bytes st \<noteq> []" using less.prems(2,6) False by auto
    note r = refill_ok [OF less.prems(1) pos(2,1)]
    have eq: "nio_unread ?st @ concat (nio_pieces ?st) = a @ rest" using r(2) less.prems(2) by (simp add: nio_bytes_def)
    show ?thesis
    proof (cases "length (nio_unread ?st) < buflen")
      case True
      then obtain a2 where a2: "a = nio_unread ?st @ a2" "concat (nio_pieces ?st) = a2 @ rest"
        using append_split_len(1) [OF eq] less.prems(6) by auto
      have d: "telnet_decode h (telnet_mode ?st) (nio_unread ?st) = (nio_unread ?st, telnet_mode ?st, [])"
        using less.prems(4,5) a2(1) r(4) by (intro telnet_decode_plain) auto
      have i: "telnet_inner h (telnet_mode ?st) buflen (nio_unread ?st) = (nio_unread ?st, telnet_mode ?st, [], [])"
        using telnet_inner_decode [OF d, of buflen "[]"] less.prems(3) a2(1) True by auto
      let ?st2 = "?st\<lparr>telnet_mode := telnet_mode ?st, nio_replies := nio_replies ?st, nio_unread := []\<rparr>"
      have left: "nio_left ?st2 < nio_left st" by (rule refill_consumed [OF r(1)])
      have "\<exists>st'. telnet_outer h (buflen - length (nio_unread ?st)) (out @ nio_unread ?st) ?st2 =
          (TgLine ((out @ nio_unread ?st) @ a2) False, st') \<and> nio_ok st' \<and> nio_bytes st' = rest \<and>
          telnet_mode st' = telnet_mode ?st2 \<and> nio_replies st' = nio_replies ?st2"
        using less.hyps [OF left, of a2 "buflen - length (nio_unread ?st)" "out @ nio_unread ?st"] r(3,4) a2 less.prems(3-6)
        by (auto simp: nio_ok_def nio_bytes_def)
      then show ?thesis using i r pos a2(1) by (subst telnet_outer.simps) (auto simp: Let_def)
    next
      case no: False
      then obtain b where b: "nio_unread ?st = a @ b" "b @ concat (nio_pieces ?st) = rest"
        using append_split_len(2) [OF eq] less.prems(6) by auto
      have i: "telnet_inner h (telnet_mode ?st) buflen (nio_unread ?st) = (a, telnet_mode ?st, [], b)"
        using telnet_inner_stop [OF less.prems(3,4), of "telnet_mode ?st" h b] less.prems(5,6) b(1) r(4) by simp
      then show ?thesis
        using r pos b less.prems(6) by (subst telnet_outer.simps, subst telnet_outer.simps) (auto simp: Let_def nio_ok_def nio_bytes_def)
    qed
  qed
qed



end
