(* ===== verification/Event.thy ===== *)
theory Event
  imports C_Lib
begin

text \<open>
  The event system of \<open>src/event.c\<close>: modules and the core register callbacks for named events, and
  generating an event calls them. Handlers are objects in a store, linked by \<open>next\<close> and \<open>prev\<close> pointers as in
  the code, because what \<open>pr_event_unregister\<close> does depends on them. Callbacks may use the event system
  themselves, also for the event that is being dispatched.
\<close>

section \<open>State\<close>

text \<open>\<open>struct event_handler\<close>. A handler is the index of its record in the store \<open>event_handler list\<close>, to which
  \<open>pcalloc\<close> appends; none is freed. A callback is its address, a module a pointer to its name.\<close>

record event_handler =
  eh_next :: "nat option"
  eh_prev :: "nat option"
  eh_module :: "string ptr option"
  eh_cb :: nat
  eh_user_data :: nat
  eh_flags :: nat

text \<open>\<open>struct event_list\<close>. The lists are linked newest first and never removed; a pointer to one of them, such as
  \<open>curr_evl\<close>, is the number of lists from it to the end.\<close>

record event_list =
  el_event :: string
  el_event_len :: nat
  el_handlers :: "nat option"

record ev_state =
  ev_heap :: "event_handler list"
  ev_events :: "event_list list"
  ev_curr_event :: "string option"
  ev_curr_evl :: nat
  ev_curr_evh :: "nat option"

definition ev_init :: ev_state where
  "ev_init = \<lparr>ev_heap = [], ev_events = [], ev_curr_event = None, ev_curr_evl = 0, ev_curr_evh = None\<rparr>"

definition untraced_events :: "string list" where
  "untraced_events =
     [''core.log.unspec'', ''core.log.xferlog'', ''core.log.syslog'', ''core.log.systemlog'',
      ''core.log.extendedlog'', ''core.log.tracelog'']"

definition evh_set_next :: "nat \<Rightarrow> nat option \<Rightarrow> event_handler list \<Rightarrow> event_handler list" where
  "evh_set_next a v hs = hs[a := (hs ! a)\<lparr>eh_next := v\<rparr>]"

definition evh_set_prev :: "nat \<Rightarrow> nat option \<Rightarrow> event_handler list \<Rightarrow> event_handler list" where
  "evh_set_prev a v hs = hs[a := (hs ! a)\<lparr>eh_prev := v\<rparr>]"

fun evh_set_prev_opt :: "nat option \<Rightarrow> nat option \<Rightarrow> event_handler list \<Rightarrow> event_handler list" where
  "evh_set_prev_opt None v hs = hs"
| "evh_set_prev_opt (Some a) v hs = evh_set_prev a v hs"

definition ev_clear_cache :: "ev_state \<Rightarrow> ev_state" where
  "ev_clear_cache st = st\<lparr>ev_curr_event := None, ev_curr_evl := 0, ev_curr_evh := None\<rparr>"

text \<open>\<open>strncmp(evl->event, event, evl->event_len + 1) == 0\<close>.\<close>

definition evl_is :: "event_list \<Rightarrow> string \<Rightarrow> bool" where
  "evl_is evl event = c_strneq (el_event evl) event (el_event_len evl + 1)"

section \<open>Registration\<close>

text \<open>The scan for a duplicate callback: \<open>None\<close> inside when there is one, else the last handler. The walk along
  \<open>next\<close> pointers need not end in an arbitrary store, so it is a partial function; the outer \<open>None\<close> is a loop that
  never ends.\<close>

partial_function (option) evh_scan :: "event_handler list \<Rightarrow> nat \<Rightarrow> nat \<Rightarrow> nat option option" where
  "evh_scan hs cb evhi =
     (if eh_cb (hs ! evhi) = cb then Some None
      else (case eh_next (hs ! evhi) of
              None \<Rightarrow> Some (Some evhi)
            | Some evhn \<Rightarrow> evh_scan hs cb evhn))"

text \<open>Linking a new handler into the list of its event.\<close>

definition evl_add ::
  "event_handler list \<Rightarrow> nat option \<Rightarrow> event_handler \<Rightarrow> (event_handler list \<times> nat option) result option" where
  "evl_add hs handlers evh =
     (let new = length hs in
      case handlers of
        None \<Rightarrow> Some (Inr (hs @ [evh], Some new))
      | Some h \<Rightarrow>
          (case evh_scan hs (eh_cb evh) h of
             None \<Rightarrow> None
           | Some None \<Rightarrow> Some (Inl EEXIST)
           | Some (Some evhl) \<Rightarrow>
               Some (Inr
                 (if eh_module evh \<noteq> None
                  then (evh_set_prev_opt (eh_next (hs ! h)) (Some new) hs @ [evh\<lparr>eh_next := Some h\<rparr>], Some new)
                  else (evh_set_next evhl (Some new) hs @ [evh\<lparr>eh_prev := Some evhl\<rparr>], Some h)))))"

text \<open>The search through the lists: \<open>None\<close> inside when the event has no list yet.\<close>

fun evl_register ::
  "event_handler list \<Rightarrow> event_handler \<Rightarrow> string \<Rightarrow> event_list list
     \<Rightarrow> (event_handler list \<times> event_list list) result option option" where
  "evl_register hs evh event [] = Some None"
| "evl_register hs evh event (evl # evls) =
     (if evl_is evl event
      then (case evl_add hs (el_handlers evl) evh of
              None \<Rightarrow> None
            | Some (Inl e) \<Rightarrow> Some (Some (Inl e))
            | Some (Inr (hs', h)) \<Rightarrow> Some (Some (Inr (hs', evl\<lparr>el_handlers := h\<rparr> # evls))))
      else (case evl_register hs evh event evls of
              None \<Rightarrow> None
            | Some None \<Rightarrow> Some None
            | Some (Some (Inl e)) \<Rightarrow> Some (Some (Inl e))
            | Some (Some (Inr (hs', evls'))) \<Rightarrow> Some (Some (Inr (hs', evl # evls')))))"

definition evh_new :: "string ptr option \<Rightarrow> string \<Rightarrow> nat \<Rightarrow> nat \<Rightarrow> event_handler" where
  "evh_new m event cb user_data =
     \<lparr>eh_next = None, eh_prev = None, eh_module = m, eh_cb = cb, eh_user_data = user_data,
      eh_flags = (if event \<in> set untraced_events then 1 else 0)\<rparr>"

definition pr_event_register ::
  "string ptr option \<Rightarrow> string option \<Rightarrow> nat option \<Rightarrow> nat \<Rightarrow> ev_state \<Rightarrow> (unit result \<times> ev_state) option" where
  "pr_event_register m event cb user_data st =
     (case (event, cb) of
        (Some ev, Some c) \<Rightarrow>
          (let evh = evh_new m ev c user_data in
           case evl_register (ev_heap st) evh ev (ev_events st) of
             None \<Rightarrow> None
           | Some (Some (Inl e)) \<Rightarrow> Some (Inl e, st)
           | Some (Some (Inr (hs, evls))) \<Rightarrow> Some (Inr (), st\<lparr>ev_heap := hs, ev_events := evls\<rparr>)
           | Some None \<Rightarrow>
               Some (Inr (), ev_clear_cache (st\<lparr>
                 ev_heap := ev_heap st @ [evh],
                 ev_events := \<lparr>el_event = ev, el_event_len = length ev,
                                el_handlers = Some (length (ev_heap st))\<rparr> # ev_events st\<rparr>)))
      | _ \<Rightarrow> Some (Inl EINVAL, st))"

section \<open>Removal\<close>

definition evh_is :: "string ptr option \<Rightarrow> nat option \<Rightarrow> event_handler \<Rightarrow> bool" where
  "evh_is m cb evh \<longleftrightarrow>
     (m = None \<or> map_option addr (eh_module evh) = map_option addr m) \<and> (cb = None \<or> Some (eh_cb evh) = cb)"

text \<open>Unlinking one handler: the store and the head of the list.\<close>

definition evh_remove :: "event_handler list \<Rightarrow> nat option \<Rightarrow> nat \<Rightarrow> event_handler list \<times> nat option" where
  "evh_remove hs handlers evh =
     (let nxt = eh_next (hs ! evh);
          hs1 = evh_set_prev_opt nxt (eh_prev (hs ! evh)) hs;
          (hs2, handlers') = (case eh_prev (hs1 ! evh) of
             Some p \<Rightarrow> (evh_set_next p (eh_next (hs1 ! evh)) hs1, handlers)
           | None \<Rightarrow> (hs1, eh_next (hs1 ! evh)))
      in (hs2[evh := (hs2 ! evh)\<lparr>eh_module := None\<rparr>], handlers'))"

partial_function (option) evh_unlink ::
  "(event_handler \<Rightarrow> bool) \<Rightarrow> event_handler list \<Rightarrow> nat option \<Rightarrow> nat option \<Rightarrow> bool
     \<Rightarrow> (event_handler list \<times> nat option \<times> bool) option" where
  "evh_unlink is hs handlers evh unregistered =
     (case evh of
        None \<Rightarrow> Some (hs, handlers, unregistered)
      | Some e \<Rightarrow>
          (if is (hs ! e)
           then (let (hs', handlers') = evh_remove hs handlers e
                 in evh_unlink is hs' handlers' (eh_next (hs ! e)) True)
           else evh_unlink is hs handlers (eh_next (hs ! e)) unregistered))"

fun evl_unregister ::
  "(event_list \<Rightarrow> bool) \<Rightarrow> (event_handler \<Rightarrow> bool) \<Rightarrow> event_handler list \<Rightarrow> bool \<Rightarrow> event_list list
     \<Rightarrow> (event_handler list \<times> event_list list \<times> bool) option" where
  "evl_unregister lis is hs unregistered [] = Some (hs, [], unregistered)"
| "evl_unregister lis is hs unregistered (evl # evls) =
     (case (if lis evl then evh_unlink is hs (el_handlers evl) (el_handlers evl) unregistered
            else Some (hs, el_handlers evl, unregistered)) of
        None \<Rightarrow> None
      | Some (hs', h, u) \<Rightarrow>
          (case evl_unregister lis is hs' u evls of
             None \<Rightarrow> None
           | Some (hs'', evls', u') \<Rightarrow> Some (hs'', evl\<lparr>el_handlers := h\<rparr> # evls', u')))"

definition pr_event_unregister ::
  "string ptr option \<Rightarrow> string option \<Rightarrow> nat option \<Rightarrow> ev_state \<Rightarrow> (unit result \<times> ev_state) option" where
  "pr_event_unregister m event cb st =
     (if ev_events st = [] then Some (Inr (), st)
      else (case evl_unregister (\<lambda>evl. case event of None \<Rightarrow> True | Some ev \<Rightarrow> evl_is evl ev) (evh_is m cb)
                   (ev_heap st) False (ev_events st) of
              None \<Rightarrow> None
            | Some (hs, evls, unregistered) \<Rightarrow>
                Some (if unregistered then Inr () else Inl ENOENT,
                      ev_clear_cache (st\<lparr>ev_heap := hs, ev_events := evls\<rparr>))))"

section \<open>Inspection\<close>

partial_function (option) evh_count :: "event_handler list \<Rightarrow> nat option \<Rightarrow> nat \<Rightarrow> nat option" where
  "evh_count hs evh count =
     (case evh of None \<Rightarrow> Some count | Some e \<Rightarrow> evh_count hs (eh_next (hs ! e)) (count + 1))"

definition pr_event_listening :: "string option \<Rightarrow> ev_state \<Rightarrow> nat result option" where
  "pr_event_listening event st =
     (case event of
        None \<Rightarrow> Some (Inl EINVAL)
      | Some ev \<Rightarrow>
          (case dropWhile (\<lambda>evl. \<not> evl_is evl ev) (ev_events st) of
             [] \<Rightarrow> Some (Inr 0)
           | evl # _ \<Rightarrow> map_option Inr (evh_count (ev_heap st) (el_handlers evl) 0)))"

partial_function (option) evh_dump :: "event_handler list \<Rightarrow> nat option \<Rightarrow> string list \<Rightarrow> string list option" where
  "evh_dump hs evh out =
     (case evh of
        None \<Rightarrow> Some out
      | Some e \<Rightarrow>
          evh_dump hs (eh_next (hs ! e))
            (out @ [case eh_module (hs ! e) of
                      Some m \<Rightarrow> ''  mod_'' @ pointee m @ ''.c''
                    | None \<Rightarrow> ''  (core)'']))"

fun evl_dump :: "event_handler list \<Rightarrow> event_list list \<Rightarrow> string list option" where
  "evl_dump hs [] = Some []"
| "evl_dump hs (evl # evls) =
     (let q = CHR 0x27 in
      case (if el_handlers evl = None then Some [''No handlers registered for '' @ [q] @ el_event evl @ [q]]
            else evh_dump hs (el_handlers evl) [''Registered for '' @ [q] @ el_event evl @ [q] @ '':'']) of
        None \<Rightarrow> None
      | Some ls \<Rightarrow> map_option (append ls) (evl_dump hs evls))"

text \<open>\<open>pr_event_dump\<close> with a printing function: the lines printed.\<close>

definition pr_event_dump :: "ev_state \<Rightarrow> string list option" where
  "pr_event_dump st =
     (if ev_events st = [] then Some [''No events registered''] else evl_dump (ev_heap st) (ev_events st))"

section \<open>Generation\<close>

text \<open>A callback is code of a module; for the event system it is the sequence of calls it makes, a parameter
  \<open>acts\<close>. Since these calls may generate events again, the control state is a stack of tasks: the calls still to
  be made, the dispatch loops they interrupt, and the end of each \<open>pr_event_generate\<close>.\<close>

datatype ev_call =
    Register "string ptr option" "string option" "nat option" nat
  | Unregister "string ptr option" "string option" "nat option"
  | Generate "string option"

datatype ev_task =
    Call ev_call
  | Dispatch "nat option"
  | Advance nat
  | EndGenerate

text \<open>The beginning of \<open>pr_event_generate\<close>: the tasks it leads to. \<open>Dispatch evh\<close> is the loop over the handlers
  with \<open>evh\<close> as the loop variable, \<open>Advance e\<close> its \<open>evh = evh->next\<close> after the callback, and \<open>EndGenerate\<close> the
  clearing of the cache.\<close>

definition pr_event_generate :: "string option \<Rightarrow> ev_state \<Rightarrow> ev_task list \<times> ev_state" where
  "pr_event_generate event st =
     (case event of
        None \<Rightarrow> ([], st)
      | Some ev \<Rightarrow>
          (if ev_events st = [] then ([], st)
           else
             (let use_cache = (ev_curr_event st = Some ev);
                  evls = (if use_cache then drop (length (ev_events st) - ev_curr_evl st) (ev_events st)
                          else ev_events st)
              in case dropWhile (\<lambda>evl. \<not> evl_is evl ev) evls of
                   [] \<Rightarrow> ([EndGenerate], st)
                 | evl # rest \<Rightarrow>
                     (if el_handlers evl = None then ([], st)
                      else ([Dispatch (if use_cache then ev_curr_evh st else el_handlers evl), EndGenerate],
                            st\<lparr>ev_curr_event := Some ev, ev_curr_evl := Suc (length rest)\<rparr>)))))"

text \<open>One step: the tasks that replace the first one, the new state, and the callback that is called, if any.\<close>

fun ev_step ::
  "(nat \<Rightarrow> ev_call list) \<Rightarrow> ev_task \<Rightarrow> ev_state \<Rightarrow> (ev_task list \<times> ev_state \<times> nat list) option" where
  "ev_step acts (Call (Register m event cb data)) st =
     (case pr_event_register m event cb data st of None \<Rightarrow> None | Some (_, st') \<Rightarrow> Some ([], st', []))"
| "ev_step acts (Call (Unregister m event cb)) st =
     (case pr_event_unregister m event cb st of None \<Rightarrow> None | Some (_, st') \<Rightarrow> Some ([], st', []))"
| "ev_step acts (Call (Generate event)) st = (let (ts, st') = pr_event_generate event st in Some (ts, st', []))"
| "ev_step acts (Dispatch None) st = Some ([], st, [])"
| "ev_step acts (Dispatch (Some e)) st =
     Some (map Call (acts (eh_cb (ev_heap st ! e))) @ [Advance e],
           st\<lparr>ev_curr_evh := eh_next (ev_heap st ! e)\<rparr>, [eh_cb (ev_heap st ! e)])"
| "ev_step acts (Advance e) st = Some ([Dispatch (eh_next (ev_heap st ! e))], st, [])"
| "ev_step acts EndGenerate st = Some ([], ev_clear_cache st, [])"

text \<open>Running the stack to its end: the state and the callbacks called in order. Without enough fuel, or when a
  call does not return, the result is \<open>None\<close>.\<close>

fun ev_run :: "(nat \<Rightarrow> ev_call list) \<Rightarrow> nat \<Rightarrow> ev_task list \<Rightarrow> ev_state \<Rightarrow> (ev_state \<times> nat list) option" where
  "ev_run acts n [] st = Some (st, [])"
| "ev_run acts 0 (t # ts) st = None"
| "ev_run acts (Suc n) (t # ts) st =
     (case ev_step acts t st of
        None \<Rightarrow> None
      | Some (ts', st', cbs) \<Rightarrow>
          (case ev_run acts n (ts' @ ts) st' of
             None \<Rightarrow> None
           | Some (st'', cbs') \<Rightarrow> Some (st'', cbs @ cbs')))"

declare ev_run.simps(3) [simp del]

section \<open>The invariant\<close>

text \<open>The order that the pointers keep: \<open>a\<close> comes before \<open>b\<close> when \<open>b\<close> is the successor of \<open>a\<close> or \<open>a\<close> the
  recorded predecessor of \<open>b\<close>. The two need not agree; what holds is that no cycle arises.\<close>

definition ev_rel :: "event_handler list \<Rightarrow> (nat \<times> nat) set" where
  "ev_rel hs = {(a, b). a < length hs \<and> b < length hs \<and> (eh_next (hs ! a) = Some b \<or> eh_prev (hs ! b) = Some a)}"

text \<open>\<open>own\<close> gives the event for which a handler was registered.\<close>

definition ev_heap_ok :: "(nat \<Rightarrow> string) \<Rightarrow> event_handler list \<Rightarrow> bool" where
  "ev_heap_ok own hs \<longleftrightarrow>
     (\<forall>a < length hs. \<forall>b. eh_next (hs ! a) = Some b \<or> eh_prev (hs ! a) = Some b
        \<longrightarrow> b < length hs \<and> own b = own a) \<and> acyclic (ev_rel hs)"

definition evl_ok :: "(nat \<Rightarrow> string) \<Rightarrow> event_handler list \<Rightarrow> event_list \<Rightarrow> bool" where
  "evl_ok own hs evl \<longleftrightarrow>
     el_event_len evl = length (el_event evl) \<and>
     (\<forall>h. el_handlers evl = Some h \<longrightarrow> h < length hs \<and> own h = el_event evl \<and> eh_prev (hs ! h) = None)"

definition ev_ok :: "(nat \<Rightarrow> string) \<Rightarrow> ev_state \<Rightarrow> bool" where
  "ev_ok own st \<longleftrightarrow>
     ev_heap_ok own (ev_heap st) \<and> distinct (map el_event (ev_events st)) \<and>
     (\<forall>evl \<in> set (ev_events st). evl_ok own (ev_heap st) evl) \<and>
     (\<forall>e. ev_curr_evh st = Some e \<longrightarrow> e < length (ev_heap st))"

definition ev_inv :: "ev_state \<Rightarrow> bool" where
  "ev_inv st \<longleftrightarrow> (\<exists>own. ev_ok own st)"

text \<open>The handlers that the \<open>next\<close> pointers lead to.\<close>

inductive evh_path :: "event_handler list \<Rightarrow> nat option \<Rightarrow> nat list \<Rightarrow> bool" where
  Nil: "evh_path hs None []"
| Cons: "a < length hs \<Longrightarrow> evh_path hs (eh_next (hs ! a)) as \<Longrightarrow> evh_path hs (Some a) (a # as)"

inductive_cases evh_path_SomeE: "evh_path hs (Some a) as"
inductive_cases evh_path_NoneE: "evh_path hs None as"

inductive_simps evh_path_simps [simp]:
  "evh_path hs None as"
  "evh_path hs (Some a) as"
  "evh_path hs p []"

inductive_simps evh_path_Cons: "evh_path hs p (a # as)"

fun evh_walk :: "nat \<Rightarrow> event_handler list \<Rightarrow> nat option \<Rightarrow> nat list" where
  "evh_walk 0 hs p = []"
| "evh_walk (Suc n) hs None = []"
| "evh_walk (Suc n) hs (Some a) = a # evh_walk n hs (eh_next (hs ! a))"

text \<open>What the event system promises is a list of listeners for each event, in the order of their calls.\<close>

definition evl_listeners :: "event_handler list \<Rightarrow> nat option \<Rightarrow> (string ptr option \<times> nat) list" where
  "evl_listeners hs p = map (\<lambda>a. (eh_module (hs ! a), eh_cb (hs ! a))) (evh_walk (length hs) hs p)"

fun evls_listeners :: "event_handler list \<Rightarrow> event_list list \<Rightarrow> string \<Rightarrow> (string ptr option \<times> nat) list" where
  "evls_listeners hs [] event = []"
| "evls_listeners hs (evl # evls) event =
     (if el_event evl = event then evl_listeners hs (el_handlers evl) else evls_listeners hs evls event)"

definition ev_listeners :: "ev_state \<Rightarrow> string \<Rightarrow> (string ptr option \<times> nat) list" where
  "ev_listeners st event = evls_listeners (ev_heap st) (ev_events st) event"

section \<open>Paths\<close>

lemma finite_ev_rel: "finite (ev_rel hs)"
  by (rule finite_subset [of _ "{..< length hs} \<times> {..< length hs}"]) (auto simp: ev_rel_def)

lemma ev_rel_next:
  "ev_heap_ok own hs \<Longrightarrow> a < length hs \<Longrightarrow> eh_next (hs ! a) = Some b \<Longrightarrow> (a, b) \<in> ev_rel hs"
  unfolding ev_rel_def ev_heap_ok_def by blast

lemma ev_rel_prev:
  "ev_heap_ok own hs \<Longrightarrow> b < length hs \<Longrightarrow> eh_prev (hs ! b) = Some a \<Longrightarrow> (a, b) \<in> ev_rel hs"
  unfolding ev_rel_def ev_heap_ok_def by blast

lemma ev_heap_okD:
  "ev_heap_ok own hs \<Longrightarrow> a < length hs \<Longrightarrow> eh_next (hs ! a) = Some b \<Longrightarrow> b < length hs \<and> own b = own a"
  "ev_heap_ok own hs \<Longrightarrow> a < length hs \<Longrightarrow> eh_prev (hs ! a) = Some b \<Longrightarrow> b < length hs \<and> own b = own a"
  unfolding ev_heap_ok_def by blast+

lemma evh_path_exists:
  assumes ok: "ev_heap_ok own hs" and "a < length hs"
  shows "\<exists>as. evh_path hs (Some a) as"
proof -
  have "wf ((ev_rel hs)\<inverse>)"
    using ok finite_ev_rel by (auto intro: finite_acyclic_wf_converse simp: ev_heap_ok_def)
  then show ?thesis using \<open>a < length hs\<close>
  proof (induction a rule: wf_induct_rule)
    case (less a)
    show ?case
    proof (cases "eh_next (hs ! a)")
      case (Some b)
      then have "(b, a) \<in> (ev_rel hs)\<inverse>" "b < length hs"
        using ev_rel_next [OF ok less.prems] ev_heap_okD(1) [OF ok less.prems] by auto
      from less.IH [OF this] Some less.prems show ?thesis by auto
    qed (use less.prems in auto)
  qed
qed

lemma evh_path_exists_opt:
  "ev_heap_ok own hs \<Longrightarrow> (\<And>a. p = Some a \<Longrightarrow> a < length hs) \<Longrightarrow> \<exists>as. evh_path hs p as"
  using evh_path_exists by (cases p) auto

lemma evh_path_after:
  "evh_path hs p as \<Longrightarrow> ev_heap_ok own hs \<Longrightarrow> e < length hs \<Longrightarrow> eh_next (hs ! e) = p \<Longrightarrow> t \<in> set as
     \<Longrightarrow> (e, t) \<in> (ev_rel hs)\<^sup>+"
proof (induction arbitrary: e rule: evh_path.induct)
  case (Cons a hs as)
  have e: "(e, a) \<in> ev_rel hs" using Cons.prems ev_rel_next by blast
  show ?case
  proof (cases "t = a")
    case True
    then show ?thesis using e by blast
  next
    case False
    then have "(a, t) \<in> (ev_rel hs)\<^sup>+" using Cons by auto
    then show ?thesis by (rule trancl_into_trancl2 [OF e])
  qed
qed simp

lemma evh_path_bounded: "evh_path hs p as \<Longrightarrow> t \<in> set as \<Longrightarrow> t < length hs"
  by (induction rule: evh_path.induct) auto

lemma evh_path_distinct: "evh_path hs p as \<Longrightarrow> ev_heap_ok own hs \<Longrightarrow> distinct as"
proof (induction rule: evh_path.induct)
  case (Cons a hs as)
  have "a \<notin> set as" using evh_path_after [OF Cons.hyps(2) Cons.prems Cons.hyps(1) refl, of a] Cons.prems
    by (auto simp: ev_heap_ok_def acyclic_def)
  then show ?case using Cons by simp
qed simp

lemma evh_path_own:
  "evh_path hs p as \<Longrightarrow> ev_heap_ok own hs \<Longrightarrow> (\<And>a. p = Some a \<Longrightarrow> own a = ev) \<Longrightarrow> t \<in> set as \<Longrightarrow> own t = ev"
proof (induction rule: evh_path.induct)
  case (Cons a hs as)
  have "own b = ev" if "eh_next (hs ! a) = Some b" for b
    using ev_heap_okD(1) [OF Cons.prems(1) Cons.hyps(1) that] Cons.prems(2) by simp
  then show ?case using Cons by auto
qed simp

lemma evh_path_cong:
  "evh_path hs p as \<Longrightarrow> length hs \<le> length hs' \<Longrightarrow> (\<And>t. t \<in> set as \<Longrightarrow> eh_next (hs' ! t) = eh_next (hs ! t))
     \<Longrightarrow> evh_path hs' p as"
  by (induction rule: evh_path.induct) auto

lemma evh_path_snoc:
  "evh_path hs p as \<Longrightarrow> as \<noteq> [] \<Longrightarrow> distinct as \<Longrightarrow> length hs < length hs'
     \<Longrightarrow> (\<And>t. t \<in> set as \<Longrightarrow> t \<noteq> last as \<Longrightarrow> eh_next (hs' ! t) = eh_next (hs ! t))
     \<Longrightarrow> eh_next (hs' ! last as) = Some n \<Longrightarrow> n < length hs' \<Longrightarrow> eh_next (hs' ! n) = None
     \<Longrightarrow> evh_path hs' p (as @ [n])"
proof (induction rule: evh_path.induct)
  case (Cons a hs as)
  show ?case
  proof (cases "as = []")
    case False
    then have "last as \<noteq> a" using Cons.prems(2) by (auto dest: last_in_set)
    with False Cons show ?thesis by (auto split: if_splits)
  qed (use Cons in auto)
qed simp

lemma evh_walk_path: "evh_path hs p as \<Longrightarrow> length as \<le> n \<Longrightarrow> evh_walk n hs p = as"
proof (induction arbitrary: n rule: evh_path.induct)
  case (Nil hs)
  then show ?case by (cases n) auto
next
  case (Cons a hs as)
  then show ?case by (cases n) auto
qed

lemma evh_path_length:
  assumes "evh_path hs p as" "ev_heap_ok own hs"
  shows "length as \<le> length hs"
proof -
  have "card (set as) \<le> card {..< length hs}"
    by (rule card_mono) (use evh_path_bounded [OF assms(1)] in auto)
  then show ?thesis using evh_path_distinct [OF assms] by (simp add: distinct_card)
qed

lemma evl_listeners_path:
  "evh_path hs p as \<Longrightarrow> ev_heap_ok own hs
     \<Longrightarrow> evl_listeners hs p = map (\<lambda>a. (eh_module (hs ! a), eh_cb (hs ! a))) as"
  unfolding evl_listeners_def using evh_walk_path evh_path_length by fastforce

lemma evh_scan_path:
  "evh_path hs p as \<Longrightarrow> p = Some h \<Longrightarrow>
     evh_scan hs cb h = Some (if cb \<in> (\<lambda>a. eh_cb (hs ! a)) ` set as then None else Some (last as))"
proof (induction arbitrary: h rule: evh_path.induct)
  case (Cons a hs as)
  then show ?case
    by (subst evh_scan.simps) (cases "eh_next (hs ! a)"; auto)
qed simp

lemma evh_count_path: "evh_path hs p as \<Longrightarrow> evh_count hs p n = Some (n + length as)"
  by (induction arbitrary: n rule: evh_path.induct) (subst evh_count.simps; simp)+

lemma evh_dump_path: "evh_path hs p as \<Longrightarrow> \<exists>ls. evh_dump hs p out = Some ls \<and> length ls = length out + length as"
  by (induction arbitrary: out rule: evh_path.induct) (subst evh_dump.simps; force)+
section \<open>Registration keeps the invariant\<close>

lemma acyclic_source:
  assumes "acyclic R" and "R \<subseteq> {..< n} \<times> {..< n}"
  shows "acyclic (R \<union> {n :: nat} \<times> {..< n})"
proof (rule acyclicI, rule allI, rule notI)
  let ?R = "R \<union> {n} \<times> {..< n}"
  fix x assume "(x, x) \<in> ?R\<^sup>+"
  moreover have "x < n \<and> y < n \<longrightarrow> (x, y) \<in> R\<^sup>+" and "y < n" if "(x, y) \<in> ?R\<^sup>+" for x y
    using that by (induction rule: trancl_induct) (use assms(2) in \<open>auto intro: trancl.intros\<close>)
  ultimately have "(x, x) \<in> R\<^sup>+" by blast
  then show False using assms(1) by (auto simp: acyclic_def)
qed

lemma acyclic_sink:
  assumes "acyclic R" and "R \<subseteq> {..< n} \<times> {..< n}"
  shows "acyclic (R \<union> {..< n} \<times> {n :: nat})"
proof -
  have "acyclic (R\<inverse> \<union> {n} \<times> {..< n})" by (rule acyclic_source) (use assms in auto)
  then have "acyclic ((R\<inverse> \<union> {n} \<times> {..< n})\<inverse>)" by (simp only: acyclic_converse)
  then show ?thesis by (simp add: converse_Un converse_Times)
qed

lemma ev_rel_subset: "ev_rel hs \<subseteq> {..< length hs} \<times> {..< length hs}"
  by (auto simp: ev_rel_def)

lemma evh_set_length [simp]:
  "length (evh_set_next a v hs) = length hs" "length (evh_set_prev a v hs) = length hs"
  "length (evh_set_prev_opt p v hs) = length hs"
  by (cases p; simp add: evh_set_next_def evh_set_prev_def)+

lemma evh_set_next_nth:
  "b < length hs \<Longrightarrow> evh_set_next a v hs ! b = (if b = a then (hs ! b)\<lparr>eh_next := v\<rparr> else hs ! b)"
  by (simp add: evh_set_next_def)

lemma evh_set_prev_opt_nth:
  "b < length hs \<Longrightarrow> evh_set_prev_opt p v hs ! b = (if p = Some b then (hs ! b)\<lparr>eh_prev := v\<rparr> else hs ! b)"
  by (cases p) (auto simp: evh_set_prev_def)

lemma evh_set_prev_nth:
  "b < length hs \<Longrightarrow> evh_set_prev a v hs ! b = (if b = a then (hs ! b)\<lparr>eh_prev := v\<rparr> else hs ! b)"
  by (simp add: evh_set_prev_def)

lemmas evh_nth = evh_set_prev_nth evh_set_next_nth evh_set_prev_opt_nth nth_append

text \<open>A store that has grown by one handler, whose links all come from it or all lead to it.\<close>

lemma ev_heap_ok_grow:
  assumes ok: "ev_heap_ok own hs" and len: "length hs' = Suc (length hs)"
    and ptr: "\<And>a b. a < length hs' \<Longrightarrow> eh_next (hs' ! a) = Some b \<or> eh_prev (hs' ! a) = Some b
                \<Longrightarrow> b < length hs' \<and> own' b = own' a"
    and rel: "ev_rel hs' \<subseteq> ev_rel hs \<union> {length hs} \<times> {..< length hs}
              \<or> ev_rel hs' \<subseteq> ev_rel hs \<union> {..< length hs} \<times> {length hs}"
  shows "ev_heap_ok own' hs'"
proof -
  have "acyclic (ev_rel hs)" using ok by (simp add: ev_heap_ok_def)
  from acyclic_source [OF this ev_rel_subset] acyclic_sink [OF this ev_rel_subset] rel
  have "acyclic (ev_rel hs')" by (blast intro: acyclic_subset)
  with ptr show ?thesis unfolding ev_heap_ok_def by blast
qed

lemma ev_heap_ok_first:
  assumes ok: "ev_heap_ok own hs" and evh: "eh_next evh = None" "eh_prev evh = None"
  shows "ev_heap_ok (own(length hs := ev)) (hs @ [evh])"
proof (rule ev_heap_ok_grow [OF ok])
  fix a b assume a: "a < length (hs @ [evh])"
    and "eh_next ((hs @ [evh]) ! a) = Some b \<or> eh_prev ((hs @ [evh]) ! a) = Some b"
  then have "a < length hs" "eh_next (hs ! a) = Some b \<or> eh_prev (hs ! a) = Some b"
    using evh by (auto simp: nth_append split: if_splits)
  with ev_heap_okD [OF ok this(1)]
  show "b < length (hs @ [evh]) \<and> (own(length hs := ev)) b = (own(length hs := ev)) a" by auto
next
  show "ev_rel (hs @ [evh]) \<subseteq> ev_rel hs \<union> {length hs} \<times> {..<length hs} \<or>
        ev_rel (hs @ [evh]) \<subseteq> ev_rel hs \<union> {..<length hs} \<times> {length hs}"
    using evh by (intro disjI1) (auto simp: ev_rel_def nth_append less_Suc_eq dest: ev_heap_okD [OF ok])
qed simp

lemma ev_heap_ok_head:
  assumes ok: "ev_heap_ok own hs" and h: "h < length hs" "own h = ev"
    and evh: "eh_prev evh = None"
  shows "ev_heap_ok (own(length hs := ev))
           (evh_set_prev_opt (eh_next (hs ! h)) (Some (length hs)) hs @ [evh\<lparr>eh_next := Some h\<rparr>])"
    (is "ev_heap_ok _ ?hs'")
proof (rule ev_heap_ok_grow [OF ok])
  fix a b assume a: "a < length ?hs'" and p: "eh_next (?hs' ! a) = Some b \<or> eh_prev (?hs' ! a) = Some b"
  show "b < length ?hs' \<and> (own(length hs := ev)) b = (own(length hs := ev)) a"
  proof (cases "a < length hs")
    case True
    then consider "eh_next (hs ! a) = Some b \<or> eh_prev (hs ! a) = Some b"
      | "eh_next (hs ! h) = Some a" "b = length hs"
      using p by (auto simp: evh_nth split: if_splits)
    then show ?thesis
    proof cases
      case 1
      then have "b < length hs" "own b = own a" using ev_heap_okD [OF ok True] by blast+
      then show ?thesis using True by simp
    next
      case 2
      then have "own a = ev" using ev_heap_okD(1) [OF ok h(1)] h(2) by blast
      then show ?thesis using 2 True by simp
    qed
  next
    case False
    then have "a = length hs" "b = h" using a p evh by (auto simp: evh_nth split: if_splits)
    then show ?thesis using h by auto
  qed
next
  show "ev_rel ?hs' \<subseteq> ev_rel hs \<union> {length hs} \<times> {..<length hs} \<or>
        ev_rel ?hs' \<subseteq> ev_rel hs \<union> {..<length hs} \<times> {length hs}"
  proof (intro disjI1 subrelI)
    fix a b assume "(a, b) \<in> ev_rel ?hs'"
    then have ab: "a \<le> length hs" "b \<le> length hs" "eh_next (?hs' ! a) = Some b \<or> eh_prev (?hs' ! b) = Some a"
      by (auto simp: ev_rel_def less_Suc_eq_le)
    show "(a, b) \<in> ev_rel hs \<union> {length hs} \<times> {..<length hs}"
    proof (cases "a < length hs")
      case True
      then have "eh_next (hs ! a) = Some b \<or> (b < length hs \<and> eh_prev (hs ! b) = Some a)"
        using ab evh by (auto simp: evh_nth split: if_splits)
      then show ?thesis using ev_rel_next [OF ok True] ev_rel_prev [OF ok] by blast
    next
      case False
      then have "a = length hs" "b < length hs" using ab evh h by (auto simp: evh_nth split: if_splits)
      then show ?thesis by simp
    qed
  qed
qed simp

lemma ev_heap_ok_tail:
  assumes ok: "ev_heap_ok own hs" and l: "l < length hs" "own l = ev"
    and evh: "eh_next evh = None"
  shows "ev_heap_ok (own(length hs := ev)) (evh_set_next l (Some (length hs)) hs @ [evh\<lparr>eh_prev := Some l\<rparr>])"
    (is "ev_heap_ok _ ?hs'")
proof (rule ev_heap_ok_grow [OF ok])
  fix a b assume a: "a < length ?hs'" and p: "eh_next (?hs' ! a) = Some b \<or> eh_prev (?hs' ! a) = Some b"
  show "b < length ?hs' \<and> (own(length hs := ev)) b = (own(length hs := ev)) a"
  proof (cases "a < length hs")
    case True
    then consider "eh_next (hs ! a) = Some b \<or> eh_prev (hs ! a) = Some b" | "a = l" "b = length hs"
      using p by (auto simp: evh_nth split: if_splits)
    then show ?thesis
    proof cases
      case 1
      then have "b < length hs" "own b = own a" using ev_heap_okD [OF ok True] by blast+
      then show ?thesis using True by simp
    next
      case 2
      then show ?thesis using True l by simp
    qed
  next
    case False
    then have "a = length hs" "b = l" using a p evh by (auto simp: evh_nth split: if_splits)
    then show ?thesis using l by auto
  qed
next
  show "ev_rel ?hs' \<subseteq> ev_rel hs \<union> {length hs} \<times> {..<length hs} \<or>
        ev_rel ?hs' \<subseteq> ev_rel hs \<union> {..<length hs} \<times> {length hs}"
  proof (intro disjI2 subrelI)
    fix a b assume "(a, b) \<in> ev_rel ?hs'"
    then have ab: "a \<le> length hs" "b \<le> length hs" "eh_next (?hs' ! a) = Some b \<or> eh_prev (?hs' ! b) = Some a"
      by (auto simp: ev_rel_def less_Suc_eq_le)
    show "(a, b) \<in> ev_rel hs \<union> {..<length hs} \<times> {length hs}"
    proof (cases "b < length hs")
      case True
      then have "(a < length hs \<and> eh_next (hs ! a) = Some b) \<or> eh_prev (hs ! b) = Some a"
        using ab evh by (auto simp: evh_nth split: if_splits)
      then show ?thesis using ev_rel_next [OF ok] ev_rel_prev [OF ok True] by blast
    next
      case False
      then have "b = length hs" "a < length hs" using ab evh l by (auto simp: evh_nth split: if_splits)
      then show ?thesis by simp
    qed
  qed
qed simp

text \<open>A call on one event leaves the handlers of the others alone.\<close>

definition ev_frame :: "string set \<Rightarrow> (nat \<Rightarrow> string) \<Rightarrow> event_handler list \<Rightarrow> (nat \<Rightarrow> string) \<Rightarrow> event_handler list \<Rightarrow> bool" where
  "ev_frame E own hs own' hs' \<longleftrightarrow>
     length hs \<le> length hs' \<and> (\<forall>a < length hs. own' a = own a \<and> (own a \<notin> E \<longrightarrow> hs' ! a = hs ! a))"

lemma evl_ok_path:
  assumes "ev_heap_ok own hs" "evl_ok own hs evl"
  obtains as where "evh_path hs (el_handlers evl) as" "\<forall>t \<in> set as. own t = el_event evl" "distinct as"
    "\<forall>t \<in> set as. t < length hs"
proof -
  from assms obtain as where p: "evh_path hs (el_handlers evl) as"
    using evh_path_exists_opt unfolding evl_ok_def by blast
  moreover have "\<forall>t \<in> set as. own t = el_event evl"
    using evh_path_own [OF p assms(1)] assms(2) unfolding evl_ok_def by blast
  ultimately show ?thesis using that evh_path_distinct [OF p assms(1)] evh_path_bounded [OF p] by blast
qed

lemma evl_frame:
  assumes ok: "ev_heap_ok own hs" "evl_ok own hs evl" "ev_heap_ok own' hs'" and fr: "ev_frame E own hs own' hs'"
    and ne: "el_event evl \<notin> E"
  shows "evl_ok own' hs' evl" "evl_listeners hs' (el_handlers evl) = evl_listeners hs (el_handlers evl)"
proof -
  obtain as where p: "evh_path hs (el_handlers evl) as" and own: "\<forall>t \<in> set as. own t = el_event evl"
    and len: "\<forall>t \<in> set as. t < length hs"
    using evl_ok_path [OF ok(1,2)] .
  have same: "hs' ! t = hs ! t" if "t \<in> set as" for t
    using fr own len that ne unfolding ev_frame_def by metis
  have p': "evh_path hs' (el_handlers evl) as"
    by (rule evh_path_cong [OF p]) (use fr same in \<open>auto simp: ev_frame_def\<close>)
  show "evl_listeners hs' (el_handlers evl) = evl_listeners hs (el_handlers evl)"
    using evl_listeners_path [OF p ok(1)] evl_listeners_path [OF p' ok(3)] same by simp
  show "evl_ok own' hs' evl"
    unfolding evl_ok_def
  proof (intro conjI allI impI)
    fix h assume h: "el_handlers evl = Some h"
    with ok(2) have "h < length hs" "own h = el_event evl" "eh_prev (hs ! h) = None" by (auto simp: evl_ok_def)
    with fr ne show "h < length hs'" "own' h = el_event evl" "eh_prev (hs' ! h) = None"
      unfolding ev_frame_def by (auto simp: Ball_def)
  qed (use ok(2) in \<open>simp add: evl_ok_def\<close>)
qed

lemma evl_add_dup:
  assumes "ev_heap_ok own hs" "evl_ok own hs evl"
    and "eh_cb evh \<in> snd ` set (evl_listeners hs (el_handlers evl))"
  shows "evl_add hs (el_handlers evl) evh = Some (Inl EEXIST)"
proof -
  obtain as where p: "evh_path hs (el_handlers evl) as" using evl_ok_path [OF assms(1,2)] .
  have d: "eh_cb evh \<in> (\<lambda>a. eh_cb (hs ! a)) ` set as"
    using assms(3) evl_listeners_path [OF p assms(1)] by auto
  then obtain h where h: "el_handlers evl = Some h" using p by (cases "el_handlers evl") auto
  show ?thesis using evh_scan_path [OF p h] d h by (simp add: evl_add_def Let_def)
qed

lemma evl_add_head:
  assumes ok: "ev_heap_ok own hs" "evl_ok own hs evl" and evh: "eh_prev evh = None" "eh_module evh \<noteq> None"
    and h: "el_handlers evl = Some h" and own': "own' = own(length hs := el_event evl)"
    and hs': "hs' = evh_set_prev_opt (eh_next (hs ! h)) (Some (length hs)) hs @ [evh\<lparr>eh_next := Some h\<rparr>]"
  shows "ev_heap_ok own' hs' \<and> evl_ok own' hs' (evl\<lparr>el_handlers := Some (length hs)\<rparr>) \<and>
         ev_frame {el_event evl} own hs own' hs' \<and>
         evl_listeners hs' (Some (length hs)) = (eh_module evh, eh_cb evh) # evl_listeners hs (el_handlers evl)"
proof -
  obtain as where p: "evh_path hs (el_handlers evl) as" and b: "\<forall>t \<in> set as. t < length hs"
    using evl_ok_path [OF ok] .
  have o: "h < length hs" "own h = el_event evl" using ok(2) h by (auto simp: evl_ok_def)
  have okn: "ev_heap_ok own' hs'" unfolding own' hs' by (rule ev_heap_ok_head [OF ok(1) o evh(1)])
  have "evh_path hs' (Some h) as"
    by (rule evh_path_cong [OF p [unfolded h]]) (use b in \<open>auto simp: hs' evh_nth\<close>)
  then have "evh_path hs' (Some (length hs)) (length hs # as)" by (simp add: hs' nth_append)
  note l = evl_listeners_path [OF this okn]
  have "ev_frame {el_event evl} own hs own' hs'"
    using o ev_heap_okD(1) [OF ok(1) o(1)] by (auto simp: ev_frame_def own' hs' evh_nth)
  moreover have "evl_ok own' hs' (evl\<lparr>el_handlers := Some (length hs)\<rparr>)"
    using ok(2) evh by (simp add: evl_ok_def own' hs' nth_append)
  moreover have "evl_listeners hs' (Some (length hs)) = (eh_module evh, eh_cb evh) # evl_listeners hs (el_handlers evl)"
    unfolding l evl_listeners_path [OF p ok(1)] using b by (auto simp: hs' nth_append evh_set_prev_opt_nth)
  ultimately show ?thesis using okn by simp
qed

lemma evl_add_tail:
  assumes ok: "ev_heap_ok own hs" "evl_ok own hs evl" and evh: "eh_next evh = None"
    and h: "el_handlers evl = Some h" and own': "own' = own(length hs := el_event evl)"
    and p: "evh_path hs (el_handlers evl) as"
    and hs': "hs' = evh_set_next (last as) (Some (length hs)) hs @ [evh\<lparr>eh_prev := Some (last as)\<rparr>]"
  shows "ev_heap_ok own' hs' \<and> evl_ok own' hs' (evl\<lparr>el_handlers := Some h\<rparr>) \<and> ev_frame {el_event evl} own hs own' hs' \<and>
         evl_listeners hs' (el_handlers evl) = evl_listeners hs (el_handlers evl) @ [(eh_module evh, eh_cb evh)]"
proof -
  have as: "as \<noteq> []" using p h by auto
  have b: "\<forall>t \<in> set as. t < length hs" using evh_path_bounded [OF p] by blast
  have o: "last as < length hs" "own (last as) = el_event evl"
    using b as evh_path_own [OF p ok(1), of "el_event evl"] ok(2) by (auto simp: evl_ok_def)
  have okn: "ev_heap_ok own' hs'" unfolding own' hs' by (rule ev_heap_ok_tail [OF ok(1) o evh])
  have "evh_path hs' (el_handlers evl) (as @ [length hs])"
    by (rule evh_path_snoc [OF p as evh_path_distinct [OF p ok(1)]]) (use b evh o in \<open>auto simp: hs' evh_nth\<close>)
  note l = evl_listeners_path [OF this okn]
  have "ev_frame {el_event evl} own hs own' hs'"
    using o by (auto simp: ev_frame_def own' hs' evh_nth)
  moreover have "evl_ok own' hs' (evl\<lparr>el_handlers := Some h\<rparr>)"
    using ok(2) h by (auto simp: evl_ok_def own' hs' evh_nth)
  moreover have "evl_listeners hs' (el_handlers evl) = evl_listeners hs (el_handlers evl) @ [(eh_module evh, eh_cb evh)]"
    unfolding l evl_listeners_path [OF p ok(1)] using b by (auto simp: hs' nth_append evh_set_next_nth)
  ultimately show ?thesis using okn by simp
qed

lemma evl_add_first:
  assumes ok: "ev_heap_ok own hs" "evl_ok own hs evl" and evh: "eh_next evh = None" "eh_prev evh = None"
    and own': "own' = own(length hs := el_event evl)"
  shows "ev_heap_ok own' (hs @ [evh]) \<and> evl_ok own' (hs @ [evh]) (evl\<lparr>el_handlers := Some (length hs)\<rparr>) \<and>
         ev_frame {el_event evl} own hs own' (hs @ [evh]) \<and>
         evl_listeners (hs @ [evh]) (Some (length hs)) = [(eh_module evh, eh_cb evh)]"
proof -
  have okn: "ev_heap_ok own' (hs @ [evh])" unfolding own' by (rule ev_heap_ok_first [OF ok(1) evh])
  have "evh_path (hs @ [evh]) (Some (length hs)) [length hs]" using evh by simp
  from evl_listeners_path [OF this okn] show ?thesis
    using okn ok(2) evh by (auto simp: ev_frame_def evl_ok_def own' nth_append)
qed

lemma evl_add_new:
  assumes ok: "ev_heap_ok own hs" "evl_ok own hs evl"
    and evh: "eh_next evh = None" "eh_prev evh = None"
    and new: "eh_cb evh \<notin> snd ` set (evl_listeners hs (el_handlers evl))"
    and own': "own' = own(length hs := el_event evl)"
    and x: "x = (eh_module evh, eh_cb evh)"
  shows "\<exists>hs' h. evl_add hs (el_handlers evl) evh = Some (Inr (hs', h)) \<and> ev_heap_ok own' hs' \<and>
           evl_ok own' hs' (evl\<lparr>el_handlers := h\<rparr>) \<and> ev_frame {el_event evl} own hs own' hs' \<and>
           evl_listeners hs' h = (if eh_module evh \<noteq> None then x # evl_listeners hs (el_handlers evl)
                                  else evl_listeners hs (el_handlers evl) @ [x])"
proof (cases "el_handlers evl")
  case None
  have "evl_listeners hs None = []" by (cases "length hs") (simp_all add: evl_listeners_def)
  then show ?thesis using evl_add_first [OF ok evh own'] None x by (simp add: evl_add_def)
next
  case (Some h)
  obtain as where p: "evh_path hs (el_handlers evl) as" using evl_ok_path [OF ok] .
  have "eh_cb evh \<notin> (\<lambda>a. eh_cb (hs ! a)) ` set as"
    using new evl_listeners_path [OF p ok(1)] by (simp add: image_image)
  then have s: "evh_scan hs (eh_cb evh) h = Some (Some (last as))" using evh_scan_path [OF p Some] by simp
  show ?thesis
  proof (cases "eh_module evh = None")
    case True
    from evl_add_tail [OF ok evh(1) Some own' p refl] show ?thesis
      using True s Some x by (simp add: evl_add_def Let_def)
  next
    case False
    from evl_add_head [OF ok evh(2) False Some own' refl] show ?thesis
      using False s Some x by (simp add: evl_add_def Let_def)
  qed
qed

lemma notin_imageD: "x \<notin> f ` A \<Longrightarrow> y \<in> A \<Longrightarrow> f y \<notin> {x}"
  by auto

lemma evl_is_iff: "el_event_len evl = length (el_event evl) \<Longrightarrow> evl_is evl ev \<longleftrightarrow> el_event evl = ev"
  by (auto simp: evl_is_def c_strneq_def) (metis Suc_n_not_le_n length_take min.absorb2 nat_le_linear take_all)

lemma evl_ok_is: "evl_ok own hs evl \<Longrightarrow> evl_is evl ev \<longleftrightarrow> el_event evl = ev"
  by (simp add: evl_is_iff evl_ok_def)

definition evls_ok :: "(nat \<Rightarrow> string) \<Rightarrow> event_handler list \<Rightarrow> event_list list \<Rightarrow> bool" where
  "evls_ok own hs evls \<longleftrightarrow>
     ev_heap_ok own hs \<and> distinct (map el_event evls) \<and> (\<forall>evl \<in> set evls. evl_ok own hs evl)"

lemma ev_ok_iff:
  "ev_ok own st \<longleftrightarrow> evls_ok own (ev_heap st) (ev_events st) \<and> (\<forall>e. ev_curr_evh st = Some e \<longrightarrow> e < length (ev_heap st))"
  by (auto simp: ev_ok_def evls_ok_def)

lemma evls_listeners_none: "ev \<notin> el_event ` set evls \<Longrightarrow> evls_listeners hs evls ev = []"
  by (induction evls) auto

lemma evls_listeners_split:
  "ev \<notin> el_event ` set pre \<Longrightarrow> evls_listeners hs (pre @ evls) ev = evls_listeners hs evls ev"
  by (induction pre) auto

lemma evls_listeners_frame:
  "evls_ok own hs evls \<Longrightarrow> ev_heap_ok own' hs' \<Longrightarrow> ev_frame E own hs own' hs' \<Longrightarrow> ev \<notin> E
     \<Longrightarrow> evls_listeners hs' evls ev = evls_listeners hs evls ev"
  by (induction evls) (auto simp: evls_ok_def evl_frame(2))

text \<open>Replacing the handlers of one event.\<close>

lemma evls_replace:
  assumes ok: "evls_ok own hs (pre @ evl # post)" and ok': "ev_heap_ok own' hs'" "evl_ok own' hs' (evl\<lparr>el_handlers := h\<rparr>)"
    and fr: "ev_frame {el_event evl} own hs own' hs'"
  shows "evls_ok own' hs' (pre @ evl\<lparr>el_handlers := h\<rparr> # post)"
    and "evls_listeners hs' (pre @ evl\<lparr>el_handlers := h\<rparr> # post) =
         (evls_listeners hs (pre @ evl # post))(el_event evl := evl_listeners hs' h)"
proof -
  have other: "el_event evl \<notin> el_event ` (set pre \<union> set post)" using ok by (auto simp: evls_ok_def)
  have "evl_ok own' hs' e" if e: "e \<in> set pre \<union> set post" for e
  proof (rule evl_frame(1) [OF _ _ ok'(1) fr])
    show "el_event e \<notin> {el_event evl}" by (rule notin_imageD [OF other e])
  qed (use ok e in \<open>auto simp: evls_ok_def\<close>)
  then show "evls_ok own' hs' (pre @ evl\<lparr>el_handlers := h\<rparr> # post)"
    using ok ok' by (auto simp: evls_ok_def)
  show "evls_listeners hs' (pre @ evl\<lparr>el_handlers := h\<rparr> # post) =
        (evls_listeners hs (pre @ evl # post))(el_event evl := evl_listeners hs' h)"
  proof
    fix ev
    have "evls_listeners hs' (pre @ evl # post) ev = evls_listeners hs (pre @ evl # post) ev" if "ev \<noteq> el_event evl"
      by (rule evls_listeners_frame [OF ok ok'(1) fr]) (use that in simp)
    moreover have "evls_listeners hs' (pre @ evl\<lparr>el_handlers := h\<rparr> # post) ev = evls_listeners hs' (pre @ evl # post) ev"
      if "ev \<noteq> el_event evl" using that by (induction pre) auto
    moreover have "el_event evl \<notin> el_event ` set pre" using ok by (auto simp: evls_ok_def)
    ultimately show "evls_listeners hs' (pre @ evl\<lparr>el_handlers := h\<rparr> # post) ev =
        ((evls_listeners hs (pre @ evl # post))(el_event evl := evl_listeners hs' h)) ev"
      by (auto simp: evls_listeners_split)
  qed
qed

lemma evl_register_none:
  "(\<forall>evl \<in> set evls. evl_ok own hs evl) \<Longrightarrow> ev \<notin> el_event ` set evls \<Longrightarrow> evl_register hs evh ev evls = Some None"
  by (induction evls) (auto simp: evl_ok_is)

lemma evl_register_split:
  "(\<forall>e \<in> set (pre @ evl # post). evl_ok own hs e) \<Longrightarrow> el_event evl \<notin> el_event ` set pre \<Longrightarrow>
   evl_register hs evh (el_event evl) (pre @ evl # post) =
     (case evl_add hs (el_handlers evl) evh of
        None \<Rightarrow> None
      | Some (Inl e) \<Rightarrow> Some (Some (Inl e))
      | Some (Inr (hs', h)) \<Rightarrow> Some (Some (Inr (hs', pre @ evl\<lparr>el_handlers := h\<rparr> # post))))"
  by (induction pre) (auto simp: evl_ok_is split: option.splits sum.splits)

text \<open>Registration, in terms of the listeners.\<close>

definition add_listener ::
  "string ptr option \<Rightarrow> nat \<Rightarrow> (string ptr option \<times> nat) list \<Rightarrow> (string ptr option \<times> nat) list" where
  "add_listener m cb ls = (if m \<noteq> None then (m, cb) # ls else ls @ [(m, cb)])"

lemma evh_new_simps [simp]:
  "eh_next (evh_new m ev cb d) = None" "eh_prev (evh_new m ev cb d) = None"
  "eh_module (evh_new m ev cb d) = m" "eh_cb (evh_new m ev cb d) = cb"
  by (simp_all add: evh_new_def)

lemma pr_event_register_unlisted:
  assumes ok: "ev_ok own st" and new: "ev \<notin> el_event ` set (ev_events st)"
  shows "\<exists>st' own'. pr_event_register m (Some ev) (Some cb) d st = Some (Inr (), st') \<and> ev_ok own' st' \<and>
           ev_listeners st' = (ev_listeners st)(ev := add_listener m cb (ev_listeners st ev))"
proof -
  let ?evh = "evh_new m ev cb d" let ?hs = "ev_heap st" let ?own = "own(length ?hs := ev)"
  let ?unl = "\<lparr>el_event = ev, el_event_len = length ev, el_handlers = None\<rparr>"
  let ?evl = "\<lparr>el_event = ev, el_event_len = length ev, el_handlers = Some (length ?hs)\<rparr>"
  have ok0: "ev_heap_ok own ?hs" "evl_ok own ?hs ?unl" "evls_ok own ?hs ([] @ ?unl # ev_events st)"
    using ok new by (auto simp: ev_ok_def evl_ok_def evls_ok_def)
  note add = evl_add_first [OF ok0(1,2), of ?evh, OF _ _ refl, simplified]
  note rep = evls_replace [OF ok0(3), of ?own "?hs @ [?evh]" "Some (length ?hs)", simplified]
  have "evls_listeners ?hs (?unl # ev_events st) = evls_listeners ?hs (ev_events st)"
    using new by (auto simp: fun_eq_iff evls_listeners_none evl_listeners_path [OF _ ok0(1)])
  then have ls: "evls_listeners (?hs @ [?evh]) (?evl # ev_events st)
      = (evls_listeners ?hs (ev_events st))(ev := [(m, cb)])" and okn: "evls_ok ?own (?hs @ [?evh]) (?evl # ev_events st)"
    using add rep by simp_all
  show ?thesis
    using ls okn new evl_register_none [of "ev_events st" own ?hs ev ?evh] ok
    by (intro exI [of _ "ev_clear_cache (st\<lparr>ev_heap := ?hs @ [?evh], ev_events := ?evl # ev_events st\<rparr>)"]
          exI [of _ ?own])
       (auto simp: pr_event_register_def Let_def ev_ok_iff evls_ok_def ev_listeners_def ev_clear_cache_def
          add_listener_def evls_listeners_none)
qed

lemma pr_event_register_listed:
  assumes ok: "ev_ok own st" and old: "ev \<in> el_event ` set (ev_events st)"
    and new: "cb \<notin> snd ` set (ev_listeners st ev)"
  shows "\<exists>st' own'. pr_event_register m (Some ev) (Some cb) d st = Some (Inr (), st') \<and> ev_ok own' st' \<and>
           ev_listeners st' = (ev_listeners st)(ev := add_listener m cb (ev_listeners st ev))"
proof -
  let ?evh = "evh_new m ev cb d" let ?hs = "ev_heap st"
  obtain pre evl post where evls: "ev_events st = pre @ evl # post" and ev: "ev = el_event evl"
    using old split_list by (metis imageE)
  have oks: "evls_ok own ?hs (pre @ evl # post)" and okh: "ev_heap_ok own ?hs" and okl: "evl_ok own ?hs evl"
    and okall: "\<forall>e \<in> set (pre @ evl # post). evl_ok own ?hs e" and np: "el_event evl \<notin> el_event ` set pre"
    using ok evls by (auto simp: ev_ok_def evls_ok_def)
  have ls: "ev_listeners st ev = evl_listeners ?hs (el_handlers evl)"
    using np by (simp add: ev_listeners_def evls ev evls_listeners_split)
  obtain hs' h where add: "evl_add ?hs (el_handlers evl) ?evh = Some (Inr (hs', h))"
    and ok': "ev_heap_ok (own(length ?hs := el_event evl)) hs'"
      "evl_ok (own(length ?hs := el_event evl)) hs' (evl\<lparr>el_handlers := h\<rparr>)"
    and fr: "ev_frame {el_event evl} own ?hs (own(length ?hs := el_event evl)) hs'"
    and ls': "evl_listeners hs' h = add_listener m cb (ev_listeners st ev)"
    using evl_add_new [OF okh okl, of ?evh, OF _ _ _ refl refl] new by (auto simp: ls add_listener_def)
  note rep = evls_replace [OF oks ok' fr]
  have "length ?hs \<le> length hs'" using fr by (simp add: ev_frame_def)
  then show ?thesis
    using rep ls' add evl_register_split [OF okall np, of ?evh] ok
    by (intro exI [of _ "st\<lparr>ev_heap := hs', ev_events := pre @ evl\<lparr>el_handlers := h\<rparr> # post\<rparr>"]
          exI [of _ "own(length ?hs := el_event evl)"])
       (auto simp: pr_event_register_def Let_def ev_ok_iff ev_listeners_def evls ev intro: less_le_trans)
qed

lemma pr_event_register_dup:
  assumes ok: "ev_ok own st" and dup: "cb \<in> snd ` set (ev_listeners st ev)"
  shows "pr_event_register m (Some ev) (Some cb) d st = Some (Inl EEXIST, st)"
proof -
  have "ev \<in> el_event ` set (ev_events st)"
    using dup evls_listeners_none unfolding ev_listeners_def by fastforce
  then obtain pre evl post where evls: "ev_events st = pre @ evl # post" and ev: "ev = el_event evl"
    using split_list by (metis imageE)
  have okh: "ev_heap_ok own (ev_heap st)" and okl: "evl_ok own (ev_heap st) evl"
    and okall: "\<forall>e \<in> set (pre @ evl # post). evl_ok own (ev_heap st) e" and np: "el_event evl \<notin> el_event ` set pre"
    using ok evls by (auto simp: ev_ok_def)
  have "eh_cb (evh_new m ev cb d) \<in> snd ` set (evl_listeners (ev_heap st) (el_handlers evl))"
    using dup np by (simp add: ev_listeners_def evls ev evls_listeners_split)
  from evl_add_dup [OF okh okl this] show ?thesis
    using evl_register_split [OF okall np] by (simp add: pr_event_register_def Let_def evls ev)
qed

section \<open>Removal keeps the invariant\<close>

lemma ev_rel_irrefl: "ev_heap_ok own hs \<Longrightarrow> (a, a) \<notin> (ev_rel hs)\<^sup>+"
  by (auto simp: ev_heap_ok_def acyclic_def)

lemma evh_links_irrefl:
  assumes "ev_heap_ok own hs" "e < length hs"
  shows "eh_next (hs ! e) \<noteq> Some e" "eh_prev (hs ! e) \<noteq> Some e"
  using ev_rel_next [OF assms] ev_rel_prev [OF assms] ev_rel_irrefl [OF assms(1)] by blast+

text \<open>The store after the removal of \<open>e\<close>.\<close>

lemma evh_remove_eq:
  assumes ok: "ev_heap_ok own hs" and e: "e < length hs" and r: "evh_remove hs handlers e = (hs', h')"
  shows "length hs' = length hs" "h' = (case eh_prev (hs ! e) of None \<Rightarrow> eh_next (hs ! e) | Some p \<Rightarrow> handlers)"
    and "\<And>b. b < length hs \<Longrightarrow>
      eh_next (hs' ! b) = (if eh_prev (hs ! e) = Some b then eh_next (hs ! e) else eh_next (hs ! b)) \<and>
      eh_prev (hs' ! b) = (if eh_next (hs ! e) = Some b then eh_prev (hs ! e) else eh_prev (hs ! b)) \<and>
      eh_cb (hs' ! b) = eh_cb (hs ! b) \<and> eh_module (hs' ! b) = (if b = e then None else eh_module (hs ! b))"
    and "\<And>b. b < length hs \<Longrightarrow> b \<noteq> e \<Longrightarrow> eh_prev (hs ! e) \<noteq> Some b \<Longrightarrow> eh_next (hs ! e) \<noteq> Some b \<Longrightarrow> hs' ! b = hs ! b"
  using r evh_links_irrefl [OF ok e] e
  by (auto simp: evh_remove_def Let_def evh_nth nth_list_update split: option.splits)

lemma evh_remove_rel:
  assumes ok: "ev_heap_ok own hs" and e: "e < length hs" and r: "evh_remove hs handlers e = (hs', h')"
  shows "ev_rel hs' \<subseteq> (ev_rel hs)\<^sup>+"
proof (rule subrelI)
  fix a b assume "(a, b) \<in> ev_rel hs'"
  then have ab: "a < length hs" "b < length hs" and l: "eh_next (hs' ! a) = Some b \<or> eh_prev (hs' ! b) = Some a"
    by (auto simp: ev_rel_def evh_remove_eq(1) [OF ok e r])
  consider "eh_next (hs ! a) = Some b \<or> eh_prev (hs ! b) = Some a"
    | "eh_prev (hs ! e) = Some a" "eh_next (hs ! e) = Some b"
    using l evh_remove_eq(3) [OF ok e r ab(1)] evh_remove_eq(3) [OF ok e r ab(2)] by (auto split: if_splits)
  then show "(a, b) \<in> (ev_rel hs)\<^sup>+"
  proof cases
    case 1
    then show ?thesis using ev_rel_next [OF ok ab(1)] ev_rel_prev [OF ok ab(2)] by blast
  next
    case 2
    then have "(a, e) \<in> ev_rel hs" "(e, b) \<in> ev_rel hs" using ev_rel_next [OF ok e] ev_rel_prev [OF ok e] by blast+
    then show ?thesis by auto
  qed
qed

lemma evh_remove_ok:
  assumes ok: "ev_heap_ok own hs" and e: "e < length hs" and r: "evh_remove hs handlers e = (hs', h')"
  shows "ev_heap_ok own hs'" "ev_frame {own e} own hs own hs'"
proof -
  have "acyclic ((ev_rel hs)\<^sup>+)" using ok by (simp add: ev_heap_ok_def acyclic_def)
  then have "acyclic (ev_rel hs')" using evh_remove_rel [OF ok e r] by (rule acyclic_subset)
  moreover have "b < length hs' \<and> own b = own a"
    if a: "a < length hs'" and p: "eh_next (hs' ! a) = Some b \<or> eh_prev (hs' ! a) = Some b" for a b
  proof -
    have a': "a < length hs" using a evh_remove_eq(1) [OF ok e r] by simp
    consider "eh_next (hs ! a) = Some b \<or> eh_prev (hs ! a) = Some b"
      | "eh_prev (hs ! e) = Some a" "eh_next (hs ! e) = Some b" | "eh_next (hs ! e) = Some a" "eh_prev (hs ! e) = Some b"
      using p evh_remove_eq(3) [OF ok e r a'] by (auto split: if_splits)
    then show ?thesis
    proof cases
      case 1
      then show ?thesis using ev_heap_okD [OF ok a'] evh_remove_eq(1) [OF ok e r] by (metis (no_types))
    qed (use ev_heap_okD [OF ok e] evh_remove_eq(1) [OF ok e r] in metis)+
  qed
  ultimately show "ev_heap_ok own hs'" unfolding ev_heap_ok_def by blast
  show "ev_frame {own e} own hs own hs'"
    unfolding ev_frame_def
  proof (intro conjI allI impI)
    fix b assume b: "b < length hs" "own b \<notin> {own e}"
    show "hs' ! b = hs ! b"
      by (rule evh_remove_eq(4) [OF ok e r b(1)]) (use b ev_heap_okD [OF ok e] in auto)
  qed (simp_all add: evh_remove_eq(1) [OF ok e r])
qed

text \<open>What the loop of \<open>pr_event_unregister\<close> keeps: the handler it looks at does not come before the head.\<close>

definition unlink_ok :: "(nat \<Rightarrow> string) \<Rightarrow> string \<Rightarrow> event_handler list \<Rightarrow> nat option \<Rightarrow> nat option \<Rightarrow> bool" where
  "unlink_ok own ev hs handlers evh \<longleftrightarrow>
     ev_heap_ok own hs \<and>
     (\<forall>h. handlers = Some h \<longrightarrow> h < length hs \<and> own h = ev \<and> eh_prev (hs ! h) = None) \<and>
     (\<forall>e. evh = Some e \<longrightarrow> e < length hs \<and> own e = ev) \<and>
     (\<forall>e h. evh = Some e \<longrightarrow> handlers = Some h \<longrightarrow> (e, h) \<notin> (ev_rel hs)\<^sup>+)"

lemma unlink_ok_next:
  assumes u: "unlink_ok own ev hs handlers (Some e)"
  shows "unlink_ok own ev hs handlers (eh_next (hs ! e))"
proof -
  from u have ok: "ev_heap_ok own hs" and e: "e < length hs" "own e = ev" by (auto simp: unlink_ok_def)
  show ?thesis unfolding unlink_ok_def
  proof (intro conjI allI impI)
    fix n h assume n: "eh_next (hs ! e) = Some n" and h: "handlers = Some h"
    show "(n, h) \<notin> (ev_rel hs)\<^sup>+"
      using trancl_into_trancl2 [OF ev_rel_next [OF ok e(1) n]] u h by (auto simp: unlink_ok_def)
  qed (use u ev_heap_okD(1) [OF ok e(1)] in \<open>auto simp: unlink_ok_def\<close>)
qed

lemma unlink_ok_remove:
  assumes u: "unlink_ok own ev hs handlers (Some e)" and r: "evh_remove hs handlers e = (hs', h')"
  shows "unlink_ok own ev hs' h' (eh_next (hs ! e))"
proof -
  from u have ok: "ev_heap_ok own hs" and e: "e < length hs" "own e = ev"
    and hd: "\<And>h. handlers = Some h \<Longrightarrow> h < length hs \<and> own h = ev \<and> eh_prev (hs ! h) = None"
    and nb: "\<And>h. handlers = Some h \<Longrightarrow> (e, h) \<notin> (ev_rel hs)\<^sup>+" by (auto simp: unlink_ok_def)
  note eqs = evh_remove_eq [OF ok e(1) r]
  note ok' = evh_remove_ok(1) [OF ok e(1) r]
  have nx: "n < length hs \<and> own n = ev" if "eh_next (hs ! e) = Some n" for n
    using ev_heap_okD(1) [OF ok e(1) that] e(2) by simp
  have "h < length hs' \<and> own h = ev \<and> eh_prev (hs' ! h) = None" if h: "h' = Some h" for h
  proof (cases "eh_prev (hs ! e)")
    case None
    then have n: "eh_next (hs ! e) = Some h" using eqs(2) h by simp
    then show ?thesis using nx [OF n] None eqs(1) eqs(3) [of h] by simp
  next
    case (Some p)
    then have hh: "handlers = Some h" using eqs(2) h by simp
    then have "eh_next (hs ! e) \<noteq> Some h" using nb ev_rel_next [OF ok e(1)] by blast
    then show ?thesis using hd [OF hh] eqs(1) eqs(3) [of h] by simp
  qed
  moreover have "(n, h) \<notin> (ev_rel hs')\<^sup>+" if n: "eh_next (hs ! e) = Some n" and h: "h' = Some h" for n h
  proof (cases "eh_prev (hs ! e)")
    case None
    then show ?thesis using eqs(2) n h ev_rel_irrefl [OF ok'] by simp
  next
    case (Some p)
    then have hh: "handlers = Some h" using eqs(2) h by simp
    have "(ev_rel hs')\<^sup>+ \<subseteq> (ev_rel hs)\<^sup>+"
      using trancl_mono [OF _ evh_remove_rel [OF ok e(1) r]] by auto
    then show ?thesis using nb [OF hh] trancl_into_trancl2 [OF ev_rel_next [OF ok e(1) n]] by blast
  qed
  ultimately show ?thesis using ok' nx eqs(1) unfolding unlink_ok_def by auto
qed

lemma evh_remove_path:
  assumes ok: "ev_heap_ok own hs" and e: "e < length hs" and r: "evh_remove hs handlers e = (hs', h')"
    and p: "evh_path hs (eh_next (hs ! e)) as"
  shows "evh_path hs' (eh_next (hs ! e)) as"
proof (rule evh_path_cong [OF p])
  fix t assume t: "t \<in> set as"
  have "eh_prev (hs ! e) \<noteq> Some t"
  proof
    assume "eh_prev (hs ! e) = Some t"
    then have "(t, e) \<in> ev_rel hs" by (rule ev_rel_prev [OF ok e])
    with evh_path_after [OF p ok e refl t] have "(e, e) \<in> (ev_rel hs)\<^sup>+" by (rule trancl_into_trancl)
    then show False using ev_rel_irrefl [OF ok] by blast
  qed
  then show "eh_next (hs' ! t) = eh_next (hs ! t)"
    using evh_remove_eq(3) [OF ok e r evh_path_bounded [OF p t]] by simp
qed (simp add: evh_remove_eq(1) [OF ok e r])

lemma ev_frame_trans:
  "ev_frame E own hs own hs' \<Longrightarrow> ev_frame E own hs' own hs'' \<Longrightarrow> ev_frame E own hs own hs''"
  by (auto simp: ev_frame_def)

lemma ev_frame_refl [simp]: "ev_frame E own hs own hs"
  by (simp add: ev_frame_def)

lemma evh_unlink_ok:
  "unlink_ok own ev hs handlers evh \<Longrightarrow> evh_path hs evh as
     \<Longrightarrow> \<exists>hs' h' u'. evh_unlink is hs handlers evh u = Some (hs', h', u') \<and> unlink_ok own ev hs' h' None \<and>
           ev_frame {ev} own hs own hs' \<and> length hs' = length hs"
proof (induction as arbitrary: hs handlers evh u)
  case Nil
  then show ?case by (subst evh_unlink.simps) simp
next
  case (Cons e as)
  from Cons.prems(2) have evh: "evh = Some e" and p: "evh_path hs (eh_next (hs ! e)) as"
    unfolding evh_path_Cons by auto
  note u = Cons.prems(1) [unfolded evh]
  from u have ok: "ev_heap_ok own hs" and e: "e < length hs" "own e = ev" by (auto simp: unlink_ok_def)
  show ?case
  proof (cases "is (hs ! e)")
    case False
    from Cons.IH [OF unlink_ok_next [OF u] p] False evh show ?thesis by (subst evh_unlink.simps) simp
  next
    case True
    obtain hs' h' where r: "evh_remove hs handlers e = (hs', h')" by fastforce
    note rem = evh_remove_ok(2) [OF ok e(1) r] evh_remove_eq(1) [OF ok e(1) r]
    from Cons.IH [OF unlink_ok_remove [OF u r] evh_remove_path [OF ok e(1) r p], of True] rem True evh r e
    show ?thesis by (subst evh_unlink.simps) (auto intro: ev_frame_trans)
  qed
qed

lemma ev_frame_mono: "ev_frame E own hs own' hs' \<Longrightarrow> E \<subseteq> F \<Longrightarrow> ev_frame F own hs own' hs'"
  by (auto simp: ev_frame_def)

lemma evl_unlink_ok:
  assumes ok: "evls_ok own hs (evl # evls)"
  shows "\<exists>hs' h u'. (if lis then evh_unlink is hs (el_handlers evl) (el_handlers evl) u
                     else Some (hs, el_handlers evl, u)) = Some (hs', h, u') \<and>
           evl_ok own hs' (evl\<lparr>el_handlers := h\<rparr>) \<and> evls_ok own hs' evls \<and>
           ev_frame {el_event evl} own hs own hs' \<and> length hs' = length hs"
proof (cases lis)
  case False
  then show ?thesis using ok by (auto simp: evls_ok_def evl_ok_def)
next
  case True
  let ?h = "el_handlers evl"
  have okh: "ev_heap_ok own hs" and okl: "evl_ok own hs evl" using ok by (auto simp: evls_ok_def)
  obtain as where p: "evh_path hs ?h as" using evl_ok_path [OF okh okl] .
  have u: "unlink_ok own (el_event evl) hs ?h ?h"
    using okh okl ev_rel_irrefl [OF okh] by (auto simp: unlink_ok_def evl_ok_def)
  obtain hs' h' u' where r: "evh_unlink is hs ?h ?h u = Some (hs', h', u')"
    and u': "unlink_ok own (el_event evl) hs' h' None" and fr: "ev_frame {el_event evl} own hs own hs'"
    and len: "length hs' = length hs"
    using evh_unlink_ok [OF u p] by blast
  have okh': "ev_heap_ok own hs'" using u' by (simp add: unlink_ok_def)
  have other: "el_event evl \<notin> el_event ` set evls" using ok by (simp add: evls_ok_def)
  have "evl_ok own hs' e" if e: "e \<in> set evls" for e
    by (rule evl_frame(1) [OF okh _ okh' fr notin_imageD [OF other e]]) (use ok e in \<open>auto simp: evls_ok_def\<close>)
  then have "evls_ok own hs' evls" using ok okh' by (simp add: evls_ok_def)
  moreover have "evl_ok own hs' (evl\<lparr>el_handlers := h'\<rparr>)" using okl u' by (simp add: evl_ok_def unlink_ok_def)
  ultimately show ?thesis using True r fr len by simp
qed

lemma evl_unregister_ok:
  "evls_ok own hs evls \<Longrightarrow>
     \<exists>hs' evls' u'. evl_unregister lis is hs u evls = Some (hs', evls', u') \<and> evls_ok own hs' evls' \<and>
       map el_event evls' = map el_event evls \<and> ev_frame (el_event ` set evls) own hs own hs' \<and> length hs' = length hs"
proof (induction evls arbitrary: hs u)
  case Nil
  then show ?case by simp
next
  case (Cons evl evls)
  obtain hs1 h u1 where r: "(if lis evl then evh_unlink is hs (el_handlers evl) (el_handlers evl) u
                     else Some (hs, el_handlers evl, u)) = Some (hs1, h, u1)"
    and ok1: "evl_ok own hs1 (evl\<lparr>el_handlers := h\<rparr>)" "evls_ok own hs1 evls"
    and fr1: "ev_frame {el_event evl} own hs own hs1" and len1: "length hs1 = length hs"
    using evl_unlink_ok [OF Cons.prems] by blast
  obtain hs2 evls2 u2 where r2: "evl_unregister lis is hs1 u1 evls = Some (hs2, evls2, u2)"
    and ok2: "evls_ok own hs2 evls2" and nm: "map el_event evls2 = map el_event evls"
    and fr2: "ev_frame (el_event ` set evls) own hs1 own hs2" and len2: "length hs2 = length hs1"
    using Cons.IH [OF ok1(2)] by blast
  have "el_event evl \<notin> el_event ` set evls" using Cons.prems by (auto simp: evls_ok_def)
  then have ok2': "evl_ok own hs2 (evl\<lparr>el_handlers := h\<rparr>)"
    using evl_frame(1) [OF _ ok1(1) _ fr2] ok1(2) ok2 by (simp add: evls_ok_def)
  have "distinct (map el_event (evl # evls))" using Cons.prems by (simp add: evls_ok_def)
  then have "evls_ok own hs2 (evl\<lparr>el_handlers := h\<rparr> # evls2)"
    using ok2 ok2' nm by (auto simp: evls_ok_def simp flip: set_map)
  moreover have "ev_frame (el_event ` set (evl # evls)) own hs own hs2"
    by (rule ev_frame_trans [OF ev_frame_mono [OF fr1] ev_frame_mono [OF fr2]]) auto
  ultimately show ?case using r r2 nm len1 len2 by simp
qed

lemma pr_event_unregister_ok:
  assumes "ev_ok own st"
  shows "\<exists>r st'. pr_event_unregister m event cb st = Some (r, st') \<and> ev_ok own st' \<and>
           length (ev_heap st') = length (ev_heap st)"
proof -
  obtain hs evls u where "evl_unregister (\<lambda>evl. case event of None \<Rightarrow> True | Some ev \<Rightarrow> evl_is evl ev) (evh_is m cb)
                   (ev_heap st) False (ev_events st) = Some (hs, evls, u)"
    and "evls_ok own hs evls" and "length hs = length (ev_heap st)"
    using assms evl_unregister_ok unfolding ev_ok_iff by blast
  then show ?thesis using assms by (auto simp: pr_event_unregister_def ev_ok_iff ev_clear_cache_def)
qed

section \<open>Generation\<close>

text \<open>Every step of the stack machine is possible and keeps the invariant, so a run ends without a result only
  for want of fuel.\<close>

fun task_ok :: "event_handler list \<Rightarrow> ev_task \<Rightarrow> bool" where
  "task_ok hs (Dispatch (Some e)) \<longleftrightarrow> e < length hs"
| "task_ok hs (Advance e) \<longleftrightarrow> e < length hs"
| "task_ok hs _ \<longleftrightarrow> True"

lemma task_ok_mono: "task_ok hs t \<Longrightarrow> length hs \<le> length hs' \<Longrightarrow> task_ok hs' t"
  by (cases "(hs, t)" rule: task_ok.cases) auto

lemma evl_add_length:
  "evl_add hs p evh = Some (Inr (hs', h)) \<Longrightarrow> length hs' = Suc (length hs)"
  by (auto simp: evl_add_def Let_def split: option.splits if_splits)

lemma evl_register_length:
  "evl_register hs evh ev evls = Some (Some (Inr (hs', evls'))) \<Longrightarrow> length hs' = Suc (length hs)"
  by (induction evls arbitrary: evls') (auto split: if_splits option.splits sum.splits dest: evl_add_length)

lemma pr_event_register_ok:
  assumes "ev_inv st"
  shows "\<exists>r st'. pr_event_register m event cb d st = Some (r, st') \<and> ev_inv st' \<and>
           length (ev_heap st) \<le> length (ev_heap st')"
proof (cases event; cases cb)
  fix ev c assume e: "event = Some ev" "cb = Some c"
  from assms obtain own where ok: "ev_ok own st" by (auto simp: ev_inv_def)
  have "\<exists>r st'. pr_event_register m event cb d st = Some (r, st') \<and> ev_inv st'"
    using pr_event_register_dup [OF ok] pr_event_register_listed [OF ok] pr_event_register_unlisted [OF ok] ok e
    unfolding ev_inv_def by metis
  moreover have "length (ev_heap st) \<le> length (ev_heap st')" if "pr_event_register m event cb d st = Some (r, st')" for r st'
    using that e
    by (auto simp: pr_event_register_def Let_def ev_clear_cache_def dest!: evl_register_length
          split: option.splits sum.splits)
  ultimately show ?thesis by blast
qed (use assms in \<open>auto simp: pr_event_register_def\<close>)

lemma ev_clear_cache_inv [simp]: "ev_inv st \<Longrightarrow> ev_inv (ev_clear_cache st)"
  by (auto simp: ev_inv_def ev_ok_def ev_clear_cache_def)

lemma dropWhile_in_set: "dropWhile P xs = y # ys \<Longrightarrow> y \<in> set xs"
  by (metis list.set_intros(1) set_dropWhileD)

lemma pr_event_generate_cases:
  assumes "pr_event_generate event st = (ts, st')"
  obtains "ts = []" | "ts = [EndGenerate]"
    | p where "ts = [Dispatch p, EndGenerate]" "p = ev_curr_evh st \<or> (\<exists>evl \<in> set (ev_events st). p = el_handlers evl)"
  using assms
  by (auto simp: pr_event_generate_def Let_def split: option.splits if_splits list.splits dest!: dropWhile_in_set)

lemma pr_event_generate_ok:
  assumes inv: "ev_inv st" and g: "pr_event_generate event st = (ts, st')"
  shows "ev_inv st'" "ev_heap st' = ev_heap st" "\<forall>t \<in> set ts. task_ok (ev_heap st) t"
proof -
  from inv obtain own where ok: "ev_ok own st" by (auto simp: ev_inv_def)
  show "ev_heap st' = ev_heap st" "ev_inv st'"
    using g ok by (auto simp: pr_event_generate_def Let_def ev_inv_def ev_ok_def
        split: option.splits if_splits list.splits)
  have "task_ok (ev_heap st) (Dispatch p)"
    if "p = ev_curr_evh st \<or> (\<exists>evl \<in> set (ev_events st). p = el_handlers evl)" for p
    using that ok by (cases p) (auto simp: ev_ok_def evl_ok_def)
  with g show "\<forall>t \<in> set ts. task_ok (ev_heap st) t" by (cases rule: pr_event_generate_cases) auto
qed

lemma ev_step_ok:
  assumes inv: "ev_inv st" and t: "task_ok (ev_heap st) t"
  shows "\<exists>ts' st' cbs. ev_step acts t st = Some (ts', st', cbs) \<and> ev_inv st' \<and>
           length (ev_heap st) \<le> length (ev_heap st') \<and> (\<forall>t' \<in> set ts'. task_ok (ev_heap st') t')"
proof (cases "(acts, t, st)" rule: ev_step.cases)
  case (1 acts m event cb data st)
  then show ?thesis using pr_event_register_ok [of st m event cb data] inv by auto
next
  case (2 acts m event cb st)
  obtain own where "ev_ok own st" using inv 2 by (auto simp: ev_inv_def)
  from pr_event_unregister_ok [OF this, of m event cb] 2 show ?thesis by (auto simp: ev_inv_def)
next
  case (3 acts event st)
  obtain ts st' where g: "pr_event_generate event st = (ts, st')" by fastforce
  then show ?thesis using pr_event_generate_ok [of st event ts st'] inv 3 by simp
next
  case (5 acts e st)
  then obtain own where ok: "ev_ok own st" using inv by (auto simp: ev_inv_def)
  then have "ev_ok own (st\<lparr>ev_curr_evh := eh_next (ev_heap st ! e)\<rparr>)"
    using 5 t ev_heap_okD(1) [of own "ev_heap st" e] by (auto simp: ev_ok_def)
  then show ?thesis using 5 t by (auto simp: ev_inv_def)
next
  case (6 acts e st)
  then obtain own where ok: "ev_ok own st" using inv by (auto simp: ev_inv_def)
  then have "task_ok (ev_heap st) (Dispatch (eh_next (ev_heap st ! e)))"
    using 6 t ev_heap_okD(1) [of own "ev_heap st" e] by (cases "eh_next (ev_heap st ! e)") (auto simp: ev_ok_def)
  then show ?thesis using 6 inv by simp
next
  case (7 acts st)
  then show ?thesis using inv ev_clear_cache_inv by (simp add: ev_clear_cache_def)
qed (use inv in simp)

lemma ev_run_inv:
  "ev_run acts n ts st = Some (st', cbs) \<Longrightarrow> ev_inv st \<Longrightarrow> \<forall>t \<in> set ts. task_ok (ev_heap st) t \<Longrightarrow> ev_inv st'"
proof (induction acts n ts st arbitrary: st' cbs rule: ev_run.induct)
  case (3 acts n t ts st)
  obtain ts1 st1 cbs1 where s: "ev_step acts t st = Some (ts1, st1, cbs1)" and inv: "ev_inv st1"
    and len: "length (ev_heap st) \<le> length (ev_heap st1)" and ok: "\<forall>t' \<in> set ts1. task_ok (ev_heap st1) t'"
    using ev_step_ok [OF 3(3), of t acts] 3(4) by auto
  obtain cbs2 where r: "ev_run acts n (ts1 @ ts) st1 = Some (st', cbs2)"
    using 3(2) s by (auto simp: ev_run.simps split: option.splits)
  show ?case
    by (rule 3(1) [OF s refl refl r inv]) (use ok 3(4) task_ok_mono [OF _ len] in auto)
qed auto

text \<open>The states that the server can get into: any sequence of calls from any callbacks.\<close>

inductive ev_reach :: "(nat \<Rightarrow> ev_call list) \<Rightarrow> ev_state \<Rightarrow> bool" for acts where
  init: "ev_reach acts ev_init"
| call: "ev_reach acts st \<Longrightarrow> ev_run acts n [Call c] st = Some (st', cbs) \<Longrightarrow> ev_reach acts st'"

lemma ev_reach_inv: "ev_reach acts st \<Longrightarrow> ev_inv st"
proof (induction rule: ev_reach.induct)
  case init
  show ?case by (auto simp: ev_inv_def ev_ok_def ev_init_def ev_heap_ok_def ev_rel_def acyclic_def)
next
  case (call st n c st' cbs)
  then show ?case using ev_run_inv by (metis empty_iff empty_set set_ConsD task_ok.simps(3))
qed

lemma evls_dropWhile:
  "\<forall>evl \<in> set evls. evl_ok own hs evl \<Longrightarrow>
     dropWhile (\<lambda>evl. \<not> evl_is evl ev) evls = [] \<and> evls_listeners hs evls ev = [] \<or>
     (\<exists>evl rest. dropWhile (\<lambda>evl. \<not> evl_is evl ev) evls = evl # rest \<and> evl_ok own hs evl \<and>
        el_event evl = ev \<and> evls_listeners hs evls ev = evl_listeners hs (el_handlers evl))"
  by (induction evls) (auto simp: evl_ok_is)

lemma ev_events_dropWhile:
  assumes "ev_ok own st"
  shows "dropWhile (\<lambda>evl. \<not> evl_is evl ev) (ev_events st) = [] \<and> ev_listeners st ev = [] \<or>
         (\<exists>evl rest. dropWhile (\<lambda>evl. \<not> evl_is evl ev) (ev_events st) = evl # rest \<and> evl_ok own (ev_heap st) evl \<and>
            el_event evl = ev \<and> ev_listeners st ev = evl_listeners (ev_heap st) (el_handlers evl))"
  using assms evls_dropWhile unfolding ev_listeners_def ev_ok_def by blast

lemma pr_event_listening_count:
  assumes "ev_inv st"
  shows "pr_event_listening (Some ev) st = Some (Inr (length (ev_listeners st ev)))"
proof -
  obtain own where ok: "ev_ok own st" and okh: "ev_heap_ok own (ev_heap st)"
    using assms by (auto simp: ev_inv_def ev_ok_def)
  from ev_events_dropWhile [OF ok, of ev] show ?thesis
  proof (elim disjE exE conjE)
    fix evl rest assume d: "dropWhile (\<lambda>evl. \<not> evl_is evl ev) (ev_events st) = evl # rest"
      and okl: "evl_ok own (ev_heap st) evl" and ls: "ev_listeners st ev = evl_listeners (ev_heap st) (el_handlers evl)"
    obtain as where p: "evh_path (ev_heap st) (el_handlers evl) as" using evl_ok_path [OF okh okl] .
    show ?thesis using d ls evh_count_path [OF p, of 0] evl_listeners_path [OF p okh]
      by (simp add: pr_event_listening_def)
  qed (simp add: pr_event_listening_def del: dropWhile_eq_Nil_conv)
qed

lemma evl_dump_returns:
  "ev_heap_ok own hs \<Longrightarrow> \<forall>evl \<in> set evls. evl_ok own hs evl \<Longrightarrow> \<exists>ls. evl_dump hs evls = Some ls"
proof (induction evls)
  case (Cons evl evls)
  have okl: "evl_ok own hs evl" using Cons.prems(2) by simp
  obtain as where "evh_path hs (el_handlers evl) as" using evl_ok_path [OF Cons.prems(1) okl] .
  then have "\<exists>ls. evh_dump hs (el_handlers evl) out = Some ls" for out using evh_dump_path by blast
  with Cons show ?case by (auto simp: Let_def) (metis option.simps(5,9))
qed simp

text \<open>A server in which the core listens to one event.\<close>

lemma ev_one_listener:
  obtains st where "pr_event_register None (Some ''core.exit'') (Some 7) 0 ev_init = Some (Inr (), st)"
    "ev_reach acts st" "ev_curr_event st = None" "ev_listeners st ''core.exit'' = [(None, 7)]"
proof -
  let ?st = "\<lparr>ev_heap = [evh_new None ''core.exit'' 7 0],
    ev_events = [\<lparr>el_event = ''core.exit'', el_event_len = length ''core.exit'', el_handlers = Some 0\<rparr>],
    ev_curr_event = None, ev_curr_evl = 0, ev_curr_evh = None\<rparr>"
  have r: "pr_event_register None (Some ''core.exit'') (Some 7) 0 ev_init = Some (Inr (), ?st)"
    by (simp add: pr_event_register_def ev_init_def Let_def ev_clear_cache_def)
  have "ev_reach acts ?st"
    by (rule ev_reach.call [OF ev_reach.init, of acts 1 "Register None (Some ''core.exit'') (Some 7) 0"])
       (simp add: ev_run.simps r)
  moreover have "ev_listeners ?st ''core.exit'' = [(None, 7)]"
    by (simp add: ev_listeners_def evl_listeners_def evh_new_def)
  ultimately show ?thesis using that r by simp
qed

section \<open>Properties\<close>

text \<open>C8. In every state of the server, whatever the callbacks do, all the walks along the pointers end: registering,
  unregistering, counting and listing return, and the count is the number of listeners.\<close>

theorem event_calls_return:
  assumes "ev_reach acts st"
  shows "(\<exists>r st'. pr_event_register m event cb d st = Some (r, st')) \<and>
         (\<exists>r st'. pr_event_unregister m event cb st = Some (r, st')) \<and>
         pr_event_listening (Some ev) st = Some (Inr (length (ev_listeners st ev))) \<and>
         (\<exists>ls. pr_event_dump st = Some ls)"
proof -
  have inv: "ev_inv st" using ev_reach_inv assms .
  then obtain own where ok: "ev_ok own st" by (auto simp: ev_inv_def)
  then have "\<exists>ls. pr_event_dump st = Some ls"
    using evl_dump_returns [of own "ev_heap st" "ev_events st"] by (auto simp: pr_event_dump_def ev_ok_def)
  then show ?thesis
    using pr_event_register_ok [OF inv] pr_event_unregister_ok [OF ok] pr_event_listening_count [OF inv] by blast
qed

theorem event_calls_return_witness:
  "\<exists>st. pr_event_register None (Some ''core.exit'') (Some 7) 0 ev_init = Some (Inr (), st) \<and>
     (\<exists>r st'. pr_event_unregister None (Some ''core.exit'') (Some 7) st = Some (r, st')) \<and>
     pr_event_listening (Some ''core.exit'') st = Some (Inr 1)"
proof -
  obtain st where "pr_event_register None (Some ''core.exit'') (Some 7) 0 ev_init = Some (Inr (), st)"
    "ev_reach (\<lambda>_. []) st" "ev_listeners st ''core.exit'' = [(None, 7)]" by (rule ev_one_listener)
  then show ?thesis using event_calls_return [of "\<lambda>_. []" st None "Some ''core.exit''" "Some 7" 0 "''core.exit''"] by auto
qed

text \<open>C9. Registration implements the promise of the comment in the code: a second registration of a callback is
  refused, a module comes first, the core last, and other events are not affected.\<close>

theorem pr_event_register_refines:
  assumes "ev_reach acts st"
  shows "\<exists>st'. pr_event_register m (Some ev) (Some cb) d st =
                 Some (if cb \<in> snd ` set (ev_listeners st ev) then Inl EEXIST else Inr (), st') \<and>
               ev_listeners st' =
                 (if cb \<in> snd ` set (ev_listeners st ev) then ev_listeners st
                  else (ev_listeners st)(ev := add_listener m cb (ev_listeners st ev)))"
proof -
  obtain own where ok: "ev_ok own st" using ev_reach_inv [OF assms] by (auto simp: ev_inv_def)
  show ?thesis
  proof (cases "cb \<in> snd ` set (ev_listeners st ev)")
    case True
    then show ?thesis using pr_event_register_dup [OF ok True] by simp
  next
    case False
    show ?thesis
    proof (cases "ev \<in> el_event ` set (ev_events st)")
      case True
      from pr_event_register_listed [OF ok True False, of m d] False show ?thesis by auto
    next
      case new: False
      from pr_event_register_unlisted [OF ok new, of m cb d] False show ?thesis by auto
    qed
  qed
qed

theorem pr_event_register_refines_witness:
  "\<exists>st st'. pr_event_register None (Some ''core.exit'') (Some 7) 0 ev_init = Some (Inr (), st) \<and>
     pr_event_register (Some (10, ''tls'')) (Some ''core.exit'') (Some 8) 0 st = Some (Inr (), st') \<and>
     ev_listeners st' ''core.exit'' = [(Some (10, ''tls''), 8), (None, 7)]"
proof -
  obtain st where "pr_event_register None (Some ''core.exit'') (Some 7) 0 ev_init = Some (Inr (), st)"
    "ev_reach (\<lambda>_. []) st" "ev_listeners st ''core.exit'' = [(None, 7)]" by (rule ev_one_listener)
  then show ?thesis
    using pr_event_register_refines [of "\<lambda>_. []" st "Some (10, ''tls'')" "''core.exit''" 8 0] by (auto simp: add_listener_def)
qed

section \<open>Runs\<close>

lemma ev_run_mono: "ev_run acts n ts st = Some r \<Longrightarrow> n \<le> m \<Longrightarrow> ev_run acts m ts st = Some r"
proof (induction acts n ts st arbitrary: m r rule: ev_run.induct)
  case (3 acts n t ts st)
  obtain k where m: "m = Suc k" "n \<le> k" using 3(3) by (cases m) auto
  obtain ts' st' cbs st'' cbs' where s: "ev_step acts t st = Some (ts', st', cbs)"
    and r: "ev_run acts n (ts' @ ts) st' = Some (st'', cbs')" "r = (st'', cbs @ cbs')"
    using 3(2) by (auto simp: ev_run.simps split: option.splits)
  show ?case using 3(1) [OF s refl refl r(1) m(2)] s r(2) m(1) by (simp add: ev_run.simps)
qed auto

lemma ev_run_append:
  "ev_run acts n ts st = Some (st1, c1) \<Longrightarrow> ev_run acts m us st1 = Some (st2, c2)
     \<Longrightarrow> ev_run acts (n + m) (ts @ us) st = Some (st2, c1 @ c2)"
proof (induction acts n ts st arbitrary: st1 c1 rule: ev_run.induct)
  case (1 acts n st)
  then show ?case by (auto intro: ev_run_mono)
next
  case (3 acts n t ts st)
  obtain ts' st' cbs cbs' where s: "ev_step acts t st = Some (ts', st', cbs)"
    and r: "ev_run acts n (ts' @ ts) st' = Some (st1, cbs')" "c1 = cbs @ cbs'"
    using 3(2) by (auto simp: ev_run.simps split: option.splits)
  show ?case using 3(1) [OF s refl refl r(1) 3(3)] s r(2) by (simp add: ev_run.simps)
qed simp

text \<open>A run of two task lists passes through the state in which the first one ends.\<close>

lemma ev_run_split:
  "ev_run acts n (ts @ us) st = Some (st2, c) \<Longrightarrow> ev_run acts m ts st = Some (st1, c1)
     \<Longrightarrow> \<exists>k c2. ev_run acts k us st1 = Some (st2, c2) \<and> k + (if ts = [] then 0 else 1) \<le> n"
proof (induction acts m ts st arbitrary: n c c1 rule: ev_run.induct)
  case (3 acts m t ts st)
  obtain j where n: "n = Suc j" using 3(2) by (cases n) auto
  obtain ts' st' cbs' where s: "ev_step acts t st = Some (ts', st', cbs')"
    using 3(3) by (auto simp: ev_run.simps split: option.splits)
  obtain c' c1' where r: "ev_run acts j ((ts' @ ts) @ us) st' = Some (st2, c')" "ev_run acts m (ts' @ ts) st' = Some (st1, c1')"
    using 3(2,3) s n by (auto simp: ev_run.simps split: option.splits)
  obtain k c2 where "ev_run acts k us st1 = Some (st2, c2)" "k + (if ts' @ ts = [] then 0 else 1) \<le> j"
    using 3(1) [OF s refl refl r] by blast
  then show ?case using n by (intro exI [of _ k] exI [of _ c2]) (auto split: if_splits)
qed auto

lemma ev_run_one:
  "ev_step acts t st = Some (ts', st', cbs) \<Longrightarrow> ev_run acts n (ts' @ ts) st' = Some (st'', cbs')
     \<Longrightarrow> ev_run acts (Suc n) (t # ts) st = Some (st'', cbs @ cbs')"
  by (simp add: ev_run.simps)

text \<open>Dispatching to callbacks that do not use the event system.\<close>

lemma ev_run_dispatch_quiet:
  "evh_path hs p as \<Longrightarrow> ev_heap st = hs \<Longrightarrow> \<forall>a \<in> set as. acts (eh_cb (hs ! a)) = []
     \<Longrightarrow> \<exists>n x. ev_run acts n [Dispatch p] st = Some (st\<lparr>ev_curr_evh := x\<rparr>, map (\<lambda>a. eh_cb (hs ! a)) as)"
proof (induction arbitrary: st rule: evh_path.induct)
  case (Nil hs)
  show ?case by (intro exI [of _ 1] exI [of _ "ev_curr_evh st"]) (simp add: ev_run.simps)
next
  case (Cons a hs as)
  let ?st = "st\<lparr>ev_curr_evh := eh_next (hs ! a)\<rparr>"
  obtain n x where r: "ev_run acts n [Dispatch (eh_next (hs ! a))] ?st =
      Some (?st\<lparr>ev_curr_evh := x\<rparr>, map (\<lambda>a. eh_cb (hs ! a)) as)"
    using Cons.IH [of ?st] Cons.prems by auto
  have "ev_run acts (Suc (Suc n)) [Dispatch (Some a)] st =
      Some (?st\<lparr>ev_curr_evh := x\<rparr>, map (\<lambda>a. eh_cb (hs ! a)) (a # as))"
    using r Cons.prems by (simp add: ev_run.simps)
  then show ?case by (intro exI [of _ "Suc (Suc n)"] exI [of _ x]) simp
qed

lemma evl_listeners_None [simp]: "evl_listeners hs None = []"
  by (cases "length hs") (simp_all add: evl_listeners_def)

text \<open>C12. Generating an event calls each of its listeners once, in order, when the callbacks do not use the event
  system themselves, and the registrations stay as they are.\<close>

theorem pr_event_generate_calls_listeners:
  assumes "ev_reach acts st" "ev_curr_event st = None"
    and quiet: "\<forall>(m, cb) \<in> set (ev_listeners st ev). acts cb = []"
  shows "\<exists>n st'. ev_run acts n [Call (Generate (Some ev))] st = Some (st', map snd (ev_listeners st ev)) \<and>
           ev_heap st' = ev_heap st \<and> ev_events st' = ev_events st \<and> ev_curr_event st' = None"
proof -
  obtain own where ok: "ev_ok own st" and okh: "ev_heap_ok own (ev_heap st)"
    using ev_reach_inv [OF assms(1)] by (auto simp: ev_inv_def ev_ok_def)
  from ev_events_dropWhile [OF ok, of ev] show ?thesis
  proof (elim disjE exE conjE)
    assume "dropWhile (\<lambda>evl. \<not> evl_is evl ev) (ev_events st) = []" "ev_listeners st ev = []"
    then show ?thesis using assms(2)
      by (intro exI [of _ 2])
         (auto simp: ev_run.simps pr_event_generate_def numeral_2_eq_2 ev_clear_cache_def
            simp del: dropWhile_eq_Nil_conv)
  next
    fix evl rest assume d: "dropWhile (\<lambda>evl. \<not> evl_is evl ev) (ev_events st) = evl # rest"
      and okl: "evl_ok own (ev_heap st) evl" and ls: "ev_listeners st ev = evl_listeners (ev_heap st) (el_handlers evl)"
    obtain as where p: "evh_path (ev_heap st) (el_handlers evl) as" using evl_ok_path [OF okh okl] .
    note l = ls [unfolded evl_listeners_path [OF p okh]]
    let ?st = "st\<lparr>ev_curr_event := Some ev, ev_curr_evl := Suc (length rest)\<rparr>"
    have g: "pr_event_generate (Some ev) st =
        (if el_handlers evl = None then ([], st) else ([Dispatch (el_handlers evl), EndGenerate], ?st))"
      using d assms(2) by (auto simp: pr_event_generate_def)
    have q: "\<forall>a \<in> set as. acts (eh_cb (ev_heap st ! a)) = []" using quiet l by auto
    obtain n x where r: "ev_run acts n [Dispatch (el_handlers evl)] ?st =
        Some (?st\<lparr>ev_curr_evh := x\<rparr>, map (\<lambda>a. eh_cb (ev_heap st ! a)) as)"
      using ev_run_dispatch_quiet [OF p _ q, of ?st] by auto
    have e: "ev_run acts 1 [EndGenerate] (?st\<lparr>ev_curr_evh := x\<rparr>) = Some (ev_clear_cache (?st\<lparr>ev_curr_evh := x\<rparr>), [])"
      by (simp add: ev_run.simps)
    show ?thesis
    proof (cases "el_handlers evl = None")
      case True
      then show ?thesis using g ls assms(2) by (intro exI [of _ 1] exI [of _ st]) (simp add: ev_run.simps)
    next
      case False
      then have step: "ev_step acts (Call (Generate (Some ev))) st =
          Some ([Dispatch (el_handlers evl)] @ [EndGenerate], ?st, [])" using g by simp
      from ev_run_one [OF step, of "n + 1" "[]"] ev_run_append [OF r e] l show ?thesis
        by (intro exI [of _ "Suc (n + 1)"] exI [of _ "ev_clear_cache (?st\<lparr>ev_curr_evh := x\<rparr>)"])
           (simp add: ev_clear_cache_def comp_def)
    qed
  qed
qed

theorem pr_event_generate_calls_listeners_witness:
  "\<exists>st n st'. pr_event_register None (Some ''core.exit'') (Some 7) 0 ev_init = Some (Inr (), st) \<and>
     ev_run (\<lambda>_. []) n [Call (Generate (Some ''core.exit''))] st = Some (st', [7])"
proof -
  obtain st where "pr_event_register None (Some ''core.exit'') (Some 7) 0 ev_init = Some (Inr (), st)"
    "ev_reach (\<lambda>_. []) st" "ev_curr_event st = None" "ev_listeners st ''core.exit'' = [(None, 7)]" by (rule ev_one_listener)
  then show ?thesis using pr_event_generate_calls_listeners [of "\<lambda>_. []" st "''core.exit''"] by auto
qed

lemma ev_run_cached:
  assumes p: "evh_path (ev_heap st) p as" and q: "\<forall>a \<in> set as. acts (eh_cb (ev_heap st ! a)) = []"
    and c: "ev_curr_event st = Some ev" "ev_curr_evh st = p" "ev_curr_evl st = Suc (length rest)"
    and evls: "ev_events st = pre @ evl # rest" and evl: "evl_is evl ev" "el_handlers evl \<noteq> None"
  shows "\<exists>n st' cbs. ev_run acts n [Call (Generate (Some ev))] st = Some (st', cbs) \<and>
           ev_heap st' = ev_heap st \<and> ev_events st' = ev_events st \<and> ev_curr_event st' = None"
proof -
  have step: "ev_step acts (Call (Generate (Some ev))) st = Some ([Dispatch p] @ [EndGenerate], st, [])"
    using c evls evl by (simp add: pr_event_generate_def)
  obtain n x where r: "ev_run acts n [Dispatch p] st =
      Some (st\<lparr>ev_curr_evh := x\<rparr>, map (\<lambda>a. eh_cb (ev_heap st ! a)) as)"
    using ev_run_dispatch_quiet [OF p refl q] by blast
  have e: "ev_run acts 1 [EndGenerate] (st\<lparr>ev_curr_evh := x\<rparr>) = Some (ev_clear_cache (st\<lparr>ev_curr_evh := x\<rparr>), [])"
    by (simp add: ev_run.simps)
  from ev_run_one [OF step, of "n + 1" "[]"] ev_run_append [OF r e] show ?thesis
    by (intro exI [of _ "Suc (n + 1)"] exI [of _ "ev_clear_cache (st\<lparr>ev_curr_evh := x\<rparr>)"])
       (auto simp: ev_clear_cache_def)
qed

lemma ev_run_cached_second:
  assumes b: "b < length (ev_heap st)" "acts (eh_cb (ev_heap st ! b)) = [Generate (Some ev)]"
    and p: "evh_path (ev_heap st) (eh_next (ev_heap st ! b)) as"
    and q: "\<forall>a \<in> set as. acts (eh_cb (ev_heap st ! a)) = []"
    and c: "ev_curr_event st = Some ev" "ev_curr_evh st = Some b" "ev_curr_evl st = Suc (length rest)"
    and evls: "ev_events st = pre @ evl # rest" and evl: "evl_is evl ev" "el_handlers evl \<noteq> None"
  shows "\<exists>n st' cbs. ev_run acts n [Call (Generate (Some ev))] st = Some (st', cbs) \<and>
           ev_heap st' = ev_heap st \<and> ev_events st' = ev_events st \<and> ev_curr_event st' = None"
proof -
  let ?n = "eh_next (ev_heap st ! b)" let ?sta = "st\<lparr>ev_curr_evh := ?n\<rparr>"
  have s1: "ev_step acts (Call (Generate (Some ev))) st = Some ([Dispatch (Some b)] @ [EndGenerate], st, [])"
    using c evls evl by (simp add: pr_event_generate_def)
  have s2: "ev_step acts (Dispatch (Some b)) st = Some ([Call (Generate (Some ev))] @ [Advance b], ?sta, [eh_cb (ev_heap st ! b)])"
    using b by simp
  obtain n stb cbs where r: "ev_run acts n [Call (Generate (Some ev))] ?sta = Some (stb, cbs)"
    and stb: "ev_heap stb = ev_heap st" "ev_events stb = ev_events st" "ev_curr_event stb = None"
    using ev_run_cached [of ?sta ?n as acts ev rest pre evl] p q c evls evl by auto
  obtain k x where d: "ev_run acts k [Dispatch ?n] stb =
      Some (stb\<lparr>ev_curr_evh := x\<rparr>, map (\<lambda>a. eh_cb (ev_heap stb ! a)) as)"
    using ev_run_dispatch_quiet [of "ev_heap stb" ?n as stb acts] p q stb by auto
  have e: "ev_run acts 1 [EndGenerate] (stb\<lparr>ev_curr_evh := x\<rparr>) = Some (ev_clear_cache (stb\<lparr>ev_curr_evh := x\<rparr>), [])"
    by (simp add: ev_run.simps)
  have adv: "ev_step acts (Advance b) stb = Some ([Dispatch ?n], stb, [])" using stb by simp
  from ev_run_append [OF r ev_run_one [OF adv, of "k + 1" "[EndGenerate]"]] ev_run_append [OF d e]
  have "ev_run acts (n + Suc (k + 1)) (([Call (Generate (Some ev))] @ [Advance b]) @ [EndGenerate]) ?sta =
      Some (ev_clear_cache (stb\<lparr>ev_curr_evh := x\<rparr>), cbs @ map (\<lambda>a. eh_cb (ev_heap stb ! a)) as)" by simp
  from ev_run_one [OF s1, of _ "[]"] ev_run_one [OF s2 this] show ?thesis
    using stb by (fastforce simp: ev_clear_cache_def)
qed

lemma ev_run_circular:
  assumes evls: "evls = pre @ evl # rest" and evl: "\<forall>e \<in> set pre. \<not> evl_is e ev" "evl_is evl ev" "el_handlers evl = Some a"
    and a: "eh_next (hs ! a) = Some b" "acts (eh_cb (hs ! a)) = [Generate (Some ev)]"
    and b: "b < length hs" "acts (eh_cb (hs ! b)) = [Generate (Some ev)]"
    and p: "evh_path hs (eh_next (hs ! b)) as" and q: "\<forall>a \<in> set as. acts (eh_cb (hs ! a)) = []"
  shows "ev_heap st = hs \<Longrightarrow> ev_events st = evls \<Longrightarrow> ev_curr_event st = None
           \<Longrightarrow> ev_run acts n (Call (Generate (Some ev)) # ts) st = None"
proof (induction n arbitrary: st ts rule: less_induct)
  case (less n)
  let ?g = "Call (Generate (Some ev))"
  let ?st = "st\<lparr>ev_curr_event := Some ev, ev_curr_evl := Suc (length rest), ev_curr_evh := Some b\<rparr>"
  show ?case
  proof (rule ccontr)
    assume "ev_run acts n (?g # ts) st \<noteq> None"
    moreover have "dropWhile (\<lambda>evl. \<not> evl_is evl ev) evls = evl # rest"
      using evl by (simp add: evls dropWhile_append3)
    ultimately obtain k st' c where k: "n = Suc k"
      and r1: "ev_run acts k (Dispatch (Some a) # EndGenerate # ts) (st\<lparr>ev_curr_event := Some ev, ev_curr_evl := Suc (length rest)\<rparr>) = Some (st', c)"
      using less.prems evl(3) evls
      by (cases n) (auto simp: ev_run.simps pr_event_generate_def split: option.splits)
    then obtain j c' where j: "k = Suc j" and r2: "ev_run acts j ([?g] @ (Advance a # EndGenerate # ts)) ?st = Some (st', c')"
      using less.prems a by (cases k) (auto simp: ev_run.simps split: option.splits)
    obtain m stb cbs where m: "ev_run acts m [?g] ?st = Some (stb, cbs)"
      and stb: "ev_heap stb = hs" "ev_events stb = evls" "ev_curr_event stb = None"
      using ev_run_cached_second [of b ?st acts ev as rest pre evl] less.prems b p q evls evl by auto
    obtain i c2 where i: "ev_run acts i (Advance a # EndGenerate # ts) stb = Some (st', c2)" "i < n"
      using ev_run_split [OF r2 m] j k by auto
    then obtain i' c3 where i': "i = Suc i'" "ev_run acts i' (Dispatch (Some b) # EndGenerate # ts) stb = Some (st', c3)"
      using stb a by (cases i) (auto simp: ev_run.simps split: option.splits)
    then obtain h c4 where h: "i' = Suc h"
      and r3: "ev_run acts h (?g # Advance b # EndGenerate # ts) (stb\<lparr>ev_curr_evh := eh_next (hs ! b)\<rparr>) = Some (st', c4)"
      using stb b by (cases i') (auto simp: ev_run.simps split: option.splits)
    have "ev_run acts h (?g # Advance b # EndGenerate # ts) (stb\<lparr>ev_curr_evh := eh_next (hs ! b)\<rparr>) = None"
      by (rule less.IH) (use stb h i' i in auto)
    with r3 show False by simp
  qed
qed

text \<open>C38. Two listeners that pass the event on, by generating it again, keep calling each other: the cache that
  should send the event to the next listener is cleared by the inner call, so the second listener starts over at
  the head of the list. No amount of fuel gives a result.\<close>

theorem regenerating_listeners_never_return:
  assumes "ev_reach acts st" "ev_curr_event st = None"
    and ls: "ev_listeners st ev = (k, c) # (l, d) # ls"
    and regen: "acts c = [Generate (Some ev)]" "acts d = [Generate (Some ev)]"
    and quiet: "\<forall>(m, cb) \<in> set ls. acts cb = []"
  shows "ev_run acts n [Call (Generate (Some ev))] st = None"
proof -
  obtain own where ok: "ev_ok own st" and okh: "ev_heap_ok own (ev_heap st)"
    using ev_reach_inv [OF assms(1)] by (auto simp: ev_inv_def ev_ok_def)
  obtain evl rest where dw: "dropWhile (\<lambda>evl. \<not> evl_is evl ev) (ev_events st) = evl # rest"
    and okl: "evl_ok own (ev_heap st) evl" and evl: "el_event evl = ev"
    and lse: "ev_listeners st ev = evl_listeners (ev_heap st) (el_handlers evl)"
    using ev_events_dropWhile [OF ok, of ev] ls by auto
  have evls: "ev_events st = takeWhile (\<lambda>evl. \<not> evl_is evl ev) (ev_events st) @ evl # rest"
    using takeWhile_dropWhile_id [of "\<lambda>evl. \<not> evl_is evl ev" "ev_events st"] dw by simp
  obtain as where p: "evh_path (ev_heap st) (el_handlers evl) as" using evl_ok_path [OF okh okl] .
  have l: "map (\<lambda>a. (eh_module (ev_heap st ! a), eh_cb (ev_heap st ! a))) as = (k, c) # (l, d) # ls"
    using lse ls evl_listeners_path [OF p okh] by simp
  then obtain a b as' where as: "as = a # b # as'" by (auto simp: map_eq_Cons_conv)
  have ph: "el_handlers evl = Some a" "eh_next (ev_heap st ! a) = Some b" "b < length (ev_heap st)"
      "evh_path (ev_heap st) (eh_next (ev_heap st ! b)) as'"
    using p unfolding as evh_path_Cons by auto
  show ?thesis
    by (rule ev_run_circular [OF evls _ _ ph(1,2) _ ph(3) _ ph(4)])
       (use l as regen quiet evl okl assms(2) in \<open>auto simp: evl_ok_is dest: set_takeWhileD\<close>)
qed

theorem regenerating_listeners_never_return_witness:
  "\<exists>st st'. pr_event_register (Some (10, ''auth'')) (Some ''mod_auth.max-users'') (Some 7) 0 ev_init = Some (Inr (), st) \<and>
     pr_event_register (Some (11, ''ban'')) (Some ''mod_auth.max-users'') (Some 8) 0 st = Some (Inr (), st') \<and>
     ev_run (\<lambda>_. [Generate (Some ''mod_auth.max-users'')]) 1000 [Call (Generate (Some ''mod_auth.max-users''))] st' = None"
proof -
  let ?e = "''mod_auth.max-users''" let ?a = "\<lambda>_. [Generate (Some ?e)]"
  let ?evl = "\<lambda>h. \<lparr>el_event = ?e, el_event_len = length ?e, el_handlers = Some h\<rparr>"
  let ?st = "\<lparr>ev_heap = [evh_new (Some (10, ''auth'')) ?e 7 0], ev_events = [?evl 0],
    ev_curr_event = None, ev_curr_evl = 0, ev_curr_evh = None\<rparr>"
  let ?stb = "?st\<lparr>ev_heap := [evh_new (Some (10, ''auth'')) ?e 7 0, (evh_new (Some (11, ''ban'')) ?e 8 0)\<lparr>eh_next := Some 0\<rparr>],
    ev_events := [?evl 1]\<rparr>"
  have r: "pr_event_register (Some (10, ''auth'')) (Some ?e) (Some 7) 0 ev_init = Some (Inr (), ?st)"
    by (simp add: pr_event_register_def ev_init_def Let_def ev_clear_cache_def)
  have r2: "pr_event_register (Some (11, ''ban'')) (Some ?e) (Some 8) 0 ?st = Some (Inr (), ?stb)"
    by (simp add: pr_event_register_def Let_def evl_is_def c_strneq_def evl_add_def evh_scan.simps)
  have "ev_reach ?a ?st"
    by (rule ev_reach.call [OF ev_reach.init, of ?a 1 "Register (Some (10, ''auth'')) (Some ?e) (Some 7) 0"])
       (simp add: ev_run.simps r)
  then have st: "ev_reach ?a ?stb"
    by (rule ev_reach.call [of ?a _ 1 "Register (Some (11, ''ban'')) (Some ?e) (Some 8) 0"])
       (simp only: ev_run.simps One_nat_def ev_step.simps r2 option.case prod.case append.simps)
  have l: "ev_listeners ?stb ?e = [(Some (11, ''ban''), 8), (Some (10, ''auth''), 7)]"
    by (simp add: ev_listeners_def evl_listeners_def numeral_2_eq_2)
  have "ev_run ?a 1000 [Call (Generate (Some ?e))] ?stb = None"
    by (rule regenerating_listeners_never_return [OF st _ l]) simp_all
  with r r2 show ?thesis by blast
qed

section \<open>What removal does to the listeners\<close>

lemma evh_unlink_skip:
  "evh_path hs p as \<Longrightarrow> \<forall>a \<in> set as. \<not> is (hs ! a) \<Longrightarrow> evh_unlink is hs handlers p u = Some (hs, handlers, u)"
  by (induction rule: evh_path.induct) (subst evh_unlink.simps; simp)+

lemma evl_unregister_skip:
  "\<forall>e \<in> set evls. \<not> lis e \<Longrightarrow> evl_unregister lis is hs u evls = Some (hs, evls, u)"
  by (induction evls) auto

lemma evl_unregister_split:
  "\<forall>e \<in> set pre \<union> set post. \<not> lis e \<Longrightarrow> lis evl \<Longrightarrow>
     evl_unregister lis is hs u (pre @ evl # post) =
       (case evh_unlink is hs (el_handlers evl) (el_handlers evl) u of
          None \<Rightarrow> None
        | Some (hs', h, u') \<Rightarrow> Some (hs', pre @ evl\<lparr>el_handlers := h\<rparr> # post, u'))"
  by (induction pre) (auto simp: evl_unregister_skip split: option.splits)

lemma evh_is_cong: "eh_cb x = eh_cb y \<Longrightarrow> eh_module x = eh_module y \<Longrightarrow> evh_is m cb x = evh_is m cb y"
  by (simp add: evh_is_def)

lemma evl_unlink_head:
  assumes ok: "ev_heap_ok own hs" "evl_ok own hs evl" and p: "evh_path hs (el_handlers evl) (a # as)"
    and sel: "is (hs ! a)" "\<forall>b \<in> set as. \<not> is (hs ! b)" "\<And>x y. eh_cb x = eh_cb y \<Longrightarrow> eh_module x = eh_module y \<Longrightarrow> is x = is y"
  shows "\<exists>hs'. evh_unlink is hs (el_handlers evl) (el_handlers evl) u = Some (hs', eh_next (hs ! a), True) \<and>
           evl_listeners hs' (eh_next (hs ! a)) = tl (evl_listeners hs (el_handlers evl))"
proof -
  have h: "el_handlers evl = Some a" and a: "a < length hs" and p': "evh_path hs (eh_next (hs ! a)) as"
    using p unfolding evh_path_Cons by auto
  have prev: "eh_prev (hs ! a) = None" using ok(2) h by (simp add: evl_ok_def)
  obtain hs' h' where r: "evh_remove hs (Some a) a = (hs', h')" by fastforce
  note eqs = evh_remove_eq [OF ok(1) a r]
  have h': "h' = eh_next (hs ! a)" using eqs(2) prev by simp
  note pn = evh_remove_path [OF ok(1) a r p']
  have "a \<notin> set as" using evh_path_distinct [OF p ok(1)] by simp
  then have same: "eh_cb (hs' ! b) = eh_cb (hs ! b) \<and> eh_module (hs' ! b) = eh_module (hs ! b)" if "b \<in> set as" for b
    using eqs(3) [OF evh_path_bounded [OF p' that]] that by auto
  have "\<forall>b \<in> set as. \<not> is (hs' ! b)" using sel(2,3) same by blast
  note u = evh_unlink_skip [OF pn this, of h' True]
  have "evh_unlink is hs (Some a) (Some a) u = Some (hs', eh_next (hs ! a), True)"
    using sel(1) r u h' by (subst evh_unlink.simps) simp
  moreover have "evl_listeners hs' (eh_next (hs ! a)) = tl (evl_listeners hs (el_handlers evl))"
    using evl_listeners_path [OF pn evh_remove_ok(1) [OF ok(1) a r]] evl_listeners_path [OF p ok(1)] same by simp
  ultimately show ?thesis using h by simp
qed

text \<open>Unregistering the callback that comes first in the list, as the module loaded last does, removes exactly
  that one.\<close>

theorem pr_event_unregister_first:
  assumes "ev_reach acts st" and ls: "ev_listeners st ev = (m, cb) # ls" and once: "cb \<notin> snd ` set ls"
  shows "\<exists>st'. pr_event_unregister None (Some ev) (Some cb) st = Some (Inr (), st') \<and> ev_listeners st' ev = ls"
proof -
  obtain own where ok: "ev_ok own st" and okh: "ev_heap_ok own (ev_heap st)"
    using ev_reach_inv [OF assms(1)] by (auto simp: ev_inv_def ev_ok_def)
  have "ev \<in> el_event ` set (ev_events st)"
    using ls evls_listeners_none unfolding ev_listeners_def by fastforce
  then obtain pre evl post where evls: "ev_events st = pre @ evl # post" and ev: "ev = el_event evl"
    using split_list by (metis imageE)
  have okl: "evl_ok own (ev_heap st) evl" and np: "el_event evl \<notin> el_event ` (set pre \<union> set post)"
    and okall: "\<forall>e \<in> set pre \<union> set post. evl_ok own (ev_heap st) e"
    using ok evls by (auto simp: ev_ok_def)
  then have npre: "el_event evl \<notin> el_event ` set pre" by auto
  have lis: "\<forall>e \<in> set pre \<union> set post. \<not> evl_is e ev" "evl_is evl ev"
    using notin_imageD [OF np] okall okl ev by (metis evl_ok_is singletonI)+
  have lse: "evl_listeners (ev_heap st) (el_handlers evl) = (m, cb) # ls"
    using ls npre by (simp add: ev_listeners_def evls ev evls_listeners_split)
  obtain as0 where p0: "evh_path (ev_heap st) (el_handlers evl) as0" using evl_ok_path [OF okh okl] .
  note l = lse [unfolded evl_listeners_path [OF p0 okh]]
  then obtain a as where as: "as0 = a # as" by auto
  have sel: "evh_is None (Some cb) (ev_heap st ! a)" "\<forall>b \<in> set as. \<not> evh_is None (Some cb) (ev_heap st ! b)"
    using l once unfolding as by (force simp: evh_is_def image_iff)+
  obtain hs' where u: "evh_unlink (evh_is None (Some cb)) (ev_heap st) (el_handlers evl) (el_handlers evl) False =
      Some (hs', eh_next (ev_heap st ! a), True)" and l': "evl_listeners hs' (eh_next (ev_heap st ! a)) = ls"
    using evl_unlink_head [OF okh okl p0 [unfolded as] sel evh_is_cong, of False] lse by auto
  show ?thesis
    using u l' npre lis evl_unregister_split [of pre post "\<lambda>evl. evl_is evl ev" evl "evh_is None (Some cb)" "ev_heap st" False]
    by (simp add: pr_event_unregister_def evls ev ev_listeners_def ev_clear_cache_def evls_listeners_split)
qed

theorem pr_event_unregister_first_witness:
  "\<exists>st st'. pr_event_register None (Some ''core.exit'') (Some 7) 0 ev_init = Some (Inr (), st) \<and>
     pr_event_unregister None (Some ''core.exit'') (Some 7) st = Some (Inr (), st') \<and> ev_listeners st' ''core.exit'' = []"
proof -
  obtain st where "pr_event_register None (Some ''core.exit'') (Some 7) 0 ev_init = Some (Inr (), st)"
    "ev_reach (\<lambda>_. []) st" "ev_listeners st ''core.exit'' = [(None, 7)]" by (rule ev_one_listener)
  then show ?thesis using pr_event_unregister_first [of "\<lambda>_. []" st "''core.exit''" None 7 "[]"] by auto
qed

text \<open>C37. Unregistering another one does not: \<open>pr_event_register\<close> links a new head without setting the \<open>prev\<close> field
  of the old one. After two modules have registered, the removal of the first registration takes the old head for the
  head and drops the second one too.\<close>

theorem pr_event_unregister_loses_listener:
  assumes "c \<noteq> d"
  shows "\<exists>st st' st''.
     pr_event_register (Some k) (Some ev) (Some c) 0 ev_init = Some (Inr (), st) \<and>
     pr_event_register (Some l) (Some ev) (Some d) 0 st = Some (Inr (), st') \<and>
     ev_listeners st' ev = [(Some l, d), (Some k, c)] \<and>
     pr_event_unregister None (Some ev) (Some c) st' = Some (Inr (), st'') \<and> ev_listeners st'' ev = []"
proof -
  let ?evl = "\<lambda>h. \<lparr>el_event = ev, el_event_len = length ev, el_handlers = h\<rparr>"
  let ?st = "\<lparr>ev_heap = [evh_new (Some k) ev c 0], ev_events = [?evl (Some 0)],
    ev_curr_event = None, ev_curr_evl = 0, ev_curr_evh = None\<rparr>"
  let ?stb = "?st\<lparr>ev_heap := [evh_new (Some k) ev c 0, (evh_new (Some l) ev d 0)\<lparr>eh_next := Some 0\<rparr>],
    ev_events := [?evl (Some 1)]\<rparr>"
  let ?stc = "?stb\<lparr>ev_heap := [(evh_new (Some k) ev c 0)\<lparr>eh_module := None\<rparr>, (evh_new (Some l) ev d 0)\<lparr>eh_next := Some 0\<rparr>],
    ev_events := [?evl None]\<rparr>"
  have r: "pr_event_register (Some k) (Some ev) (Some c) 0 ev_init = Some (Inr (), ?st)"
    by (simp add: pr_event_register_def ev_init_def Let_def ev_clear_cache_def)
  have r2: "pr_event_register (Some l) (Some ev) (Some d) 0 ?st = Some (Inr (), ?stb)"
    using assms by (simp add: pr_event_register_def Let_def evl_is_def c_strneq_def evl_add_def evh_scan.simps)
  have u: "pr_event_unregister None (Some ev) (Some c) ?stb = Some (Inr (), ?stc)"
    using assms by (simp add: pr_event_unregister_def evl_is_def c_strneq_def evh_unlink.simps evh_is_def evh_remove_def
        ev_clear_cache_def)
  have "ev_listeners ?stb ev = [(Some l, d), (Some k, c)]" "ev_listeners ?stc ev = []"
    by (simp_all add: ev_listeners_def evl_listeners_def numeral_2_eq_2)
  with r r2 u show ?thesis by blast
qed

theorem pr_event_unregister_loses_listener_witness:
  "\<exists>st st' st''.
     pr_event_register (Some (10, ''auth'')) (Some ''core.exit'') (Some 7) 0 ev_init = Some (Inr (), st) \<and>
     pr_event_register (Some (11, ''ban'')) (Some ''core.exit'') (Some 8) 0 st = Some (Inr (), st') \<and>
     ev_listeners st' ''core.exit'' = [(Some (11, ''ban''), 8), (Some (10, ''auth''), 7)] \<and>
     pr_event_unregister None (Some ''core.exit'') (Some 7) st' = Some (Inr (), st'') \<and>
     ev_listeners st'' ''core.exit'' = []"
  by (rule pr_event_unregister_loses_listener) simp

end
