(* ===== verification/Fspath.thy ===== *)
theory Fspath
  imports Strs
begin

text \<open>
  The path functions of \<open>src/fsio.c\<close>: joining, cleaning, tilde expansion and the virtual path. Paths are
  texts without the terminator. The fixed buffers of \<open>PR_TUNABLE_PATH_MAX + 1\<close> bytes and the truncation by
  \<open>sstrncpy\<close> and \<open>sstrcat\<close> are part of the model.
\<close>

section \<open>Buffers\<close>

definition PR_TUNABLE_PATH_MAX :: nat where "PR_TUNABLE_PATH_MAX = 4096"
definition PR_TUNABLE_LOGIN_MAX :: nat where "PR_TUNABLE_LOGIN_MAX = 256"

text \<open>The text that \<open>sstrncpy\<close> and \<open>sstrcat\<close> leave in a destination of its own.\<close>

definition cpy :: "nat \<Rightarrow> string \<Rightarrow> string" where
  "cpy n s = take (n - 1) s"

definition cat :: "string \<Rightarrow> string \<Rightarrow> nat \<Rightarrow> string" where
  "cat d s n = (case sstrcat (Some d) (Some s) n of Inr t \<Rightarrow> t | Inl e \<Rightarrow> d)"

lemma cpy_sstrncpy: "0 < n \<Longrightarrow> a \<noteq> b \<Longrightarrow> snd (sstrncpy (Some (a, d)) (Some (b, s)) n) = Some (a, cpy n s)"
  by (simp add: sstrncpy_def cpy_def)

section \<open>Joining\<close>

text \<open>\<open>sstrcat\<close> with a length of type \<open>int\<close>, converted to \<open>size_t\<close>: a negative one is larger than any text.\<close>

definition cat_int :: "string \<Rightarrow> string \<Rightarrow> int \<Rightarrow> string" where
  "cat_int d s n = (if n < 0 then d @ s else cat d s (nat n))"

text \<open>\<open>pr_fs_dircat\<close> with the text of the buffer before and after. The two directories are not in the buffer.
  \<open>None\<close> is an access outside of the buffer.\<close>

definition pr_fs_dircat ::
  "string option \<Rightarrow> int \<Rightarrow> string option \<Rightarrow> string option \<Rightarrow> (unit result \<times> string option) option" where
  "pr_fs_dircat buf buflen dir1 dir2 =
     (case (buf, dir1, dir2) of
        (Some _, Some a, Some b) \<Rightarrow>
          (if buflen < 2 then Some (Inl EINVAL, buf)
           else if a = [] \<and> b = [] then Some (Inr (), Some ''/'')
           else if a = [] \<or> b = [] then
             (let d = a @ b; t = cat_int (cpy (nat buflen) d) ''/'' (buflen - int (length d))
              in if int (length t) < buflen then Some (Inr (), Some t) else None)
           else if length a + length b + 1 \<ge> PR_TUNABLE_PATH_MAX then Some (Inl ENAMETOOLONG, Some [])
           else if take 1 b = ''/'' then Some (Inr (), Some (cpy (nat buflen) b))
           else
             (let t = cpy (nat buflen) a; room = buflen - int (length a) in
              if room < 0 then None
              else
                (let slash = (room > 0 \<and> last a \<noteq> CHR ''/'');
                     t1 = (if slash then t @ cat [] ''/'' (nat room) else t);
                     room1 = (if slash then room - 1 else room);
                     t2 = t1 @ (if room1 > 0 then cat [] b (nat room1) else [])
                 in Some (Inr (), Some (if t2 = [] then ''/'' else t2)))))
      | _ \<Rightarrow> Some (Inl EINVAL, buf))"

section \<open>Cleaning\<close>

text \<open>The removal of the last component: everything from the last slash on, or all of the path.\<close>

definition path_up :: "string \<Rightarrow> string" where
  "path_up work = rev (tl (dropWhile (\<lambda>c. c \<noteq> CHR ''/'') (rev work)))"

text \<open>The main loop of \<open>pr_fs_clean_path2\<close>; \<open>make_abs\<close> is the flag \<open>PR_FSIO_CLEAN_PATH_FL_MAKE_ABS_PATH\<close>.\<close>

function clean_loop :: "bool \<Rightarrow> string \<Rightarrow> string \<Rightarrow> bool \<Rightarrow> string" where
  "clean_loop make_abs whr work have_abs =
     (if whr = [] then work
      else if c_strneq whr ''.'' 2 then clean_loop make_abs (drop 1 whr) work have_abs
      else if c_strneq whr ''./'' 2 then clean_loop make_abs (drop 2 whr) work have_abs
      else if c_strneq whr ''..'' 3 then clean_loop make_abs (drop 2 whr) (path_up work) have_abs
      else if c_strneq whr ''../'' 3 then clean_loop make_abs (drop 3 whr) (path_up work) have_abs
      else
        (let name = takeWhile (\<lambda>c. c \<noteq> CHR ''/'') whr;
             rest = drop (length name + 1) whr;
             base = cpy (PR_TUNABLE_PATH_MAX + 1) work;
             namebuf = (if base \<noteq> []
                        then (if last base \<noteq> CHR ''/'' then cat base ''/'' PR_TUNABLE_PATH_MAX else base)
                        else (if have_abs \<or> make_abs then cat base ''/'' PR_TUNABLE_PATH_MAX else base));
             have_abs' = (if base = [] \<and> (have_abs \<or> make_abs) then False else have_abs)
         in clean_loop make_abs rest (cpy (PR_TUNABLE_PATH_MAX + 1) (cat namebuf name PR_TUNABLE_PATH_MAX)) have_abs'))"
  by pat_completeness auto
termination
  by (relation "measure (\<lambda>(_, whr, _, _). length whr)") (auto simp: Let_def)

declare clean_loop.simps [simp del]

definition pr_fs_clean_path2 :: "string option \<Rightarrow> string option \<Rightarrow> nat \<Rightarrow> bool \<Rightarrow> unit result \<times> string option" where
  "pr_fs_clean_path2 path buf buflen make_abs =
     (case (path, buf) of
        (Some p, Some _) \<Rightarrow>
          (if buflen = 0 then (Inr (), buf)
           else
             (let curpath = cpy (PR_TUNABLE_PATH_MAX + 1) p;
                  work = clean_loop make_abs curpath [] (take 1 curpath = ''/'');
                  work' = (if work = [] then ''/'' else work)
              in (Inr (), Some (cpy buflen work'))))
      | _ \<Rightarrow> (Inl EINVAL, buf))"

definition pr_fs_clean_path :: "string option \<Rightarrow> string option \<Rightarrow> nat \<Rightarrow> string option" where
  "pr_fs_clean_path path buf buflen = snd (pr_fs_clean_path2 path buf buflen True)"

section \<open>Tilde expansion\<close>

text \<open>What the functions below read of the session.\<close>

record fs_session =
  ss_chroot_path :: "string option"
  ss_user :: string

text \<open>\<open>pr_fs_interpolate\<close>: the return value and the text of the buffer. \<open>exists\<close> stands for a successful
  \<open>pr_fsio_stat\<close>, \<open>getpwnam\<close> for \<open>pr_auth_getpwnam\<close> and gives the home directory. \<open>None\<close> is the read before the
  start of the buffer for an empty home directory.\<close>

definition tilde_user :: "fs_session \<Rightarrow> (string \<Rightarrow> bool) \<Rightarrow> string \<Rightarrow> string option" where
  "tilde_user ss exists path =
     (let name = takeWhile (\<lambda>c. c \<noteq> CHR ''/'') path; m = PR_TUNABLE_LOGIN_MAX in
      if name = path
      then (if exists path then None
            else Some (let n = length path - 1 in if n = 0 then [] else cpy (if n > m then m else n) (tl path)))
      else Some (if length name > 1 then cpy (if length name > m then m else length name) (tl path) else []))"

definition pr_fs_interpolate ::
  "fs_session \<Rightarrow> (string \<Rightarrow> bool) \<Rightarrow> (string \<Rightarrow> string option) \<Rightarrow> string option \<Rightarrow> string \<Rightarrow> nat
     \<Rightarrow> (int result \<times> string) option" where
  "pr_fs_interpolate ss exists getpwnam path buf buflen =
     (case path of
        None \<Rightarrow> Some (Inl EINVAL, buf)
      | Some p \<Rightarrow>
          (if take 1 p \<noteq> ''~'' then Some (Inr 1, if buflen = 0 then buf else cpy buflen p)
           else if p = ''~'' \<and> ss_chroot_path ss \<noteq> None
             then Some (Inr 1, if buflen = 0 then buf else cpy buflen (the (ss_chroot_path ss)))
           else
             (case tilde_user ss exists p of
                None \<Rightarrow> Some (Inr 0, buf)
              | Some u \<Rightarrow>
                  (let user = (if u = [] \<and> ss_chroot_path ss = None then cpy PR_TUNABLE_LOGIN_MAX (ss_user ss) else u);
                       home = (if user = [] then Some ''/'' else getpwnam user);
                       rest = dropWhile (\<lambda>c. c \<noteq> CHR ''/'') p
                   in case home of
                        None \<Rightarrow> Some (Inl ENOENT, buf)
                      | Some h \<Rightarrow>
                          (let b = (if buflen = 0 then buf else cpy buflen h) in
                           if rest = [] then Some (Inr 1, b)
                           else if length b < buflen \<and> b = [] then None
                           else
                             (let b1 = (if length b < buflen \<and> last b \<noteq> CHR ''/'' then b @ ''/'' else b);
                                  room = buflen - length b1
                              in Some (Inr 1, if room = 0 then b1 else b1 @ cpy room (tl rest))))))))"

section \<open>The virtual path\<close>

function virtual_loop :: "string \<Rightarrow> string \<Rightarrow> string" where
  "virtual_loop whr work =
     (if whr = [] then work
      else if c_strneq whr ''.'' 2 then virtual_loop (drop 1 whr) work
      else if c_strneq whr ''./'' 2 then virtual_loop (drop 2 whr) work
      else if c_strneq whr ''..'' 3 then virtual_loop (drop 2 whr) (path_up work)
      else if c_strneq whr ''../'' 3 then virtual_loop (drop 3 whr) (path_up work)
      else
        (let name = takeWhile (\<lambda>c. c \<noteq> CHR ''/'') whr;
             rest = drop (length name + 1) whr;
             base = cpy (PR_TUNABLE_PATH_MAX + 1) work;
             namebuf = (if base \<noteq> []
                        then (if last base \<noteq> CHR ''/'' then cat base ''/'' PR_TUNABLE_PATH_MAX else base)
                        else cat base ''/'' PR_TUNABLE_PATH_MAX)
         in virtual_loop rest (cpy (PR_TUNABLE_PATH_MAX + 1) (cat namebuf name PR_TUNABLE_PATH_MAX))))"
  by pat_completeness auto
termination
  by (relation "measure (\<lambda>(whr, _). length whr)") (auto simp: Let_def)

declare virtual_loop.simps [simp del]

text \<open>\<open>pr_fs_virtual_path\<close>. The call of \<open>pr_fs_interpolate\<close> fills \<open>curpath\<close>, and its success has the path copied
  over the expansion.\<close>

definition pr_fs_virtual_path ::
  "fs_session \<Rightarrow> (string \<Rightarrow> bool) \<Rightarrow> (string \<Rightarrow> string option) \<Rightarrow> string \<Rightarrow> string option \<Rightarrow> string \<Rightarrow> nat \<Rightarrow> string option"
where
  "pr_fs_virtual_path ss exists getpwnam vwd path buf buflen =
     (case path of
        None \<Rightarrow> Some buf
      | Some p \<Rightarrow>
          (case pr_fs_interpolate ss exists getpwnam path [] PR_TUNABLE_PATH_MAX of
             None \<Rightarrow> None
           | Some (r, expanded) \<Rightarrow>
               (let curpath = (case r of Inr _ \<Rightarrow> cpy (PR_TUNABLE_PATH_MAX + 1) p | Inl _ \<Rightarrow> expanded);
                    work = (if take 1 curpath \<noteq> ''/'' then cpy (PR_TUNABLE_PATH_MAX + 1) vwd else []);
                    res = virtual_loop curpath work;
                    res' = (if res = [] then ''/'' else res)
                in Some (if buflen = 0 then buf else cpy buflen res'))))"

section \<open>Checks\<close>

text \<open>\<open>chroot_allow_path\<close>: the directories \<open>/etc\<close> and \<open>/lib\<close> of a chroot.\<close>

definition chroot_allow_path :: "string \<Rightarrow> unit result" where
  "chroot_allow_path path =
     (if length path < 4 then Inr ()
      else if length path = 4
        then (if path = ''/etc'' \<or> path = ''/lib'' then Inl EACCES else Inr ())
      else (if c_strneq path ''/etc/'' 5 \<or> c_strneq path ''/lib/'' 5 then Inl EACCES else Inr ()))"

text \<open>\<open>pr_fs_valid_path\<close> with the paths of the registered filesystems.\<close>

definition pr_fs_valid_path :: "string list \<Rightarrow> string \<Rightarrow> unit result" where
  "pr_fs_valid_path fs_map path =
     (if (\<exists>fs \<in> set fs_map. c_strneq fs path (length fs)) \<or> take 1 path = ''/'' then Inr () else Inl EINVAL)"

section \<open>Components of a path\<close>

text \<open>The components between slashes, empty ones included, and what a path means: empty components and dots are
  passed over, a double dot drops the component before it.\<close>

fun psplit :: "string \<Rightarrow> string list" where
  "psplit [] = [[]]"
| "psplit (c # cs) = (if c = CHR ''/'' then [] # psplit cs else (c # hd (psplit cs)) # tl (psplit cs))"

definition path_step :: "string list \<Rightarrow> string \<Rightarrow> string list" where
  "path_step st c = (if c = [] \<or> c = ''.'' then st else if c = ''..'' then butlast st else st @ [c])"

definition canonical :: "string \<Rightarrow> string list" where
  "canonical path = foldl path_step [] (psplit path)"

definition pjoin :: "string list \<Rightarrow> string" where
  "pjoin st = concat (map (Cons CHR ''/'') st)"

definition render :: "string list \<Rightarrow> string" where
  "render st = (if st = [] then ''/'' else pjoin st)"

definition is_name :: "string \<Rightarrow> bool" where
  "is_name c \<longleftrightarrow> c \<noteq> [] \<and> CHR ''/'' \<notin> set c \<and> c \<noteq> ''.'' \<and> c \<noteq> ''..''"

lemma psplit_not_Nil [simp]: "psplit s \<noteq> []"
  by (induction s) auto

lemma psplit_append: "psplit (u @ CHR ''/'' # v) = psplit u @ psplit v"
  by (induction u) auto

lemma psplit_noslash: "CHR ''/'' \<notin> set s \<Longrightarrow> psplit s = [s]"
  by (induction s) auto

lemma psplit_members: "c \<in> set (psplit s) \<Longrightarrow> CHR ''/'' \<notin> set c"
proof (induction s arbitrary: c)
  case (Cons a s)
  then show ?case by (cases "psplit s") (auto split: if_splits)
qed simp

lemma pjoin_snoc [simp]: "pjoin (st @ [c]) = pjoin st @ CHR ''/'' # c" "pjoin [] = []"
  by (simp_all add: pjoin_def)

lemma pjoin_eq_Nil [simp]: "pjoin st = [] \<longleftrightarrow> st = []" "[] = pjoin st \<longleftrightarrow> st = []"
  by (cases st; auto simp: pjoin_def)+

lemma psplit_pjoin: "(\<And>c. c \<in> set st \<Longrightarrow> CHR ''/'' \<notin> set c) \<Longrightarrow> psplit (pjoin st) = [] # st"
proof (induction st rule: rev_induct)
  case (snoc c st)
  then show ?case by (simp add: psplit_append psplit_noslash)
qed simp

text \<open>The first component, as the loops find it.\<close>

lemma takeWhile_noslash: "CHR ''/'' \<notin> set (takeWhile (\<lambda>c. c \<noteq> CHR ''/'') s)"
  by (auto dest: set_takeWhileD)

lemma split_first:
  "CHR ''/'' \<in> set s \<Longrightarrow>
     s = takeWhile (\<lambda>c. c \<noteq> CHR ''/'') s @ CHR ''/'' # drop (length (takeWhile (\<lambda>c. c \<noteq> CHR ''/'') s) + 1) s"
  by (induction s) auto

lemma drop_first_noslash:
  "CHR ''/'' \<notin> set s \<Longrightarrow> takeWhile (\<lambda>c. c \<noteq> CHR ''/'') s = s"
  by (induction s) auto

lemma takeWhile_first:
  "CHR ''/'' \<notin> set s \<Longrightarrow> takeWhile (\<lambda>c. c \<noteq> CHR ''/'') (s @ CHR ''/'' # t) = s"
  by (induction s) auto

lemma path_up_noslash: "CHR ''/'' \<notin> set c \<Longrightarrow> path_up (w @ CHR ''/'' # c) = w"
  unfolding path_up_def by (subst rev_append, subst rev.simps(2), subst append_assoc, subst dropWhile_append2) auto

lemma path_up_Nil [simp]: "path_up [] = []"
  by (simp add: path_up_def)

lemma path_up_cases: "path_up w = [] \<or> (\<exists>c. w = path_up w @ CHR ''/'' # c \<and> CHR ''/'' \<notin> set c)"
proof (cases "CHR ''/'' \<in> set w")
  case True
  then obtain u v where "w = u @ CHR ''/'' # v" "CHR ''/'' \<notin> set v" using split_list_last by metis
  then show ?thesis using path_up_noslash by metis
next
  case False
  then have d: "dropWhile (\<lambda>c. c \<noteq> CHR ''/'') (rev w) = []" by auto
  show ?thesis unfolding path_up_def d by simp
qed

lemma length_path_up: "length (path_up w) \<le> length w"
  using path_up_cases [of w] by (metis le_add1 length_append list.size(3) zero_le)

section \<open>Copying within bounds\<close>

lemma cpy_fits [simp]: "length s < n \<Longrightarrow> cpy n s = s"
  by (simp add: cpy_def)

lemma cat_fits [simp]: "length d + length s < n \<Longrightarrow> cat d s n = d @ s"
  by (cases "n = 1") (auto simp: cat_def sstrcat_def)

section \<open>The loop\<close>

lemma c_strneq_dot: "c_strneq s ''.'' 2 \<longleftrightarrow> s = ''.''" "c_strneq s ''..'' 3 \<longleftrightarrow> s = ''..''"
  "c_strneq s ''./'' 2 \<longleftrightarrow> (\<exists>t. s = ''.'' @ CHR ''/'' # t)" "c_strneq s ''../'' 3 \<longleftrightarrow> (\<exists>t. s = ''..'' @ CHR ''/'' # t)"
proof -
  have *: "P s" if "P []" "\<And>a. P [a]" "\<And>a b. P [a, b]" "\<And>a b c t. P (a # b # c # t)" for P :: "string \<Rightarrow> bool"
    using that by (metis list.exhaust)
  show "c_strneq s ''.'' 2 \<longleftrightarrow> s = ''.''" by (rule *) (auto simp: c_strneq_def)
  show "c_strneq s ''..'' 3 \<longleftrightarrow> s = ''..''" by (rule *) (auto simp: c_strneq_def)
  show "c_strneq s ''./'' 2 \<longleftrightarrow> (\<exists>t. s = ''.'' @ CHR ''/'' # t)" by (rule *) (auto simp: c_strneq_def)
  show "c_strneq s ''../'' 3 \<longleftrightarrow> (\<exists>t. s = ''..'' @ CHR ''/'' # t)" by (rule *) (auto simp: c_strneq_def)
qed

text \<open>The buffer after a name has been appended, when it fits.\<close>

definition append_name :: "string \<Rightarrow> string \<Rightarrow> string" where
  "append_name work name = (if work \<noteq> [] \<and> last work = CHR ''/'' then work @ name else work @ CHR ''/'' # name)"

text \<open>What the loop does with the next component, when everything fits.\<close>

lemma clean_loop_Nil [simp]: "clean_loop m [] work a = work"
  by (subst clean_loop.simps) simp

lemma clean_loop_dot:
  "clean_loop m ''.'' work a = work"
  "clean_loop m (''.'' @ CHR ''/'' # rest) work a = clean_loop m rest work a"
  "clean_loop m ''..'' work a = path_up work"
  "clean_loop m (''..'' @ CHR ''/'' # rest) work a = clean_loop m rest (path_up work) a"
  by (subst clean_loop.simps, simp add: c_strneq_dot)+

lemma clean_loop_name:
  assumes n: "CHR ''/'' \<notin> set name" "name \<noteq> ''.''" "name \<noteq> ''..''"
    and fits: "length work + length name + 1 < PR_TUNABLE_PATH_MAX"
  shows "clean_loop True (name @ CHR ''/'' # rest) work a = clean_loop True rest (append_name work name) (if work = [] then False else a)"
    and "name \<noteq> [] \<Longrightarrow> clean_loop True name work a = append_name work name"
proof -
  let ?w = "name @ CHR ''/'' # rest"
  have tw: "takeWhile (\<lambda>c. c \<noteq> CHR ''/'') ?w = name" using n(1) by (rule takeWhile_first)
  have sl: "CHR ''/'' \<in> set ?w" by simp
  have dt: "?w \<noteq> d @ CHR ''/'' # t" if "d \<noteq> name" "CHR ''/'' \<notin> set d" for d t
    using tw takeWhile_first [OF that(2), of t] that(1) by metis
  have ne: "\<not> c_strneq ?w ''.'' 2" "\<not> c_strneq ?w ''..'' 3" "\<not> c_strneq ?w ''./'' 2" "\<not> c_strneq ?w ''../'' 3"
    using sl dt [of "''.''"] dt [of "''..''"] n unfolding c_strneq_dot by force+
  let ?p = PR_TUNABLE_PATH_MAX
  have b: "cpy (?p + 1) work = work" "cat work ''/'' ?p = work @ ''/''" "cat (work @ ''/'') name ?p = work @ CHR ''/'' # name"
    "cat work name ?p = work @ name" "cpy (?p + 1) (append_name work name) = append_name work name"
    using fits by (simp_all add: append_name_def)
  show "clean_loop True ?w work a = clean_loop True rest (append_name work name) (if work = [] then False else a)"
    using b by (subst clean_loop.simps)
      (cases "work = []"; cases "last work = CHR ''/''"; simp add: ne tw Let_def append_name_def)
  assume nn: "name \<noteq> []"
  have tw2: "takeWhile (\<lambda>c. c \<noteq> CHR ''/'') name = name" using n(1) by (rule drop_first_noslash)
  have ne2: "\<not> c_strneq name ''.'' 2" "\<not> c_strneq name ''..'' 3" "\<not> c_strneq name ''./'' 2" "\<not> c_strneq name ''../'' 3"
    using n unfolding c_strneq_dot by auto
  show "clean_loop True name work a = append_name work name"
    using b by (subst clean_loop.simps)
      (cases "work = []"; cases "last work = CHR ''/''"; simp add: ne2 tw2 nn Let_def append_name_def)
qed

definition clean_step :: "string \<Rightarrow> string \<Rightarrow> string" where
  "clean_step work c = (if c = ''.'' then work else if c = ''..'' then path_up work else append_name work c)"

definition trim_last :: "string list \<Rightarrow> string list" where
  "trim_last cs = (if last cs = [] then butlast cs else cs)"

lemma length_clean_step: "length (clean_step work c) \<le> length work + length c + 1"
  using length_path_up [of work] by (auto simp: clean_step_def append_name_def)

lemma trim_last_append: "vs \<noteq> [] \<Longrightarrow> trim_last (us @ vs) = us @ trim_last vs"
  by (simp add: trim_last_def butlast_append)

text \<open>The loop works through the components one by one; an empty one at the end is not looked at.\<close>

lemma clean_loop_foldl:
  "length work + length path + 1 < PR_TUNABLE_PATH_MAX
     \<Longrightarrow> clean_loop True path work a = foldl clean_step work (trim_last (psplit path))"
proof (induction "length path" arbitrary: path work a rule: less_induct)
  case less
  show ?case
  proof (cases "CHR ''/'' \<in> set path")
    case True
    let ?name = "takeWhile (\<lambda>c. c \<noteq> CHR ''/'') path"
    obtain rest where path: "path = ?name @ CHR ''/'' # rest" using split_first [OF True] by blast
    then have len: "length path = length ?name + 1 + length rest" by (metis One_nat_def add.assoc add_Suc_shift length_append list.size(4) plus_1_eq_Suc add.commute)
    have fits: "length (clean_step work ?name) + length rest + 1 < PR_TUNABLE_PATH_MAX"
      using length_clean_step [of work ?name] less.prems len by linarith
    have "trim_last (psplit path) = ?name # trim_last (psplit rest)"
      by (subst path, subst psplit_append, subst trim_last_append)
         (simp_all add: psplit_noslash [OF takeWhile_noslash])
    moreover have "clean_loop True rest (clean_step work ?name) b = foldl clean_step (clean_step work ?name) (trim_last (psplit rest))" for b
      by (rule less.hyps) (use len fits in auto)
    moreover have "\<exists>b. clean_loop True path work a = clean_loop True rest (clean_step work ?name) b"
      using clean_loop_name(1) [OF takeWhile_noslash, of path work rest a] clean_loop_dot(2,4) [of True rest work a] less.prems len path
      unfolding clean_step_def by (cases "?name = ''.''"; cases "?name = ''..''") auto
    ultimately show ?thesis by auto
  next
    case False
    then show ?thesis
      using clean_loop_name(2) [OF False, of work a] clean_loop_dot(1,3) [of True work a] less.prems
      by (cases "path = []"; cases "path = ''.''"; cases "path = ''..''")
         (auto simp: psplit_noslash trim_last_def clean_step_def)
  qed
qed

section \<open>What cleaning computes\<close>

definition work_for :: "string \<Rightarrow> string list \<Rightarrow> bool" where
  "work_for work st \<longleftrightarrow> (\<forall>c \<in> set st. is_name c) \<and> (work = pjoin st \<or> st = [] \<and> work = ''/'')"

lemma work_for_step:
  assumes w: "work_for work st" and c: "CHR ''/'' \<notin> set c" "c \<noteq> [] \<or> st = []"
  shows "work_for (clean_step work c) (path_step st c)"
proof -
  consider (dot) "c = ''.''" | (up) "c = ''..''" | (empty) "c = []" | (name) "is_name c"
    using c by (auto simp: is_name_def)
  then show ?thesis
  proof cases
    case dot
    then show ?thesis using w by (simp add: clean_step_def path_step_def)
  next
    case up
    show ?thesis
    proof (cases st rule: rev_cases)
      case Nil
      then have "path_up work = []" using w path_up_noslash [of "[]" "[]"] by (auto simp: work_for_def)
      then show ?thesis using up Nil by (simp add: clean_step_def path_step_def work_for_def)
    next
      case (snoc ys y)
      then have "path_up work = pjoin ys" using w by (auto simp: work_for_def is_name_def path_up_noslash)
      then show ?thesis using up snoc w by (simp add: clean_step_def path_step_def work_for_def)
    qed
  next
    case empty
    then show ?thesis using w c by (auto simp: clean_step_def path_step_def work_for_def append_name_def)
  next
    case name
    have "last (pjoin st) \<noteq> CHR ''/''" if ne: "st \<noteq> []"
    proof -
      obtain ys y where st: "st = ys @ [y]" using ne by (cases st rule: rev_cases) auto
      then have y: "y \<noteq> []" "CHR ''/'' \<notin> set y" using w by (auto simp: work_for_def is_name_def)
      then have "last y \<noteq> CHR ''/''" using last_in_set [OF y(1)] by metis
      then show ?thesis using st y(1) by simp
    qed
    then have "append_name work c = pjoin (st @ [c])"
      using w by (cases "st = []") (auto simp: work_for_def append_name_def pjoin_def)
    moreover have "clean_step work c = append_name work c" "path_step st c = st @ [c]"
      using name by (simp_all add: clean_step_def path_step_def is_name_def)
    ultimately show ?thesis using w name by (simp add: work_for_def del: pjoin_snoc)
  qed
qed

lemma work_for_foldl:
  "work_for work st \<Longrightarrow> \<forall>c \<in> set cs. CHR ''/'' \<notin> set c \<and> c \<noteq> []
     \<Longrightarrow> work_for (foldl clean_step work cs) (foldl path_step st cs)"
  by (induction cs arbitrary: work st) (simp_all add: work_for_step)

lemma path_step_Nil [simp]: "path_step st [] = st"
  by (simp add: path_step_def)

lemma normalize_trim: "foldl path_step st (trim_last cs) = foldl path_step st cs" if "cs \<noteq> []"
  using that by (cases cs rule: rev_cases) (auto simp: trim_last_def)

text \<open>A path whose components are separated by single slashes.\<close>

definition single_slashes :: "string \<Rightarrow> bool" where
  "single_slashes path \<longleftrightarrow> [] \<notin> set (butlast (tl (psplit path)))"

lemma trim_single:
  assumes "single_slashes path" "psplit path = c # cs" "path \<noteq> []"
  obtains ds where "trim_last (psplit path) = c # ds" "\<forall>d \<in> set ds. CHR ''/'' \<notin> set d \<and> d \<noteq> []"
proof (cases cs rule: rev_cases)
  case Nil
  then have "c \<noteq> []" using assms(2,3) by (cases path) (auto split: if_splits)
  then show ?thesis using Nil assms(2) that [of "[]"] by (simp add: trim_last_def)
next
  case (snoc ys y)
  let ?ds = "if y = [] then ys else cs"
  have "trim_last (psplit path) = c # ?ds" using snoc assms(2) by (simp add: trim_last_def)
  moreover have "d \<noteq> []" "CHR ''/'' \<notin> set d" if d: "d \<in> set ?ds" for d
  proof -
    have "d \<in> set (psplit path)" using d snoc assms(2) by (auto split: if_splits)
    then show "CHR ''/'' \<notin> set d" by (rule psplit_members)
    show "d \<noteq> []" using d snoc assms(1,2) by (auto simp: single_slashes_def split: if_splits)
  qed
  ultimately show ?thesis using that by blast
qed

lemma work_for_path:
  assumes w: "work_for work st" and single: "single_slashes path" and abs: "take 1 path = ''/'' \<longrightarrow> st = []"
  shows "work_for (foldl clean_step work (trim_last (psplit path))) (foldl path_step st (psplit path))"
proof (cases "path = []")
  case True
  then show ?thesis using w by (simp add: trim_last_def path_step_def)
next
  case False
  obtain c cs where cs: "psplit path = c # cs" by (cases "psplit path") auto
  have "c = [] \<longrightarrow> st = []" using abs cs False by (cases path) (auto split: if_splits)
  moreover have "CHR ''/'' \<notin> set c" using psplit_members [of c path] cs by simp
  ultimately have c: "work_for (clean_step work c) (path_step st c)" using work_for_step [OF w] by blast
  obtain ds where ds: "trim_last (psplit path) = c # ds" "\<forall>d \<in> set ds. CHR ''/'' \<notin> set d \<and> d \<noteq> []"
    using trim_single [OF single cs False] .
  from work_for_foldl [OF c ds(2)] have "work_for (foldl clean_step work (trim_last (psplit path))) (foldl path_step st (c # ds))"
    by (simp add: ds(1))
  then show ?thesis using normalize_trim [of "psplit path" st] ds(1) by simp
qed

text \<open>The buffers are never full.\<close>

lemma length_foldl_clean: "length (foldl clean_step work cs) \<le> length work + length (pjoin cs)"
proof (induction cs arbitrary: work)
  case (Cons c cs)
  have "length (foldl clean_step (clean_step work c) cs) \<le> length (clean_step work c) + length (pjoin cs)" by (rule Cons.IH)
  with length_clean_step [of work c] show ?case by (simp add: pjoin_def)
qed simp

lemma length_clean_path:
  "length (foldl clean_step work (trim_last (psplit path))) \<le> length work + length path + 1"
proof -
  have "length (pjoin (psplit path)) \<le> length path + 1"
  proof (induction path)
    case (Cons c cs)
    obtain x xs where "psplit cs = x # xs" by (cases "psplit cs") auto
    with Cons show ?case by (simp add: pjoin_def)
  qed (simp add: pjoin_def)
  moreover have "length (pjoin (trim_last cs)) \<le> length (pjoin cs)" for cs
    by (cases cs rule: rev_cases) (auto simp: trim_last_def)
  ultimately have "length (pjoin (trim_last (psplit path))) \<le> length path + 1" using le_trans by blast
  then show ?thesis using length_foldl_clean [of work "trim_last (psplit path)"] by linarith
qed

text \<open>The text of a cleaned path in a buffer that is large enough.\<close>

lemma pr_fs_clean_path_text:
  assumes "length path + 1 < PR_TUNABLE_PATH_MAX" "length path + 1 < buflen"
  shows "\<exists>work. work = foldl clean_step [] (trim_last (psplit path)) \<and>
           pr_fs_clean_path (Some path) (Some buf) buflen = Some (if work = [] then ''/'' else work)"
proof -
  let ?w = "foldl clean_step [] (trim_last (psplit path))"
  have "clean_loop True path [] (take 1 path = ''/'') = ?w" by (rule clean_loop_foldl) (use assms in simp)
  moreover have "cpy (PR_TUNABLE_PATH_MAX + 1) path = path" using assms by simp
  moreover have "length ?w < buflen" using length_clean_path [of "[]" path] assms by simp
  moreover have "cpy buflen ''/'' = ''/''" using assms by simp
  ultimately show ?thesis
    using assms(2) by (auto simp: pr_fs_clean_path_def pr_fs_clean_path2_def Let_def)
qed

lemma work_for_render: "work_for work st \<Longrightarrow> (if work = [] then ''/'' else work) = render st"
  by (auto simp: work_for_def render_def)



definition dotfree :: "string \<Rightarrow> bool" where
  "dotfree w \<longleftrightarrow> (w = [] \<or> take 1 w = ''/'') \<and> ''.'' \<notin> set (psplit w) \<and> ''..'' \<notin> set (psplit w)"

lemma dotfree_up: "dotfree w \<Longrightarrow> dotfree (path_up w)"
proof -
  assume w: "dotfree w"
  consider "path_up w = []" | u c where "path_up w = u" "w = u @ CHR ''/'' # c" using path_up_cases by blast
  then show ?thesis
  proof cases
    case 2
    have "take 1 w = take 1 u" if "u \<noteq> []" using that 2(2) by (cases u) auto
    moreover have "set (psplit u) \<subseteq> set (psplit w)" by (simp add: 2(2) psplit_append)
    ultimately show ?thesis unfolding 2(1) using w by (cases "u = []") (auto simp: dotfree_def)
  qed (simp add: dotfree_def)
qed

lemma dotfree_append:
  assumes w: "dotfree w" and c: "CHR ''/'' \<notin> set c" "c \<noteq> ''.''" "c \<noteq> ''..''"
  shows "dotfree (append_name w c)"
proof (cases "w \<noteq> [] \<and> last w = CHR ''/''")
  case True
  then obtain u where u: "w = u @ ''/''" by (metis append_butlast_last_id)
  have "psplit (u @ CHR ''/'' # c) = psplit u @ [c]" "set (psplit u) \<subseteq> set (psplit w)"
    using c(1) u by (auto simp: psplit_append psplit_noslash)
  moreover have "take 1 (u @ CHR ''/'' # c) = ''/''" using w u by (cases u) (auto simp: dotfree_def)
  ultimately show ?thesis using w c True u by (auto simp: append_name_def dotfree_def)
next
  case False
  have "psplit (w @ CHR ''/'' # c) = psplit w @ [c]" using c(1) by (simp add: psplit_append psplit_noslash)
  moreover have "take 1 (w @ CHR ''/'' # c) = ''/''" using w by (cases w) (auto simp: dotfree_def)
  ultimately show ?thesis using w c False by (auto simp: append_name_def dotfree_def)
qed

lemma dotfree_foldl:
  "dotfree w \<Longrightarrow> \<forall>c \<in> set cs. CHR ''/'' \<notin> set c \<Longrightarrow> dotfree (foldl clean_step w cs)"
  by (induction cs arbitrary: w) (auto simp: clean_step_def dotfree_up dotfree_append)



text \<open>In a buffer that is too small the cleaned path is cut, which can leave a double dot of a longer name.\<close>

lemma pr_fs_clean_path_cut_dots: "pr_fs_clean_path (Some ''/..x'') (Some []) 4 = Some ''/..''"
proof -
  have "clean_loop True ''/..x'' [] True = ''/..x''"
    by (subst clean_loop_foldl) (simp_all add: PR_TUNABLE_PATH_MAX_def trim_last_def clean_step_def append_name_def)
  then show ?thesis by (simp add: pr_fs_clean_path_def pr_fs_clean_path2_def PR_TUNABLE_PATH_MAX_def cpy_def Let_def)
qed

text \<open>After two slashes a double dot takes only the second slash away, so the name before it stays: the path of the
  parent directory is cleaned to the path of the directory.\<close>

theorem pr_fs_clean_path_double_slash:
  assumes "is_name d" "length d + 6 < PR_TUNABLE_PATH_MAX" "length d + 6 < buflen"
  shows "pr_fs_clean_path (Some (CHR ''/'' # d @ ''//..'')) (Some buf) buflen = Some (CHR ''/'' # d) \<and>
         canonical (CHR ''/'' # d @ ''//..'') = []"
proof -
  let ?p = "CHR ''/'' # d @ ''//..''"
  have d: "CHR ''/'' \<notin> set d" "d \<noteq> []" "d \<noteq> ''.''" "d \<noteq> ''..''" using assms(1) by (auto simp: is_name_def)
  have l: "last d \<noteq> CHR ''/''" using last_in_set [OF d(2)] d(1) by metis
  have s: "psplit ?p = [[], d, [], ''..'']"
    using psplit_append [of d "''/..''"] d by (simp add: psplit_noslash)
  have "foldl clean_step [] (trim_last (psplit ?p)) = CHR ''/'' # d"
    unfolding s using d l path_up_noslash [of "[]" "CHR ''/'' # d"]
    by (auto simp: trim_last_def clean_step_def append_name_def)
  moreover have "canonical ?p = []" unfolding canonical_def s using d by (simp add: path_step_def)
  ultimately show ?thesis using pr_fs_clean_path_text [of ?p buflen buf] assms by auto
qed

theorem pr_fs_clean_path_double_slash_witness:
  "pr_fs_clean_path (Some ''/home//..'') (Some []) 4097 = Some ''/home'' \<and> canonical ''/home//..'' = []"
  using pr_fs_clean_path_double_slash [of "''home''" 4097 "[]"] by (simp add: PR_TUNABLE_PATH_MAX_def is_name_def)

section \<open>The virtual path and the guard of a chroot\<close>

lemma virtual_loop_clean: "virtual_loop whr work = clean_loop True whr work a"
proof (induction whr work arbitrary: a rule: virtual_loop.induct)
  case (1 whr work)
  show ?case
    by (subst virtual_loop.simps, subst clean_loop.simps) (use 1 in \<open>auto simp: Let_def\<close>)
qed



text \<open>The guard of a chroot refuses the directories \<open>/etc\<close> and \<open>/lib\<close> and everything below them, and nothing
  else, when the path is a cleaned one.\<close>

lemma render_prefix:
  assumes "\<forall>c \<in> set st. is_name c" "CHR ''/'' \<notin> set d" "d \<noteq> []"
  shows "render st = CHR ''/'' # d \<or> take (length d + 2) (render st) = CHR ''/'' # d @ ''/'' \<longleftrightarrow> st \<noteq> [] \<and> hd st = d"
proof (cases st)
  case Nil
  then show ?thesis using assms(3) by (auto simp: render_def)
next
  case (Cons c cs)
  have c: "CHR ''/'' \<notin> set c" using assms(1) Cons by (simp add: is_name_def)
  have sp: "psplit (render st) = [] # st"
    using Cons assms(1) psplit_pjoin [of st] by (auto simp: render_def is_name_def)
  show ?thesis
  proof
    assume "render st = CHR ''/'' # d \<or> take (length d + 2) (render st) = CHR ''/'' # d @ ''/''"
    then show "st \<noteq> [] \<and> hd st = d"
    proof
      assume "render st = CHR ''/'' # d"
      then have "psplit (render st) = [[], d]" using assms(2) by (simp add: psplit_noslash)
      then show ?thesis using sp Cons by simp
    next
      assume t: "take (length d + 2) (render st) = CHR ''/'' # d @ ''/''"
      have "render st = CHR ''/'' # d @ CHR ''/'' # drop (length d + 2) (render st)"
        using append_take_drop_id [of "length d + 2" "render st", unfolded t] by simp
      then obtain r where "render st = CHR ''/'' # d @ CHR ''/'' # r" by blast
      then have "psplit (render st) = [] # d # psplit r"
        using psplit_append [of d r] assms(2) by (simp add: psplit_noslash)
      then show ?thesis using sp Cons by simp
    qed
  next
    assume "st \<noteq> [] \<and> hd st = d"
    then have "render st = CHR ''/'' # d @ pjoin cs" using Cons by (simp add: render_def pjoin_def)
    then show "render st = CHR ''/'' # d \<or> take (length d + 2) (render st) = CHR ''/'' # d @ ''/''"
      by (cases cs) (auto simp: pjoin_def)
  qed
qed

theorem chroot_allow_path_guards:
  assumes "\<forall>c \<in> set st. is_name c"
  shows "chroot_allow_path (render st) = (if st \<noteq> [] \<and> hd st \<in> {''etc'', ''lib''} then Inl EACCES else Inr ())"
proof -
  have e: "render st = CHR ''/'' # d \<or> take 5 (render st) = CHR ''/'' # d @ ''/'' \<longleftrightarrow> st \<noteq> [] \<and> hd st = d"
    if "length d = 3" "CHR ''/'' \<notin> set d" for d
    using render_prefix [OF assms that(2)] that by force
  have "chroot_allow_path (render st) =
      (if render st = ''/etc'' \<or> render st = ''/lib'' \<or> take 5 (render st) = ''/etc/'' \<or> take 5 (render st) = ''/lib/''
       then Inl EACCES else Inr ())"
  proof -
    have "4 < length (render st)" if "take 5 (render st) = x" "length x = 5" for x
      using arg_cong [OF that(1), of length] that(2) by simp
    from this [of "''/etc/''"] this [of "''/lib/''"] show ?thesis
      by (auto simp: chroot_allow_path_def c_strneq_def)
  qed
  then show ?thesis using e [of "''etc''"] e [of "''lib''"] by auto
qed

theorem chroot_allow_path_guards_witness:
  "chroot_allow_path ''/etc/passwd'' = Inl EACCES \<and> chroot_allow_path ''/etcetera/x'' = Inr ()"
  using chroot_allow_path_guards [of "[''etc'', ''passwd'']"] chroot_allow_path_guards [of "[''etcetera'', ''x'']"]
  by (simp add: is_name_def render_def pjoin_def)

section \<open>Joining\<close>



text \<open>With an empty second directory the length is taken off the room before the slash is appended at the start of
  the buffer. A directory that fills more than half of the buffer is cut by that, and one that does not fit has the
  slash and the terminator written past the end.\<close>

theorem pr_fs_dircat_empty_cuts:
  assumes "a \<noteq> []" "int (length a) < buflen" "buflen < 2 * int (length a) + 1"
  shows "pr_fs_dircat (Some buf) buflen (Some a) (Some []) = Some (Inr (), Some (take (nat buflen - length a - 1) a))"
proof -
  define n where "n = nat (buflen - int (length a))"
  have n: "0 < n" "n \<le> length a" "n - 1 = nat buflen - length a - 1" and b: "2 \<le> buflen"
    using assms by (auto simp: n_def)
  have "cat a ''/'' n = take (n - 1) a" using n by (cases "n = 1") (auto simp: cat_def sstrcat_def)
  moreover have "cpy (nat buflen) a = a" using assms by simp
  moreover have "int (length (take (n - 1) a)) < buflen" using assms n by simp
  ultimately show ?thesis
    using assms n b by (simp add: pr_fs_dircat_def Let_def cat_int_def n_def [symmetric])
qed

theorem pr_fs_dircat_empty_cuts_witness:
  "pr_fs_dircat (Some []) 10 (Some ''/home/jo'') (Some []) = Some (Inr (), Some ''/'')"
  using pr_fs_dircat_empty_cuts [of "''/home/jo''" 10 "[]"] by simp

lemma pr_fs_dircat_empty_overflows:
  assumes "2 \<le> buflen" "buflen < int (length a)"
  shows "pr_fs_dircat (Some buf) buflen (Some a) (Some []) = None"
proof -
  have "a \<noteq> []" using assms by auto
  moreover have "int (length (cpy (nat buflen) a @ ''/'')) = buflen" using assms by (simp add: cpy_def)
  ultimately show ?thesis using assms by (simp add: pr_fs_dircat_def Let_def cat_int_def)
qed

section \<open>Cleaning without the flag\<close>

text \<open>Without the flag a path that starts with a slash does not stay absolute: the slash is written for the first
  name only, so a double dot that empties the buffer leaves a relative path.\<close>

lemma pr_fs_clean_path2_loses_root:
  "pr_fs_clean_path2 (Some ''/a/../b'') (Some []) 4097 False = (Inr (), Some ''b'')"
  by (simp add: pr_fs_clean_path2_def Let_def PR_TUNABLE_PATH_MAX_def clean_loop.simps [of False "''/a/../b''"]
      clean_loop.simps [of False "''a/../b''"] clean_loop.simps [of False "''../b''"] clean_loop.simps [of False "''b''"]
      c_strneq_def path_up_def)

section \<open>Tilde paths\<close>

text \<open>With a path after the user name, the user is looked up by that name.\<close>

lemma tilde_user_slash:
  assumes "CHR ''/'' \<notin> set u" "u \<noteq> []" "length u < PR_TUNABLE_LOGIN_MAX"
  shows "tilde_user ss exists (CHR ''~'' # u @ CHR ''/'' # rest) = Some u"
  using assms takeWhile_first [of "CHR ''~'' # u" rest] by (simp add: tilde_user_def Let_def cpy_def)

text \<open>Without one, the last character of the name is cut off: the length given to \<open>sstrncpy\<close> leaves out the
  terminator.\<close>

theorem tilde_user_cut:
  assumes "CHR ''/'' \<notin> set u" "u \<noteq> []" "length u \<le> PR_TUNABLE_LOGIN_MAX" "\<not> exists (CHR ''~'' # u)"
  shows "tilde_user ss exists (CHR ''~'' # u) = Some (butlast u)"
  using assms drop_first_noslash [of "CHR ''~'' # u"] by (simp add: tilde_user_def Let_def cpy_def butlast_conv_take)

theorem tilde_user_cut_witness:
  "tilde_user \<lparr>ss_chroot_path = None, ss_user = ''ann''\<rparr> (\<lambda>_. False) ''~jo'' = Some ''j''"
  using tilde_user_cut [of "''jo''" "\<lambda>_. False" "\<lparr>ss_chroot_path = None, ss_user = ''ann''\<rparr>"]
  by (simp add: PR_TUNABLE_LOGIN_MAX_def)

end
