(* ===== verification/Sftp_Msg.thy ===== *)
theory Sftp_Msg
  imports Pr_Prelude
begin

unbundle bit_operations_syntax

text \<open>
  The reading and writing of SSH messages, \<open>contrib/mod_sftp/msg.c\<close>: bytes, booleans, 32- and 64-bit numbers,
  strings, multiple precision integers and elliptic curve points. A reader works on the bytes from \<open>*buf\<close> on, a
  writer on the bytes written so far and the room \<open>*buflen\<close> that is left. The big numbers and curve points of
  OpenSSL are parameters.
\<close>

section \<open>Outcomes\<close>

type_synonym bytes = "8 word list"

text \<open>A message that is not well-formed ends the connection and the process; reading or writing outside of the
  buffer is undefined behaviour.\<close>

datatype 'a outcome = Done 'a | Disconnected | Faulted

fun obind :: "'a outcome \<Rightarrow> ('a \<Rightarrow> 'b outcome) \<Rightarrow> 'b outcome" where
  "obind (Done x) f = f x"
| "obind Disconnected f = Disconnected"
| "obind Faulted f = Faulted"

type_synonym 'a reader = "bytes \<Rightarrow> ('a \<times> bytes) outcome"
type_synonym writer = "bytes \<times> nat \<Rightarrow> (nat \<times> bytes \<times> nat) outcome"

text \<open>\<open>memcpy\<close> from the front of a buffer, and to the end of the bytes written: \<open>(out, room)\<close> is what has been
  written and the room after it.\<close>

definition copy_out :: "nat \<Rightarrow> bytes reader" where
  "copy_out n buf = (if length buf < n then Faulted else Done (take n buf, drop n buf))"

definition copy_in :: "bytes \<Rightarrow> writer" where
  "copy_in bs = (\<lambda>(out, room). if room < length bs then Faulted else Done (length bs, out @ bs, room - length bs))"

section \<open>Reading\<close>

definition sftp_msg_read_byte :: "8 word reader" where
  "sftp_msg_read_byte buf =
     (if length buf < 1 then Disconnected else obind (copy_out 1 buf) (\<lambda>(bs, rest). Done (hd bs, rest)))"

definition sftp_msg_read_bool :: "bool reader" where
  "sftp_msg_read_bool buf = obind (sftp_msg_read_byte buf) (\<lambda>(b, rest). Done (b \<noteq> 0, rest))"

text \<open>\<open>palloc\<close> of no bytes gives \<open>NULL\<close>, which is what the function returns then.\<close>

definition sftp_msg_read_data :: "nat \<Rightarrow> bytes option reader" where
  "sftp_msg_read_data datalen buf =
     (if length buf < datalen then Disconnected
      else obind (copy_out datalen buf) (\<lambda>(bs, rest). Done (if datalen = 0 then None else Some bs, rest)))"

definition be32 :: "bytes \<Rightarrow> 32 word" where
  "be32 bs = push_bit 24 (ucast (bs ! 0)) OR push_bit 16 (ucast (bs ! 1)) OR push_bit 8 (ucast (bs ! 2)) OR ucast (bs ! 3)"

definition sftp_msg_read_int :: "32 word reader" where
  "sftp_msg_read_int buf =
     (if length buf < 4 then Disconnected else obind (copy_out 4 buf) (\<lambda>(bs, rest). Done (be32 bs, rest)))"

definition be64 :: "bytes \<Rightarrow> 64 word" where
  "be64 data =
     push_bit 56 (ucast (data ! 0)) OR push_bit 48 (ucast (data ! 1)) OR push_bit 40 (ucast (data ! 2)) OR
     push_bit 32 (ucast (data ! 3)) OR push_bit 24 (ucast (data ! 4)) OR push_bit 16 (ucast (data ! 5)) OR
     push_bit 8 (ucast (data ! 6)) OR ucast (data ! 7)"

definition sftp_msg_read_long :: "64 word reader" where
  "sftp_msg_read_long buf =
     (if length buf < 8 then Disconnected else obind (copy_out 8 buf) (\<lambda>(bs, rest). Done (be64 bs, rest)))"

text \<open>\<open>bin2bn\<close> stands for \<open>BN_bin2bn\<close>, \<open>None\<close> for its failure.\<close>

definition sftp_msg_read_mpint :: "(bytes \<Rightarrow> 'bn option) \<Rightarrow> 'bn reader" where
  "sftp_msg_read_mpint bin2bn buf =
     obind (sftp_msg_read_int buf) (\<lambda>(len, rest).
       if length rest < unat len then Disconnected
       else if unat len > 1024 * 16 then Disconnected
       else obind (sftp_msg_read_data (unat len) rest) (\<lambda>(ptr, rest').
         (case ptr of
            None \<Rightarrow> Disconnected
          | Some data \<Rightarrow>
              (if hd data AND 0x80 \<noteq> 0 then Disconnected
               else (case bin2bn (dropWhile (\<lambda>b. b = 0) data) of
                       None \<Rightarrow> Disconnected
                     | Some n \<Rightarrow> Done (n, rest'))))))"

definition sftp_msg_read_string :: "bytes reader" where
  "sftp_msg_read_string buf =
     obind (sftp_msg_read_int buf) (\<lambda>(len, rest).
       if length rest < unat len then Disconnected else copy_out (unat len) rest)"

definition MAX_ECPOINT_LEN :: nat where "MAX_ECPOINT_LEN = 528 * 2 div 8 + 1"

text \<open>\<open>oct2point\<close> stands for \<open>EC_POINT_oct2point\<close> on the curve; \<open>POINT_CONVERSION_UNCOMPRESSED\<close> is 4.\<close>

definition sftp_msg_read_ecpoint :: "(bytes \<Rightarrow> 'pt option) \<Rightarrow> 'pt reader" where
  "sftp_msg_read_ecpoint oct2point buf =
     obind (sftp_msg_read_int buf) (\<lambda>(datalen, rest).
       if length rest < unat datalen then Disconnected
       else if unat datalen > MAX_ECPOINT_LEN then Disconnected
       else obind (sftp_msg_read_data (unat datalen) rest) (\<lambda>(ptr, rest').
         (case ptr of
            None \<Rightarrow> Disconnected
          | Some data \<Rightarrow>
              (if hd data \<noteq> 4 then Disconnected
               else (case oct2point data of None \<Rightarrow> Disconnected | Some p \<Rightarrow> Done (p, rest'))))))"

section \<open>Writing\<close>

definition sftp_msg_write_byte :: "8 word \<Rightarrow> writer" where
  "sftp_msg_write_byte byte = (\<lambda>(out, room). if room < 1 then Disconnected else copy_in [byte] (out, room))"

definition sftp_msg_write_bool :: "8 word \<Rightarrow> writer" where
  "sftp_msg_write_bool b = sftp_msg_write_byte (if b = 0 then 0 else 1)"

definition to_be32 :: "32 word \<Rightarrow> bytes" where
  "to_be32 v = [ucast (drop_bit 24 v), ucast (drop_bit 16 v), ucast (drop_bit 8 v), ucast v]"

definition sftp_msg_write_int :: "32 word \<Rightarrow> writer" where
  "sftp_msg_write_int val = (\<lambda>(out, room). if room < 4 then Disconnected else copy_in (to_be32 val) (out, room))"

definition sftp_msg_write_data :: "bytes \<Rightarrow> bool \<Rightarrow> writer" where
  "sftp_msg_write_data data write_len s =
     obind (if write_len then sftp_msg_write_int (of_nat (length data)) s else Done (0, s)) (\<lambda>(len, out, room).
       if room < length data then Disconnected
       else if data \<noteq> [] then obind (copy_in data (out, room)) (\<lambda>(n, s'). Done (len + n, s'))
       else Done (len, out, room))"

definition to_be64 :: "64 word \<Rightarrow> bytes" where
  "to_be64 v =
     [ucast (drop_bit 56 v), ucast (drop_bit 48 v), ucast (drop_bit 40 v), ucast (drop_bit 32 v),
      ucast (drop_bit 24 v), ucast (drop_bit 16 v), ucast (drop_bit 8 v), ucast v]"

definition sftp_msg_write_long :: "64 word \<Rightarrow> writer" where
  "sftp_msg_write_long val =
     (\<lambda>(out, room). if room < 8 then Disconnected else sftp_msg_write_data (to_be64 val) False (out, room))"

text \<open>\<open>bn2bin\<close> stands for \<open>BN_bn2bin\<close>, the bytes of the absolute value; their number is \<open>BN_num_bytes\<close>. \<open>is_zero\<close>
  and \<open>is_negative\<close> stand for \<open>BN_is_zero\<close> and \<open>BN_is_negative\<close>.\<close>

definition sftp_msg_write_mpint :: "('bn \<Rightarrow> bytes) \<Rightarrow> ('bn \<Rightarrow> bool) \<Rightarrow> ('bn \<Rightarrow> bool) \<Rightarrow> 'bn \<Rightarrow> writer" where
  "sftp_msg_write_mpint bn2bin is_zero is_negative mpint =
     (\<lambda>(out, room).
        if is_zero mpint then sftp_msg_write_int 0 (out, room)
        else if is_negative mpint then Disconnected
        else
          (let data = 0 # bn2bin mpint in
           if room < length data then Disconnected
           else if length data < 2 then Faulted
           else if data ! 1 AND 0x80 \<noteq> 0 then sftp_msg_write_data data True (out, room)
           else sftp_msg_write_data (tl data) True (out, room)))"

text \<open>A C string ends at its first zero byte.\<close>

definition sftp_msg_write_string :: "bytes \<Rightarrow> writer" where
  "sftp_msg_write_string str = sftp_msg_write_data (takeWhile (\<lambda>b. b \<noteq> 0) str) True"

definition sftp_msg_write_ecpoint :: "('pt \<Rightarrow> bytes) \<Rightarrow> 'pt \<Rightarrow> writer" where
  "sftp_msg_write_ecpoint point2oct point =
     (\<lambda>(out, room).
        let data = point2oct point in
        if length data > MAX_ECPOINT_LEN then Disconnected
        else if room < length data then Disconnected
        else sftp_msg_write_data data True (out, room))"

section \<open>Words and their bytes\<close>

lemma bit_byte_of_word:
  fixes v :: "'a :: len word"
  shows "bit (push_bit k (ucast (ucast (drop_bit k v) :: 8 word)) :: 'a word) n \<longleftrightarrow> k \<le> n \<and> n < k + 8 \<and> bit v n"
  using bit_imp_le_length [of v n] by (cases "k \<le> n") (auto simp: bit_simps)

lemma bit_low_byte:
  fixes v :: "'a :: len word"
  shows "bit (ucast (ucast v :: 8 word) :: 'a word) n \<longleftrightarrow> n < 8 \<and> bit v n"
  using bit_byte_of_word [of 0 v n] by simp

lemma be32_to_be32 [simp]: "be32 (to_be32 v) = v"
proof (rule bit_word_eqI)
  fix n assume "n < LENGTH(32)"
  then have "n < 32" by simp
  then show "bit (be32 (to_be32 v)) n = bit v n"
    unfolding be32_def to_be32_def by (cases "bit v n") (simp_all add: bit_or_iff bit_byte_of_word bit_low_byte, presburger)
qed

lemma be64_to_be64 [simp]: "be64 (to_be64 v) = v"
proof (rule bit_word_eqI)
  fix n assume "n < LENGTH(64)"
  then have "n < 64" by simp
  then show "bit (be64 (to_be64 v)) n = bit v n"
    unfolding be64_def to_be64_def by (cases "bit v n") (simp_all add: bit_or_iff bit_byte_of_word bit_low_byte, presburger)
qed

lemma length_to_be [simp]: "length (to_be32 v) = 4" "length (to_be64 w) = 8"
  by (simp_all add: to_be32_def to_be64_def)

lemma copy_out_append [simp]: "copy_out (length bs) (bs @ rest) = Done (bs, rest)"
  by (simp add: copy_out_def)

lemma read_int_write [simp]: "sftp_msg_read_int (to_be32 v @ rest) = Done (v, rest)"
  using copy_out_append [of "to_be32 v" rest] by (simp add: sftp_msg_read_int_def)

lemma read_long_write [simp]: "sftp_msg_read_long (to_be64 v @ rest) = Done (v, rest)"
  using copy_out_append [of "to_be64 v" rest] by (simp add: sftp_msg_read_long_def)


section \<open>Safety\<close>

text \<open>Whatever bytes the peer sends, a reader does not read outside of the buffer, and whatever is written, a writer
  does not write outside of its room and accounts for every byte.\<close>

lemma obind_Faulted: "obind m f = Faulted \<longleftrightarrow> m = Faulted \<or> (\<exists>x. m = Done x \<and> f x = Faulted)"
  by (cases m) auto

named_theorems msg_reads

lemma read_int_safe [msg_reads]: "sftp_msg_read_int buf \<noteq> Faulted"
  by (simp add: sftp_msg_read_int_def copy_out_def)

lemma read_data_safe [msg_reads]: "sftp_msg_read_data n buf \<noteq> Faulted"
  by (simp add: sftp_msg_read_data_def copy_out_def)

lemma read_byte_safe [msg_reads]: "sftp_msg_read_byte buf \<noteq> Faulted"
  by (simp add: sftp_msg_read_byte_def copy_out_def Suc_le_eq)

text \<open>C24. No message can make a reader leave the buffer.\<close>

theorem sftp_msg_reads_stay_inside:
  "sftp_msg_read_byte buf \<noteq> Faulted \<and> sftp_msg_read_bool buf \<noteq> Faulted \<and> sftp_msg_read_data n buf \<noteq> Faulted \<and>
   sftp_msg_read_int buf \<noteq> Faulted \<and> sftp_msg_read_long buf \<noteq> Faulted \<and> sftp_msg_read_string buf \<noteq> Faulted \<and>
   sftp_msg_read_mpint bin2bn buf \<noteq> Faulted \<and> sftp_msg_read_ecpoint oct2point buf \<noteq> Faulted"
proof -
  have "sftp_msg_read_bool buf \<noteq> Faulted" by (auto simp: sftp_msg_read_bool_def obind_Faulted msg_reads)
  moreover have "sftp_msg_read_long buf \<noteq> Faulted" by (simp add: sftp_msg_read_long_def copy_out_def)
  moreover have "sftp_msg_read_string buf \<noteq> Faulted"
    by (auto simp: sftp_msg_read_string_def obind_Faulted msg_reads copy_out_def)
  moreover have "sftp_msg_read_mpint bin2bn buf \<noteq> Faulted"
    by (auto simp: sftp_msg_read_mpint_def obind_Faulted msg_reads split: option.splits if_splits)
  moreover have "sftp_msg_read_ecpoint oct2point buf \<noteq> Faulted"
    by (auto simp: sftp_msg_read_ecpoint_def obind_Faulted msg_reads split: option.splits if_splits)
  ultimately show ?thesis by (simp add: msg_reads)
qed

text \<open>What a writer has done: it has appended bytes and taken them off the room.\<close>

definition wrote :: "bytes \<Rightarrow> bytes \<times> nat \<Rightarrow> (nat \<times> bytes \<times> nat) outcome \<Rightarrow> bool" where
  "wrote bs s r \<longleftrightarrow>
     (if snd s < length bs then r = Disconnected
      else r = Done (length bs, fst s @ bs, snd s - length bs))"

lemma write_byte_wrote: "wrote [b] s (sftp_msg_write_byte b s)"
  by (cases s) (simp add: sftp_msg_write_byte_def wrote_def copy_in_def Suc_le_eq)

lemma write_int_wrote: "wrote (to_be32 v) s (sftp_msg_write_int v s)"
  by (cases s) (simp add: sftp_msg_write_int_def wrote_def copy_in_def)

lemma write_data_wrote: "wrote data s (sftp_msg_write_data data False s)"
  by (cases s) (simp add: sftp_msg_write_data_def wrote_def copy_in_def)

lemma write_data_len_wrote: "wrote (to_be32 (of_nat (length data)) @ data) s (sftp_msg_write_data data True s)"
proof (cases s)
  case (Pair out room)
  show ?thesis
  proof (cases "room < 4")
    case True
    then show ?thesis by (simp add: Pair sftp_msg_write_data_def sftp_msg_write_int_def wrote_def)
  next
    case False
    then show ?thesis
      by (auto simp: Pair sftp_msg_write_data_def sftp_msg_write_int_def wrote_def copy_in_def)
  qed
qed

lemma write_long_wrote: "wrote (to_be64 v) s (sftp_msg_write_long v s)"
  using write_data_wrote [of "to_be64 v" s] by (cases s) (simp add: sftp_msg_write_long_def wrote_def)

lemmas writes = write_byte_wrote write_int_wrote write_data_wrote write_data_len_wrote write_long_wrote

section \<open>Round trips\<close>

lemma unat_of_nat_length: "length s < 2 ^ 32 \<Longrightarrow> unat (of_nat (length s) :: 32 word) = length s"
  by (simp add: unat_of_nat take_bit_nat_eq_self)

lemma read_string_write:
  "length s < 2 ^ 32 \<Longrightarrow> sftp_msg_read_string (to_be32 (of_nat (length s)) @ s @ rest) = Done (s, rest)"
  by (simp add: sftp_msg_read_string_def unat_of_nat_length)

text \<open>C25. Everything that is written into enough room is read back as it was, and the reader stops exactly where the
  writer stopped. Strings are those of C, without a zero byte.\<close>

theorem sftp_msg_round_trip:
  assumes "length s < 2 ^ 32" "0 \<notin> set s" "length s + 18 \<le> room"
  shows "\<exists>out1 out2 out3 out4 out5 n1 n2 n3 n4 n5 r1 r2 r3 r4 r5.
     sftp_msg_write_byte b ([], room) = Done (n1, out1, r1) \<and>
     sftp_msg_write_bool c (out1, r1) = Done (n2, out2, r2) \<and>
     sftp_msg_write_int i (out2, r2) = Done (n3, out3, r3) \<and>
     sftp_msg_write_string s (out3, r3) = Done (n4, out4, r4) \<and>
     sftp_msg_write_long l (out4, r4) = Done (n5, out5, r5) \<and>
     r5 = room - length out5 \<and> length out5 = length s + 18 \<and>
     obind (sftp_msg_read_byte (out5 @ rest)) (\<lambda>(b', in1).
     obind (sftp_msg_read_bool in1) (\<lambda>(c', in2).
     obind (sftp_msg_read_int in2) (\<lambda>(i', in3).
     obind (sftp_msg_read_string in3) (\<lambda>(s', in4).
     obind (sftp_msg_read_long in4) (\<lambda>(l', in5).
       Done ((b', c', i', s', l'), in5)))))) = Done ((b, c \<noteq> 0, i, s, l), rest)"
proof -
  let ?c = "if c = 0 then 0 else 1 :: 8 word"
  let ?s = "to_be32 (of_nat (length s)) @ s"
  have tw: "takeWhile (\<lambda>b. b \<noteq> 0) s = s" using assms(2) by (auto simp: takeWhile_eq_all_conv)
  have w1: "sftp_msg_write_byte b ([], room) = Done (1, [b], room - 1)"
    using write_byte_wrote [of b "([], room)"] assms(3) by (simp add: wrote_def)
  have w2: "sftp_msg_write_bool c ([b], room - 1) = Done (1, [b, ?c], room - 2)"
    using write_byte_wrote [of ?c "([b], room - 1)"] assms(3) by (simp add: wrote_def sftp_msg_write_bool_def)
  have w3: "sftp_msg_write_int i ([b, ?c], room - 2) = Done (4, [b, ?c] @ to_be32 i, room - 6)"
    using write_int_wrote [of i "([b, ?c], room - 2)"] assms(3) by (simp add: wrote_def)
  have w4: "sftp_msg_write_string s ([b, ?c] @ to_be32 i, room - 6) =
      Done (length s + 4, [b, ?c] @ to_be32 i @ ?s, room - (length s + 10))"
    using write_data_len_wrote [of s "([b, ?c] @ to_be32 i, room - 6)"] assms(3)
    by (simp add: wrote_def sftp_msg_write_string_def tw add.commute)
  have w5: "sftp_msg_write_long l ([b, ?c] @ to_be32 i @ ?s, room - (length s + 10)) =
      Done (8, [b, ?c] @ to_be32 i @ ?s @ to_be64 l, room - (length s + 18))"
    using write_long_wrote [of l "([b, ?c] @ to_be32 i @ ?s, room - (length s + 10))"] assms(3) by (simp add: wrote_def)
  let ?out = "[b, ?c] @ to_be32 i @ ?s @ to_be64 l"
  have b: "sftp_msg_read_byte (x # xs) = Done (x, xs)" for x xs by (simp add: sftp_msg_read_byte_def copy_out_def)
  have r: "obind (sftp_msg_read_byte (?out @ rest)) (\<lambda>(b', in1).
     obind (sftp_msg_read_bool in1) (\<lambda>(c', in2).
     obind (sftp_msg_read_int in2) (\<lambda>(i', in3).
     obind (sftp_msg_read_string in3) (\<lambda>(s', in4).
     obind (sftp_msg_read_long in4) (\<lambda>(l', in5).
       Done ((b', c', i', s', l'), in5)))))) = Done ((b, c \<noteq> 0, i, s, l), rest)"
    using read_string_write [OF assms(1), of "to_be64 l @ rest"] by (simp add: b sftp_msg_read_bool_def)
  show ?thesis
    by (intro exI conjI) (rule w1, rule w2, rule w3, rule w4, rule w5, simp, simp, rule r)
qed

theorem sftp_msg_round_trip_witness:
  "\<exists>out1 out2 out3 out4 out5 n1 n2 n3 n4 n5 r1 r2 r3 r4 r5.
     sftp_msg_write_byte 94 ([], 100) = Done (n1, out1, r1) \<and>
     sftp_msg_write_bool 7 (out1, r1) = Done (n2, out2, r2) \<and>
     sftp_msg_write_int 256 (out2, r2) = Done (n3, out3, r3) \<and>
     sftp_msg_write_string [104, 105] (out3, r3) = Done (n4, out4, r4) \<and>
     sftp_msg_write_long 1 (out4, r4) = Done (n5, out5, r5) \<and>
     r5 = 100 - length out5 \<and> length out5 = length [104, 105 :: 8 word] + 18 \<and>
     obind (sftp_msg_read_byte (out5 @ [9])) (\<lambda>(b', in1).
     obind (sftp_msg_read_bool in1) (\<lambda>(c', in2).
     obind (sftp_msg_read_int in2) (\<lambda>(i', in3).
     obind (sftp_msg_read_string in3) (\<lambda>(s', in4).
     obind (sftp_msg_read_long in4) (\<lambda>(l', in5).
       Done ((b', c', i', s', l'), in5)))))) = Done ((94, (7 :: 8 word) \<noteq> 0, 256, [104, 105], 1), [9])"
  by (rule sftp_msg_round_trip) simp_all

section \<open>Multiple precision integers\<close>

text \<open>C26. A positive number is read back, whatever its first bit: the zero byte that keeps it positive is added by the
  writer and taken off by the reader. What is used of OpenSSL is that the bytes of a positive number do not start
  with a zero and are read back as that number.\<close>

theorem sftp_msg_mpint_round_trip:
  assumes bn: "bn2bin n \<noteq> []" "hd (bn2bin n) \<noteq> 0" "bin2bn (bn2bin n) = Some n"
    and pos: "\<not> is_zero n" "\<not> is_negative n"
    and len: "length (bn2bin n) < 1024 * 16" "length (bn2bin n) + 5 \<le> room"
  shows "\<exists>k out r. sftp_msg_write_mpint bn2bin is_zero is_negative n ([], room) = Done (k, out, r) \<and>
           length out = k \<and> k + r = room \<and> sftp_msg_read_mpint bin2bn (out @ rest) = Done (n, rest)"
proof -
  let ?bs = "bn2bin n"
  define data where "data = (if hd ?bs AND 0x80 \<noteq> 0 then 0 # ?bs else ?bs)"
  have w: "sftp_msg_write_mpint bn2bin is_zero is_negative n ([], room) = sftp_msg_write_data data True ([], room)"
    using bn pos len by (cases ?bs) (auto simp: sftp_msg_write_mpint_def Let_def data_def)
  have d: "length data \<le> 1024 * 16" "length data + 4 \<le> room" "data \<noteq> []" "hd data AND 0x80 = 0"
    "dropWhile (\<lambda>b. b = 0) data = ?bs"
    using len bn by (cases ?bs; auto simp: data_def)+
  let ?out = "to_be32 (of_nat (length data)) @ data"
  have "sftp_msg_write_data data True ([], room) = Done (length ?out, ?out, room - length ?out)"
    using write_data_len_wrote [of data "([], room)"] d(2) by (simp add: wrote_def)
  moreover have "sftp_msg_read_mpint bin2bn (?out @ rest) = Done (n, rest)"
    using d bn(3) unat_of_nat_length [of data]
    by (simp add: sftp_msg_read_mpint_def sftp_msg_read_data_def copy_out_def)
  ultimately show ?thesis using w d(2) by (intro exI conjI) auto
qed

text \<open>For the witness: numbers as their big-endian bytes, written in base 256.\<close>

fun nat_bytes :: "nat \<Rightarrow> bytes" where
  "nat_bytes n = (if n = 0 then [] else nat_bytes (n div 256) @ [of_nat (n mod 256)])"

declare nat_bytes.simps [simp del]

definition bytes_nat :: "bytes \<Rightarrow> nat" where
  "bytes_nat bs = foldl (\<lambda>a b. 256 * a + unat b) 0 bs"

theorem sftp_msg_mpint_round_trip_witness:
  "\<exists>k out r. sftp_msg_write_mpint nat_bytes (\<lambda>n. n = 0) (\<lambda>_. False) 50000 ([], 100) = Done (k, out, r) \<and>
     length out = k \<and> k + r = 100 \<and> sftp_msg_read_mpint (\<lambda>bs. Some (bytes_nat bs)) (out @ [5]) = Done (50000, [5])"
proof -
  have b: "nat_bytes 50000 = [195, 80]" by (simp add: nat_bytes.simps [of 50000] nat_bytes.simps [of 195] nat_bytes.simps [of 0])
  show ?thesis
    by (rule sftp_msg_mpint_round_trip) (simp_all add: b bytes_nat_def)
qed

text \<open>The number zero is not: it is written as no bytes, and the reader takes the \<open>NULL\<close> that \<open>palloc\<close> returns for
  them for an error and disconnects.\<close>

theorem sftp_msg_mpint_zero_lost:
  assumes "is_zero n" "4 \<le> room"
  shows "\<exists>out. sftp_msg_write_mpint bn2bin is_zero is_negative n ([], room) = Done (4, out, room - 4) \<and>
           sftp_msg_read_mpint bin2bn (out @ rest) = Disconnected"
proof -
  have "sftp_msg_write_mpint bn2bin is_zero is_negative n ([], room) = Done (4, to_be32 0, room - 4)"
    using write_int_wrote [of 0 "([], room)"] assms by (simp add: sftp_msg_write_mpint_def wrote_def)
  moreover have "sftp_msg_read_mpint bin2bn (to_be32 0 @ rest) = Disconnected"
    by (simp add: sftp_msg_read_mpint_def sftp_msg_read_data_def copy_out_def)
  ultimately show ?thesis by blast
qed

theorem sftp_msg_mpint_zero_lost_witness:
  "\<exists>out. sftp_msg_write_mpint nat_bytes (\<lambda>n. n = 0) (\<lambda>_. False) 0 ([], 100) = Done (4, out, 100 - 4) \<and>
     sftp_msg_read_mpint (\<lambda>bs. Some (bytes_nat bs)) (out @ [5]) = Disconnected"
  by (rule sftp_msg_mpint_zero_lost) simp_all

text \<open>Curve points: what is used of OpenSSL is that an uncompressed point starts with the byte 4 and is read back.\<close>

lemma sftp_msg_ecpoint_round_trip:
  assumes "point2oct p \<noteq> []" "hd (point2oct p) = 4" "oct2point (point2oct p) = Some p"
    and "length (point2oct p) \<le> MAX_ECPOINT_LEN" "length (point2oct p) + 4 \<le> room"
  shows "\<exists>k out r. sftp_msg_write_ecpoint point2oct p ([], room) = Done (k, out, r) \<and>
           sftp_msg_read_ecpoint oct2point (out @ rest) = Done (p, rest)"
proof -
  let ?d = "point2oct p" let ?out = "to_be32 (of_nat (length ?d)) @ ?d"
  have "sftp_msg_write_ecpoint point2oct p ([], room) = Done (length ?out, ?out, room - length ?out)"
    using write_data_len_wrote [of ?d "([], room)"] assms(4,5) by (simp add: wrote_def sftp_msg_write_ecpoint_def Let_def)
  moreover have "sftp_msg_read_ecpoint oct2point (?out @ rest) = Done (p, rest)"
    using assms unat_of_nat_length [of ?d]
    by (simp add: sftp_msg_read_ecpoint_def sftp_msg_read_data_def copy_out_def MAX_ECPOINT_LEN_def)
  ultimately show ?thesis by blast
qed

end
