(* ===== verification/Asn1.thy ===== *)
theory Asn1
  imports Sftp_Msg
begin

unbundle bit_operations_syntax

text \<open>
  The ASN.1 encoding of the SNMP agent, \<open>contrib/mod_snmp/asn1.c\<close>: headers, integers, nulls, object identifiers and
  octet strings, read from and written to a packet. A reader works on the memory from \<open>*buf\<close> on and on the
  \<open>size_t\<close> \<open>*buflen\<close>, which is meant to be the part of it that belongs to the packet; reading beyond the
  memory is the result \<open>None\<close>. A writer works on the bytes written so far and on the room \<open>*buflen\<close> after
  them. Numbers keep the widths of a 64-bit platform: \<open>long\<close> has 64 bits, \<open>unsigned int\<close> and \<open>oid_t\<close> have 32.
\<close>

section \<open>Constants\<close>

definition SNMP_ASN1_MAX_OBJECT_LEN :: nat where "SNMP_ASN1_MAX_OBJECT_LEN = 512 * 1024"
definition SNMP_ASN1_OID_MAX_ID :: "32 word" where "SNMP_ASN1_OID_MAX_ID = 0xffff"
definition SNMP_MIB_MAX_OIDLEN :: nat where "SNMP_MIB_MAX_OIDLEN = 14"

abbreviation (input) SNMP_ASN1_TYPE_INTEGER :: "8 word" where "SNMP_ASN1_TYPE_INTEGER \<equiv> 2"
abbreviation (input) SNMP_ASN1_TYPE_OCTETSTRING :: "8 word" where "SNMP_ASN1_TYPE_OCTETSTRING \<equiv> 4"
abbreviation (input) SNMP_ASN1_TYPE_NULL :: "8 word" where "SNMP_ASN1_TYPE_NULL \<equiv> 5"
abbreviation (input) SNMP_ASN1_TYPE_OID :: "8 word" where "SNMP_ASN1_TYPE_OID \<equiv> 6"
abbreviation (input) SNMP_ASN1_FL_KNOWN_LEN :: "32 word" where "SNMP_ASN1_FL_KNOWN_LEN \<equiv> 1"
abbreviation (input) SNMP_ASN1_FL_UNSIGNED :: "32 word" where "SNMP_ASN1_FL_UNSIGNED \<equiv> 4"

section \<open>Readers and writers\<close>

type_synonym 'a asn1_reader = "bytes \<times> nat \<Rightarrow> ('a \<times> bytes \<times> nat) result option"
type_synonym asn1_writer = "bytes \<times> nat \<Rightarrow> (bytes \<times> nat) result"

text \<open>\<open>if (res < 0) { return -1; }\<close> after a call that reads, and after one that writes.\<close>

fun rd_bind :: "'a result option \<Rightarrow> ('a \<Rightarrow> 'b result option) \<Rightarrow> 'b result option" where
  "rd_bind None f = None"
| "rd_bind (Some (Inl e)) f = Some (Inl e)"
| "rd_bind (Some (Inr x)) f = f x"

fun wr_bind :: "'a result \<Rightarrow> ('a \<Rightarrow> 'b result) \<Rightarrow> 'b result" where
  "wr_bind (Inl e) f = Inl e"
| "wr_bind (Inr x) f = f x"

text \<open>Subtraction of \<open>size_t\<close> values.\<close>

definition size_sub :: "nat \<Rightarrow> nat \<Rightarrow> nat" where
  "size_sub a b = (if b \<le> a then a - b else a + 2 ^ 64 - b)"

section \<open>Reading\<close>

definition asn1_read_byte :: "8 word asn1_reader" where
  "asn1_read_byte = (\<lambda>(buf, buflen).
     if buflen < 1 then Some (Inl EINVAL)
     else (case buf of [] \<Rightarrow> None | byte # rest \<Rightarrow> Some (Inr (byte, rest, size_sub buflen 1))))"

definition asn1_read_type :: "8 word asn1_reader" where
  "asn1_read_type s = asn1_read_byte s"

text \<open>The long form copies \<open>byte\<close> bytes to the front of a cleared \<open>unsigned int\<close>, takes them as a number in
  network order and shifts the unused low bytes out.\<close>

definition asn1_read_len :: "32 word asn1_reader" where
  "asn1_read_len = (\<lambda>(buf, buflen).
     if buflen < 1 then Some (Inl EINVAL)
     else (case buf of
        [] \<Rightarrow> None
      | byte # rest \<Rightarrow>
          (let buflen = size_sub buflen 1 in
           if byte AND 0x80 \<noteq> 0 then
             (let n = unat (byte AND NOT 0x80) in
              if n = 0 then Some (Inl EINVAL)
              else if n > 4 then Some (Inl EINVAL)
              else if length rest < n then None
              else Some (Inr (drop_bit (8 * (4 - n)) (be32 (take n rest @ replicate (4 - n) 0)),
                              drop n rest, size_sub buflen n)))
           else Some (Inr (ucast byte, rest, buflen)))))"

definition snmp_asn1_read_header :: "(8 word \<times> nat) asn1_reader" where
  "snmp_asn1_read_header = (\<lambda>(buf, buflen).
     (case buf of
        [] \<Rightarrow> None
      | first # _ \<Rightarrow>
          (if first = 0xff then Some (Inl EPERM)
           else rd_bind (asn1_read_type (buf, buflen)) (\<lambda>(asn1_type, s).
                rd_bind (asn1_read_len s) (\<lambda>(objlen, buf, buflen).
                  if unat objlen > SNMP_ASN1_MAX_OBJECT_LEN then Some (Inl EINVAL)
                  else if unat objlen > buflen then Some (Inl EINVAL)
                  else Some (Inr ((asn1_type, unat objlen), buf, buflen)))))))"

text \<open>The bytes of an integer. \<open>objval << 8\<close> keeps the low 64 bits, for negative values too.\<close>

fun read_int_loop :: "nat \<Rightarrow> 64 word \<Rightarrow> 64 word asn1_reader" where
  "read_int_loop 0 objval s = Some (Inr (objval, s))"
| "read_int_loop (Suc objlen) objval s =
     rd_bind (asn1_read_byte s) (\<lambda>(byte, s'). read_int_loop objlen (push_bit 8 objval OR ucast byte) s')"

definition snmp_asn1_read_int :: "32 word \<Rightarrow> (8 word \<times> 64 word) asn1_reader" where
  "snmp_asn1_read_int flags s =
     rd_bind (asn1_read_type s) (\<lambda>(asn1_type, s).
       if asn1_type AND SNMP_ASN1_TYPE_INTEGER = 0 then Some (Inl EINVAL)
       else rd_bind (asn1_read_len s) (\<lambda>(objlen, buf, buflen).
         if unat objlen > buflen then Some (Inl EINVAL)
         else if buf = [] then None
         else (let objval = (if hd buf AND 0x80 \<noteq> 0
                             then (if flags AND SNMP_ASN1_FL_UNSIGNED \<noteq> 0 then NOT 0 else -1)
                             else 0)
               in rd_bind (read_int_loop (unat objlen) objval (buf, buflen)) (\<lambda>(objval, s').
                    Some (Inr ((asn1_type, objval), s'))))))"

definition snmp_asn1_read_uint :: "(8 word \<times> 64 word) asn1_reader" where
  "snmp_asn1_read_uint s =
     rd_bind (snmp_asn1_read_int SNMP_ASN1_FL_UNSIGNED s) (\<lambda>((asn1_type, asn1_int), s').
       Some (Inr ((asn1_type, ucast (ucast asn1_int :: 32 word)), s')))"

definition snmp_asn1_read_null :: "8 word asn1_reader" where
  "snmp_asn1_read_null s =
     rd_bind (asn1_read_type s) (\<lambda>(asn1_type, s).
       if asn1_type AND SNMP_ASN1_TYPE_NULL = 0 then Some (Inl EINVAL)
       else rd_bind (asn1_read_len s) (\<lambda>(objlen, s).
         if objlen \<noteq> 0 then Some (Inl EINVAL) else Some (Inr (asn1_type, s))))"

text \<open>The bytes of one sub-identifier, seven bits each; \<open>len\<close> counts them down without looking at the end of
  the object.\<close>

fun read_subid :: "32 word \<Rightarrow> 32 word \<Rightarrow> (32 word \<times> 32 word) asn1_reader" where
  "read_subid sub_id len ([], buflen) = (if buflen < 1 then Some (Inl EINVAL) else None)"
| "read_subid sub_id len (byte # rest, buflen) =
     (if buflen < 1 then Some (Inl EINVAL)
      else if byte AND 0x80 \<noteq> 0
           then read_subid (push_bit 7 sub_id + ucast (byte AND NOT 0x80)) (len - 1) (rest, size_sub buflen 1)
           else Some (Inr ((push_bit 7 sub_id + ucast (byte AND NOT 0x80), len - 1), rest, size_sub buflen 1)))"

lemma read_subid_shrinks:
  "read_subid sub_id len s = Some (Inr (r, s')) \<Longrightarrow> length (fst s') < length (fst s)"
  by (induction sub_id len s rule: read_subid.induct) (auto split: if_splits)

text \<open>The sub-identifiers go to the elements of the array from \<open>oid_ptr\<close> on. The array is the memory the caller has
  for it; \<open>oidlen\<close> is the caller's \<open>*asn1_oidlen\<close>.\<close>

function read_oid_loop ::
  "32 word list \<Rightarrow> nat \<Rightarrow> 32 word \<Rightarrow> 32 word \<Rightarrow> (32 word list \<times> nat) asn1_reader" where
  "read_oid_loop oid oid_ptr len oidlen s =
     (if len = 0 \<or> oidlen = 0 then Some (Inr ((oid, oid_ptr), s))
      else (case read_subid 0 len s of
         None \<Rightarrow> None
       | Some (Inl e) \<Rightarrow> Some (Inl e)
       | Some (Inr ((sub_id, len), s')) \<Rightarrow>
           (if sub_id > SNMP_ASN1_OID_MAX_ID then Some (Inl EINVAL)
            else if length oid \<le> oid_ptr then None
            else read_oid_loop (oid[oid_ptr := sub_id]) (Suc oid_ptr) len (oidlen - 1) s')))"
  by pat_completeness auto
termination by (relation "measure (\<lambda>(_, _, _, _, buf, _). length buf)") (auto dest!: read_subid_shrinks)

declare read_oid_loop.simps [simp del]

definition oid_expand :: "32 word list \<Rightarrow> 32 word list" where
  "oid_expand oid =
     (let sub_id = oid ! 1 in
      if sub_id = 0x2b then oid[0 := 1, 1 := 3]
      else (let y = ucast (ucast (sub_id mod 40) :: 8 word);
                x = ucast (ucast ((sub_id - y) div 40) :: 8 word)
            in oid[1 := y, 0 := x]))"

definition snmp_asn1_read_oid :: "32 word list \<Rightarrow> 32 word \<Rightarrow> (8 word \<times> 32 word list \<times> nat) asn1_reader" where
  "snmp_asn1_read_oid asn1_oid asn1_oidlen s =
     rd_bind (asn1_read_type s) (\<lambda>(asn1_type, s).
       if asn1_type AND SNMP_ASN1_TYPE_OID = 0 then Some (Inl EINVAL)
       else rd_bind (asn1_read_len s) (\<lambda>(objlen, buf, buflen).
         if unat objlen > buflen then Some (Inl EINVAL)
         else if objlen = 0 \<and> asn1_oid = [] then None
         else rd_bind (read_oid_loop (if objlen = 0 then asn1_oid[0 := 0] else asn1_oid) 1 objlen (asn1_oidlen - 1)
                (buf, buflen)) (\<lambda>((oid, oid_ptr), s').
              if length oid < 2 then None else Some (Inr ((asn1_type, oid_expand oid, oid_ptr), s')))))"

text \<open>\<open>pstrndup\<close> of \<open>n\<close> bytes. Its copy loop looks at a byte before it looks at the number of bytes left, so it
  reads the byte after the last one too.\<close>

fun strndup_loop :: "nat \<Rightarrow> bytes \<Rightarrow> bytes option" where
  "strndup_loop n [] = None"
| "strndup_loop n (b # bs) =
     (if b = 0 \<or> n = 0 then Some []
      else (case strndup_loop (n - 1) bs of None \<Rightarrow> None | Some cs \<Rightarrow> Some (b # cs)))"

definition snmp_asn1_read_string :: "(8 word \<times> bytes \<times> nat) asn1_reader" where
  "snmp_asn1_read_string s =
     rd_bind (asn1_read_type s) (\<lambda>(asn1_type, s).
       if asn1_type AND SNMP_ASN1_TYPE_OCTETSTRING = 0 then Some (Inl EINVAL)
       else rd_bind (asn1_read_len s) (\<lambda>(objlen, buf, buflen).
         if unat objlen > buflen then Some (Inl EINVAL)
         else (case strndup_loop (unat objlen) buf of
            None \<Rightarrow> None
          | Some str \<Rightarrow>
              Some (Inr ((asn1_type, str, unat objlen), drop (unat objlen) buf, size_sub buflen (unat objlen))))))"

section \<open>Writing\<close>

definition asn1_write_byte :: "8 word \<Rightarrow> asn1_writer" where
  "asn1_write_byte byte = (\<lambda>(out, room). if room < 1 then Inl EINVAL else Inr (out @ [byte], room - 1))"

definition asn1_write_type :: "8 word \<Rightarrow> asn1_writer" where
  "asn1_write_type asn1_type s = asn1_write_byte asn1_type s"

text \<open>\<open>memmove\<close> of \<open>htons(len)\<close>, after the check for the room.\<close>

definition write_short :: "16 word \<Rightarrow> asn1_writer" where
  "write_short len = (\<lambda>(out, room). Inr (out @ [ucast (drop_bit 8 len), ucast len], room - 2))"

definition asn1_write_len :: "32 word \<Rightarrow> 32 word \<Rightarrow> asn1_writer" where
  "asn1_write_len asn1_len flags = (\<lambda>(out, room).
     if flags AND SNMP_ASN1_FL_KNOWN_LEN \<noteq> 0 then
       (if asn1_len < 0x80 then
          (if room < 1 then Inl EINVAL else asn1_write_byte (ucast asn1_len) (out, room))
        else if asn1_len \<le> 0xff then
          (if room < 2 then Inl EINVAL
           else wr_bind (asn1_write_byte (1 OR 0x80) (out, room)) (asn1_write_byte (ucast asn1_len)))
        else
          (if room < 3 then Inl EINVAL
           else wr_bind (asn1_write_byte (2 OR 0x80) (out, room)) (write_short (ucast asn1_len))))
     else
       (if room < 3 then Inl EINVAL
        else wr_bind (asn1_write_byte (2 OR 0x80) (out, room)) (write_short (ucast asn1_len))))"

definition snmp_asn1_write_header :: "8 word \<Rightarrow> 32 word \<Rightarrow> 32 word \<Rightarrow> asn1_writer" where
  "snmp_asn1_write_header asn1_type asn1_len flags s =
     wr_bind (asn1_write_type asn1_type s) (asn1_write_len asn1_len flags)"

text \<open>The integer without the bytes that only repeat its sign: their number, and the value moved to the top.\<close>

fun int_trim :: "nat \<Rightarrow> 64 word \<Rightarrow> nat \<times> 64 word" where
  "int_trim intsz objval =
     (if (objval AND push_bit 55 0x1ff = 0 \<or> objval AND push_bit 55 0x1ff = push_bit 55 0x1ff) \<and> intsz > 1
      then int_trim (intsz - 1) (push_bit 8 objval)
      else (intsz, objval))"

declare int_trim.simps [simp del]

fun write_int_loop :: "nat \<Rightarrow> 64 word \<Rightarrow> asn1_writer" where
  "write_int_loop 0 objval s = Inr s"
| "write_int_loop (Suc intsz) objval s =
     wr_bind (asn1_write_byte (ucast (drop_bit 56 (objval AND push_bit 56 0xff))) s)
       (write_int_loop intsz (push_bit 8 objval))"

definition snmp_asn1_write_int :: "8 word \<Rightarrow> 64 word \<Rightarrow> 32 word \<Rightarrow> asn1_writer" where
  "snmp_asn1_write_int asn1_type asn1_int flags s =
     (let (intsz, objval) = int_trim 8 asn1_int in
      wr_bind (snmp_asn1_write_header asn1_type (of_nat intsz) (flags OR SNMP_ASN1_FL_KNOWN_LEN) s) (\<lambda>(out, room).
        if room < intsz then Inl EINVAL else write_int_loop intsz objval (out, room)))"

fun uint_trim :: "nat \<Rightarrow> 64 word \<Rightarrow> nat \<times> 64 word" where
  "uint_trim uintsz asn1_uint =
     (if asn1_uint AND 0xff800000 = 0 \<and> uintsz > 1 then uint_trim (uintsz - 1) (push_bit 8 asn1_uint)
      else (uintsz, asn1_uint))"

declare uint_trim.simps [simp del]

fun write_uint_loop :: "nat \<Rightarrow> 64 word \<Rightarrow> asn1_writer" where
  "write_uint_loop 0 asn1_uint s = Inr s"
| "write_uint_loop (Suc uintsz) asn1_uint s =
     wr_bind (asn1_write_byte (ucast (drop_bit 24 (asn1_uint AND 0xff000000))) s)
       (write_uint_loop uintsz (push_bit 8 asn1_uint))"

definition snmp_asn1_write_uint :: "8 word \<Rightarrow> 64 word \<Rightarrow> asn1_writer" where
  "snmp_asn1_write_uint asn1_type asn1_uint s =
     (let add_null_byte = (asn1_uint AND 0x80000000 \<noteq> 0);
          (uintsz, asn1_uint) = uint_trim (if add_null_byte then 5 else 4) asn1_uint
      in wr_bind (snmp_asn1_write_header asn1_type (of_nat uintsz) SNMP_ASN1_FL_KNOWN_LEN s) (\<lambda>(out, room).
           if room < uintsz then Inl EINVAL
           else wr_bind (if add_null_byte then asn1_write_byte 0 (out, room) else Inr (out, room))
                  (write_uint_loop (if add_null_byte then uintsz - 1 else uintsz) asn1_uint)))"

definition snmp_asn1_write_null :: "8 word \<Rightarrow> asn1_writer" where
  "snmp_asn1_write_null asn1_type s = snmp_asn1_write_header asn1_type 0 SNMP_ASN1_FL_KNOWN_LEN s"

text \<open>The number of bytes of a sub-identifier, and the bytes.\<close>

definition oid_len :: "32 word \<Rightarrow> nat" where
  "oid_len sub_id =
     (if sub_id < 0x80 then 1 else if sub_id < 0x4000 then 2 else if sub_id < 0x200000 then 3
      else if sub_id < 0x10000000 then 4 else 5)"

definition oid_bytes :: "32 word \<Rightarrow> bytes" where
  "oid_bytes sub_id =
     (let top = (\<lambda>k. ucast (drop_bit k sub_id OR 0x80));
          mid = (\<lambda>k. ucast ((drop_bit k sub_id AND 0x7f) OR 0x80));
          low = ucast (sub_id AND 0x7f)
      in if oid_len sub_id = 1 then [ucast sub_id]
         else if oid_len sub_id = 2 then [top 7, low]
         else if oid_len sub_id = 3 then [top 14, mid 7, low]
         else if oid_len sub_id = 4 then [top 21, mid 14, mid 7, low]
         else [top 28, mid 21, mid 14, mid 7, low])"

fun write_bytes :: "bytes \<Rightarrow> asn1_writer" where
  "write_bytes [] s = Inr s"
| "write_bytes (b # bs) s = wr_bind (asn1_write_byte b s) (write_bytes bs)"

fun write_subids :: "32 word list \<Rightarrow> asn1_writer" where
  "write_subids [] s = Inr s"
| "write_subids (sub_id # subs) s = wr_bind (write_bytes (oid_bytes sub_id) s) (write_subids subs)"

text \<open>The sub-identifiers that are sized and the value that \<open>asn1_oidlen\<close> has then. The second loop writes
  \<open>asn1_oidlen - 1\<close> of them. The array may be shorter than the caller says; reading beyond its end is \<open>None\<close>.\<close>

definition oid_combine :: "32 word list \<Rightarrow> nat \<Rightarrow> (32 word list \<times> nat) result option" where
  "oid_combine oid oidlen =
     (if oidlen = 0 then Some (Inr ([0], 0))
      else if oid = [] then None
      else if oid ! 0 > 2 then Some (Inl EINVAL)
      else if oidlen > SNMP_MIB_MAX_OIDLEN then Some (Inl EINVAL)
      else if oidlen = 1 then Some (Inr ([oid ! 0 * 40], 2))
      else if length oid < oidlen then None
      else Some (Inr ((oid ! 0 * 40 + oid ! 1) # drop 2 (take oidlen oid), oidlen)))"

definition snmp_asn1_write_oid :: "8 word \<Rightarrow> 32 word list \<Rightarrow> nat \<Rightarrow> bytes \<times> nat \<Rightarrow> (bytes \<times> nat) result option" where
  "snmp_asn1_write_oid asn1_type oid oidlen s =
     rd_bind (oid_combine oid oidlen) (\<lambda>(subs, oidlen).
       (let asn1_len = sum_list (map oid_len subs) in
        Some (wr_bind (snmp_asn1_write_header asn1_type (of_nat asn1_len) SNMP_ASN1_FL_KNOWN_LEN s) (\<lambda>(out, room).
          if room < asn1_len then Inl EINVAL
          else write_subids (take (oidlen - 1) subs) (out, room)))))"

definition snmp_asn1_write_string :: "8 word \<Rightarrow> bytes \<Rightarrow> 32 word \<Rightarrow> bytes \<times> nat \<Rightarrow> (bytes \<times> nat) result option" where
  "snmp_asn1_write_string asn1_type str strlen s =
     rd_bind (Some (snmp_asn1_write_header asn1_type strlen SNMP_ASN1_FL_KNOWN_LEN s)) (\<lambda>(out, room).
       if room < unat strlen then Some (Inl EINVAL)
       else if length str < unat strlen then None
       else Some (Inr (out @ take (unat strlen) str, room - unat strlen)))"

definition snmp_asn1_write_exception :: "8 word \<Rightarrow> 8 word \<Rightarrow> asn1_writer" where
  "snmp_asn1_write_exception asn1_type asn1_ex s =
     snmp_asn1_write_header asn1_type (ucast asn1_ex) SNMP_ASN1_FL_KNOWN_LEN s"

section \<open>Bits of the masks\<close>

declare bit_numeral_word_iff [simp del]

lemma bit_int_mask: "bit (18374686479671623680 :: 64 word) i \<longleftrightarrow> 56 \<le> i \<and> i < 64"
proof -
  have eq: "(18374686479671623680 :: 64 word) = push_bit 56 (mask 8)" by (simp add: mask_eq_exp_minus_1)
  show ?thesis unfolding eq bit_push_bit_iff bit_mask_iff by auto
qed

lemma bit_int_sign_mask: "bit (18410715276690587648 :: 64 word) i \<longleftrightarrow> 55 \<le> i \<and> i < 64"
proof -
  have eq: "(18410715276690587648 :: 64 word) = push_bit 55 (mask 9)" by (simp add: mask_eq_exp_minus_1)
  show ?thesis unfolding eq bit_push_bit_iff bit_mask_iff by auto
qed

lemma bit_uint_mask: "bit (0xff000000 :: 64 word) i \<longleftrightarrow> 24 \<le> i \<and> i < 32"
proof -
  have eq: "(0xff000000 :: 64 word) = push_bit 24 (mask 8)" by (simp add: mask_eq_exp_minus_1)
  show ?thesis unfolding eq bit_push_bit_iff bit_mask_iff by auto
qed

lemma bit_uint_sign_mask: "bit (0xff800000 :: 64 word) i \<longleftrightarrow> 23 \<le> i \<and> i < 32"
proof -
  have eq: "(0xff800000 :: 64 word) = push_bit 23 (mask 9)" by (simp add: mask_eq_exp_minus_1)
  show ?thesis unfolding eq bit_push_bit_iff bit_mask_iff by auto
qed

lemma bit_byte_top: "bit (0x80 :: 8 word) i \<longleftrightarrow> i = 7"
proof -
  have eq: "(0x80 :: 8 word) = push_bit 7 1" by simp
  show ?thesis unfolding eq bit_push_bit_iff bit_1_iff by auto
qed

lemmas bit_masks = bit_int_mask bit_int_sign_mask bit_uint_mask bit_uint_sign_mask bit_byte_top

lemmas bit_ops = bit_and_iff bit_or_iff bit_push_bit_iff bit_drop_bit_eq bit_unsigned_iff bit_take_bit_iff

section \<open>What the writers write\<close>

text \<open>The bytes of a length, and the low bytes of a number with the most significant one first.\<close>

definition len_bytes :: "32 word \<Rightarrow> bytes" where
  "len_bytes l =
     (if l < 0x80 then [ucast l] else if l \<le> 0xff then [0x81, ucast l]
      else [0x82, ucast (drop_bit 8 (ucast l :: 16 word)), ucast (ucast l :: 16 word)])"

fun low_bytes :: "nat \<Rightarrow> 64 word \<Rightarrow> bytes" where
  "low_bytes 0 v = []"
| "low_bytes (Suc n) v = ucast (drop_bit (8 * n) v) # low_bytes n v"

lemma length_low_bytes [simp]: "length (low_bytes n v) = n"
  by (induction n) auto

lemma length_len_bytes: "length (len_bytes l) \<le> 3" "0 < length (len_bytes l)"
  by (auto simp: len_bytes_def)

lemma write_byte_room [simp]: "1 \<le> room \<Longrightarrow> asn1_write_byte b (out, room) = Inr (out @ [b], room - 1)"
  by (simp add: asn1_write_byte_def)

lemma write_header_known:
  "\<lbrakk>flags AND 1 \<noteq> 0; length (len_bytes l) < room\<rbrakk> \<Longrightarrow>
   snmp_asn1_write_header t l flags (out, room) =
     Inr (out @ t # len_bytes l, room - Suc (length (len_bytes l)))"
  by (auto simp: snmp_asn1_write_header_def asn1_write_type_def asn1_write_len_def len_bytes_def write_short_def
      split: if_splits)

lemma write_bytes_room:
  "length bs \<le> room \<Longrightarrow> write_bytes bs (out, room) = Inr (out @ bs, room - length bs)"
  by (induction bs arbitrary: out room) auto

lemma write_int_loop_low_bytes:
  "\<lbrakk>n \<le> 8; n \<le> room\<rbrakk> \<Longrightarrow>
   write_int_loop n (push_bit (8 * (8 - n)) v) (out, room) = Inr (out @ low_bytes n v, room - n)"
proof (induction n arbitrary: out room)
  case (Suc n)
  have "ucast (drop_bit 56 (push_bit (8 * (8 - Suc n)) v AND push_bit 56 0xff)) = (ucast (drop_bit (8 * n) v) :: 8 word)"
  proof (rule bit_word_eqI)
    fix i assume i: "i < LENGTH(8)"
    have "56 + i - 8 * (8 - Suc n) = 8 * n + i" "8 * (8 - Suc n) \<le> 56 + i" using Suc.prems(1) by auto
    then show "bit (ucast (drop_bit 56 (push_bit (8 * (8 - Suc n)) v AND push_bit 56 0xff)) :: 8 word) i =
        bit (ucast (drop_bit (8 * n) v) :: 8 word) i"
      using i by (simp add: bit_ops bit_masks del: drop_bit_and)
  qed
  moreover have "push_bit 8 (push_bit (8 * (8 - Suc n)) v) = push_bit (8 * (8 - n)) v"
    using Suc.prems(1) by (simp add: push_bit_push_bit algebra_simps)
  ultimately show ?case using Suc by simp
qed simp

lemma write_uint_loop_low_bytes:
  "\<lbrakk>n \<le> 4; n \<le> room\<rbrakk> \<Longrightarrow>
   write_uint_loop n (push_bit (8 * (4 - n)) v) (out, room) = Inr (out @ low_bytes n v, room - n)"
proof (induction n arbitrary: out room)
  case (Suc n)
  have "ucast (drop_bit 24 (push_bit (8 * (4 - Suc n)) v AND 0xff000000)) = (ucast (drop_bit (8 * n) v) :: 8 word)"
  proof (rule bit_word_eqI)
    fix i assume i: "i < LENGTH(8)"
    have "24 + i - 8 * (4 - Suc n) = 8 * n + i" "8 * (4 - Suc n) \<le> 24 + i" using Suc.prems(1) by auto
    then show "bit (ucast (drop_bit 24 (push_bit (8 * (4 - Suc n)) v AND 0xff000000)) :: 8 word) i =
        bit (ucast (drop_bit (8 * n) v) :: 8 word) i"
      using i by (simp add: bit_ops bit_masks del: drop_bit_and)
  qed
  moreover have "push_bit 8 (push_bit (8 * (4 - Suc n)) v) = push_bit (8 * (4 - n)) v"
    using Suc.prems(1) by (simp add: push_bit_push_bit algebra_simps)
  ultimately show ?case using Suc by simp
qed simp

section \<open>What the readers read\<close>

lemma size_sub_le [simp]: "b \<le> a \<Longrightarrow> size_sub a b = a - b"
  by (simp add: size_sub_def)

lemma read_byte_Cons [simp]:
  "1 \<le> buflen \<Longrightarrow> asn1_read_byte (b # rest, buflen) = Some (Inr (b, rest, buflen - 1))"
  by (simp add: asn1_read_byte_def)

lemma bit_word_small:
  fixes w :: "'a :: len word"
  assumes "w < 2 ^ n" "bit w i"
  shows "i < n"
proof -
  have "take_bit n w = w" using assms(1) by (simp add: take_bit_eq_mod mod_word_less)
  with assms(2) have "bit (take_bit n w) i" by simp
  then show ?thesis by (simp add: bit_take_bit_iff)
qed

lemma read_len_short:
  assumes "l < 0x80" "1 \<le> buflen"
  shows "asn1_read_len (ucast l # rest, buflen) = Some (Inr (l, rest, buflen - 1))"
proof -
  have small: "bit l i \<Longrightarrow> i < 7" for i using assms(1) bit_word_small [of l 7 i] by simp
  have "ucast l AND 0x80 = (0 :: 8 word)"
    by (rule bit_word_eqI) (auto simp: bit_simps bit_masks dest: small)
  moreover have "ucast (ucast l :: 8 word) = l"
    by (rule bit_word_eqI) (use small in \<open>auto simp: bit_simps dest: small\<close>)
  ultimately show ?thesis using assms by (simp add: asn1_read_len_def)
qed

lemma replicate_low: "replicate 3 x = [x, x, x]" "replicate 2 x = [x, x]"
  by (simp_all add: numeral_3_eq_3 numeral_2_eq_2)

lemma read_len_len_bytes:
  assumes "l \<le> 0xffff" "length (len_bytes l) \<le> buflen"
  shows "asn1_read_len (len_bytes l @ rest, buflen) = Some (Inr (l, rest, buflen - length (len_bytes l)))"
proof -
  have small: "bit l i \<Longrightarrow> i < 16" for i
    using assms(1) bit_word_small [of l 16 i] by (simp add: word_less_nat_alt word_le_nat_alt)
  consider "l < 0x80" | "\<not> l < 0x80" "l \<le> 0xff" | "\<not> l \<le> 0xff" by blast
  then show ?thesis
  proof cases
    case 1
    then show ?thesis using read_len_short [OF 1, of buflen rest] assms by (simp add: len_bytes_def)
  next
    case 2
    have s8: "bit l i \<Longrightarrow> i < 8" for i
      using 2(2) bit_word_small [of l 8 i] by (simp add: word_less_nat_alt word_le_nat_alt)
    have "drop_bit 24 (be32 [ucast l, 0, 0, 0]) = l"
      by (rule bit_word_eqI) (auto simp: be32_def bit_simps dest: s8)
    then show ?thesis using 2 assms by (simp add: asn1_read_len_def len_bytes_def Let_def replicate_low)
  next
    case 3
    have "drop_bit 16 (be32 [ucast (drop_bit 8 (ucast l :: 16 word)), ucast (ucast l :: 16 word), 0, 0]) = l"
      by (rule bit_word_eqI) (auto simp: be32_def bit_simps dest: small)
    moreover have "\<not> l < 0x80" using 3 by (auto simp: word_less_nat_alt word_le_nat_alt)
    ultimately show ?thesis using 3 assms by (simp add: asn1_read_len_def len_bytes_def Let_def replicate_low)
  qed
qed

fun int_acc :: "64 word \<Rightarrow> bytes \<Rightarrow> 64 word" where
  "int_acc a [] = a"
| "int_acc a (b # bs) = int_acc (push_bit 8 a OR ucast b) bs"

lemma read_int_loop_acc:
  "length bs \<le> buflen \<Longrightarrow>
   read_int_loop (length bs) a (bs @ rest, buflen) = Some (Inr (int_acc a bs, rest, buflen - length bs))"
  by (induction bs arbitrary: a buflen) auto

lemma int_acc_low_bytes: "int_acc a (low_bytes n v) = push_bit (8 * n) a OR take_bit (8 * n) v"
proof (induction n arbitrary: a)
  case (Suc n)
  have "push_bit (8 * n) (push_bit 8 a OR ucast (ucast (drop_bit (8 * n) v) :: 8 word)) OR take_bit (8 * n) v =
      push_bit (8 * Suc n) a OR take_bit (8 * Suc n) v"
    by (rule bit_word_eqI) (auto simp: bit_simps algebra_simps)
  then show ?case using Suc by simp
qed simp


section \<open>Integers\<close>

text \<open>All bits of a number from the top one of its \<open>n\<close> low bytes on are equal: the number is determined by those
  bytes.\<close>

definition sign_ext :: "nat \<Rightarrow> 64 word \<Rightarrow> bool" where
  "sign_ext n v \<longleftrightarrow> (\<forall>i. 8 * n - 1 \<le> i \<and> i < 64 \<longrightarrow> bit v i = bit v (8 * n - 1))"

lemma sign_extD: "\<lbrakk>sign_ext n v; 8 * n - 1 \<le> i; i < 64\<rbrakk> \<Longrightarrow> bit v i = bit v (8 * n - 1)"
  unfolding sign_ext_def by blast

lemma sign_ext_low_bytes:
  assumes "sign_ext n v" "1 \<le> n"
  shows "push_bit (8 * n) (if bit v (8 * n - 1) then -1 else 0) OR take_bit (8 * n) v = v"
proof (rule bit_word_eqI)
  fix i assume i: "i < LENGTH(64)"
  show "bit (push_bit (8 * n) (if bit v (8 * n - 1) then -1 else 0) OR take_bit (8 * n) v) i = bit v i"
  proof (cases "i < 8 * n")
    case False
    then have "bit v i = bit v (8 * n - 1)" by (intro sign_extD [OF assms(1)]) (use i in auto)
    then show ?thesis using False i by (simp add: bit_or_iff bit_push_bit_iff bit_take_bit_iff; linarith)
  qed (simp add: bit_or_iff bit_push_bit_iff bit_take_bit_iff)
qed

lemma same_top_bits:
  fixes w :: "64 word"
  assumes "w AND push_bit 55 0x1ff = 0 \<or> w AND push_bit 55 0x1ff = push_bit 55 0x1ff" "55 \<le> i" "i < 64"
  shows "bit w i = bit w 55"
proof -
  have m: "bit (w AND push_bit 55 0x1ff) j = bit w j" if "55 \<le> j" "j < 64" for j
    using that by (simp add: bit_and_iff bit_masks)
  from assms(1) show ?thesis
  proof
    assume "w AND push_bit 55 0x1ff = 0"
    then show ?thesis using m [of i] m [of 55] assms(2,3) by simp
  next
    assume "w AND push_bit 55 0x1ff = push_bit 55 0x1ff"
    then show ?thesis using m [of i] m [of 55] assms(2,3) by (simp add: bit_masks)
  qed
qed

lemma int_trim_sign_ext:
  "\<lbrakk>int_trim sz (push_bit (8 * (8 - sz)) v) = (n, w); sign_ext sz v; 1 \<le> sz; sz \<le> 8\<rbrakk> \<Longrightarrow>
   1 \<le> n \<and> n \<le> sz \<and> w = push_bit (8 * (8 - n)) v \<and> sign_ext n v"
proof (induction sz)
  case (Suc sz)
  let ?w = "push_bit (8 * (8 - Suc sz)) v"
  show ?case
  proof (cases "(?w AND push_bit 55 0x1ff = 0 \<or> ?w AND push_bit 55 0x1ff = push_bit 55 0x1ff) \<and> Suc sz > 1")
    case True
    have sh: "push_bit 8 ?w = push_bit (8 * (8 - sz)) v" using Suc.prems(4) by (simp add: push_bit_push_bit algebra_simps)
    have win: "bit v i = bit v (8 * sz - 1)" if "8 * sz - 1 \<le> i" "i < 8 * Suc sz" for i
    proof -
      have "bit ?w (i + 8 * (8 - Suc sz)) = bit ?w 55"
        by (rule same_top_bits) (use True that Suc.prems(4) in auto)
      moreover have "55 - 8 * (8 - Suc sz) = 8 * sz - 1" "8 * (8 - Suc sz) \<le> 55" "i + 8 * (8 - Suc sz) < 64"
        using True that Suc.prems(4) by auto
      ultimately show ?thesis by (simp add: bit_push_bit_iff)
    qed
    have "bit v i = bit v (8 * sz - 1)" if "8 * sz - 1 \<le> i" "i < 64" for i
    proof (cases "i < 8 * Suc sz")
      case False
      then have "bit v i = bit v (8 * Suc sz - 1)" by (intro sign_extD [OF Suc.prems(2)]) (use that(2) in auto)
      also have "\<dots> = bit v (8 * sz - 1)" by (rule win) auto
      finally show ?thesis .
    qed (rule win [OF that(1)])
    then have "sign_ext sz v" unfolding sign_ext_def by blast
    moreover have "int_trim (Suc sz) ?w = int_trim sz (push_bit 8 ?w)" using True by (subst int_trim.simps) simp
    then have "int_trim sz (push_bit (8 * (8 - sz)) v) = (n, w)" using Suc.prems(1) unfolding sh by simp
    ultimately show ?thesis using Suc True by auto
  next
    case False
    then have "n = Suc sz" "w = ?w" using Suc.prems(1) by (subst (asm) int_trim.simps; auto)+
    then show ?thesis using Suc.prems by simp
  qed
qed simp


lemma top_bit_test: "(b :: 8 word) AND 0x80 \<noteq> 0 \<longleftrightarrow> bit b 7"
proof
  assume "b AND 0x80 \<noteq> 0"
  then obtain i where "bit (b AND 0x80) i" using bit_word_eqI [of "b AND 0x80" 0] by auto
  then show "bit b 7" by (auto simp add: bit_and_iff bit_masks)
next
  assume "bit b 7"
  then have "bit (b AND 0x80) 7" by (simp add: bit_and_iff bit_masks)
  then show "b AND 0x80 \<noteq> 0" by auto
qed

text \<open>An integer object: the header and the low bytes.\<close>

lemma len_bytes_small: "n < 128 \<Longrightarrow> len_bytes (of_nat n) = [of_nat n]"
  by (simp add: len_bytes_def word_less_nat_alt unat_of_nat take_bit_nat_eq_self unsigned_of_nat)

lemma read_int_object:
  assumes "t AND 2 \<noteq> 0" "length bs < 128" "bs \<noteq> []"
  shows "snmp_asn1_read_int flags (t # of_nat (length bs) # bs @ rest, length bs + 2 + k) =
     Some (Inr ((t, int_acc (if bit (hd bs) 7 then -1 else 0) bs), rest, k))"
proof -
  have len: "asn1_read_len (of_nat (length bs) # bs @ rest, length bs + 1 + k) =
      Some (Inr (of_nat (length bs), bs @ rest, length bs + k))"
    using read_len_len_bytes [of "of_nat (length bs)" "length bs + 1 + k" "bs @ rest"] assms(2)
    by (simp add: len_bytes_small word_le_nat_alt unsigned_of_nat take_bit_nat_eq_self)
  have u: "unat (of_nat (length bs) :: 32 word) = length bs"
    using assms(2) by (simp add: unsigned_of_nat take_bit_nat_eq_self)
  obtain b bs' where bs: "bs = b # bs'" using assms(3) by (cases bs) auto
  show ?thesis
    using assms(1) len u read_int_loop_acc [of bs "length bs + k" "if bit (hd bs) 7 then -1 else 0" rest]
    by (cases "bit b 7") (simp_all add: snmp_asn1_read_int_def asn1_read_type_def bs top_bit_test)
qed

lemma write_header_small:
  "\<lbrakk>flags AND 1 \<noteq> 0; n < 128; n + 2 \<le> room\<rbrakk> \<Longrightarrow>
   snmp_asn1_write_header t (of_nat n) flags (out, room) = Inr (out @ [t, of_nat n], room - 2)"
  by (simp add: write_header_known len_bytes_small numeral_2_eq_2)

lemma or_known_len: "(flags OR 1) AND 1 \<noteq> (0 :: 32 word)"
proof
  assume "(flags OR 1) AND 1 = (0 :: 32 word)"
  then have "bit ((flags OR 1) AND 1) 0 \<longleftrightarrow> bit (0 :: 32 word) 0" by simp
  then show False by (simp add: bit_and_iff bit_or_iff bit_1_iff)
qed

lemma hd_low_bytes: "1 \<le> n \<Longrightarrow> bit (hd (low_bytes n v)) 7 = bit v (8 * n - 1)"
  by (cases n) (simp_all add: bit_unsigned_iff bit_drop_bit_eq algebra_simps)

lemma sign_ext_8: "sign_ext 8 v"
  unfolding sign_ext_def
proof (intro allI impI)
  fix i :: nat assume "8 * 8 - 1 \<le> i \<and> i < 64"
  then have "i = 63" by linarith
  then show "bit v i = bit v (8 * 8 - 1)" by simp
qed

definition int_object :: "8 word \<Rightarrow> 64 word \<Rightarrow> bytes" where
  "int_object t v = (let n = fst (int_trim 8 v) in t # of_nat n # low_bytes n v)"

lemma int_trim_8:
  obtains n where "int_trim 8 v = (n, push_bit (8 * (8 - n)) v)" "1 \<le> n" "n \<le> 8" "sign_ext n v"
proof -
  obtain n w where nw: "int_trim 8 v = (n, w)" by force
  then have "1 \<le> n \<and> n \<le> 8 \<and> w = push_bit (8 * (8 - n)) v \<and> sign_ext n v"
    using int_trim_sign_ext [of 8 v n w] sign_ext_8 by simp
  then show ?thesis using nw that by blast
qed

lemma length_int_object: "length (int_object t v) \<le> 10"
proof -
  obtain n where "int_trim 8 v = (n, push_bit (8 * (8 - n)) v)" "n \<le> 8" by (rule int_trim_8)
  then show ?thesis by (simp add: int_object_def)
qed

lemma write_int_object:
  assumes "10 \<le> room"
  shows "snmp_asn1_write_int t v flags (out, room) = Inr (out @ int_object t v, room - length (int_object t v))"
proof -
  obtain n where n: "int_trim 8 v = (n, push_bit (8 * (8 - n)) v)" "1 \<le> n" "n \<le> 8" by (rule int_trim_8)
  then show ?thesis using assms write_int_loop_low_bytes [of n "room - 2" v "out @ [t, of_nat n]"]
    by (simp add: snmp_asn1_write_int_def int_object_def write_header_small or_known_len)
qed

lemma read_int_written:
  assumes "t AND 2 \<noteq> 0"
  shows "snmp_asn1_read_int flags (int_object t v @ rest, length (int_object t v) + k) = Some (Inr ((t, v), rest, k))"
proof -
  obtain n where n: "int_trim 8 v = (n, push_bit (8 * (8 - n)) v)" "1 \<le> n" "n \<le> 8" "sign_ext n v" by (rule int_trim_8)
  have ne: "low_bytes n v \<noteq> []" using n(2) by (cases n) auto
  have "int_acc (if bit (hd (low_bytes n v)) 7 then -1 else 0) (low_bytes n v) = v"
    unfolding int_acc_low_bytes hd_low_bytes [OF n(2)] by (rule sign_ext_low_bytes [OF n(4,2)])
  then show ?thesis using read_int_object [OF assms _ ne, of flags rest k] n(1,3) by (simp add: int_object_def)
qed

text \<open>C17. Every \<open>long\<close> is read back from the bytes that are written for it.\<close>

theorem snmp_asn1_int_round_trip:
  assumes "t AND 2 \<noteq> 0" "10 \<le> room"
  shows "\<exists>out room'. snmp_asn1_write_int t v flags ([], room) = Inr (out, room') \<and> length out + room' = room \<and>
           length out \<le> 10 \<and>
           snmp_asn1_read_int flags' (out @ rest, length out + k) = Some (Inr ((t, v), rest, k))"
proof -
  have "length (int_object t v) \<le> room" using length_int_object [of t v] assms(2) by linarith
  then show ?thesis
    using write_int_object [OF assms(2), of t v flags "[]"] read_int_written [OF assms(1), of flags' v rest k] length_int_object [of t v]
    by (intro exI [of _ "int_object t v"] exI [of _ "room - length (int_object t v)"]) simp
qed

theorem snmp_asn1_int_round_trip_witness:
  "\<exists>out room'. snmp_asn1_write_int 2 (- 40000) 0 ([], 20) = Inr (out, room') \<and> length out + room' = 20 \<and>
     length out \<le> 10 \<and>
     snmp_asn1_read_int 0 (out @ [5, 0], length out + 2) = Some (Inr ((2, - 40000), [5, 0], 2))"
  by (rule snmp_asn1_int_round_trip) simp_all

section \<open>Unsigned integers\<close>

definition zero_ext :: "nat \<Rightarrow> 64 word \<Rightarrow> bool" where
  "zero_ext n v \<longleftrightarrow> (\<forall>i. bit v i \<longrightarrow> i < 8 * n - 1)"

lemma uint_trim_zero_ext:
  "\<lbrakk>uint_trim sz (push_bit (8 * (4 - sz)) v) = (n, w); zero_ext sz v; 1 \<le> sz; sz \<le> 4\<rbrakk> \<Longrightarrow>
   1 \<le> n \<and> n \<le> sz \<and> w = push_bit (8 * (4 - n)) v \<and> zero_ext n v"
proof (induction sz)
  case (Suc sz)
  let ?w = "push_bit (8 * (4 - Suc sz)) v"
  show ?case
  proof (cases "?w AND 0xff800000 = 0 \<and> Suc sz > 1")
    case True
    have sh: "push_bit 8 ?w = push_bit (8 * (4 - sz)) v" using Suc.prems(4) by (simp add: push_bit_push_bit algebra_simps)
    have pos: "0 < sz" using True by simp
    have "i < 8 * sz - 1" if b: "bit v i" for i
    proof (rule ccontr)
      assume i: "\<not> i < 8 * sz - 1"
      have lt: "i < 8 * Suc sz - 1" using Suc.prems(2) b by (simp add: zero_ext_def)
      have "bit (?w AND 0xff800000) (i + 8 * (4 - Suc sz))"
        using i lt b pos Suc.prems(4) by (auto simp: bit_and_iff bit_push_bit_iff bit_masks)
      then show False using True by simp
    qed
    then have "zero_ext sz v" by (simp add: zero_ext_def)
    moreover have "uint_trim (Suc sz) ?w = uint_trim sz (push_bit 8 ?w)" using True by (subst uint_trim.simps) simp
    then have "uint_trim sz (push_bit (8 * (4 - sz)) v) = (n, w)" using Suc.prems(1) unfolding sh by simp
    ultimately show ?thesis using Suc True by auto
  next
    case False
    then have "n = Suc sz" "w = ?w" using Suc.prems(1) by (subst (asm) uint_trim.simps; auto)+
    then show ?thesis using Suc.prems by simp
  qed
qed simp

lemma bit_31_test: "(w :: 64 word) AND 0x80000000 \<noteq> 0 \<longleftrightarrow> bit w 31"
proof -
  have eq: "(0x80000000 :: 64 word) = push_bit 31 1" by simp
  have m: "bit (0x80000000 :: 64 word) i \<longleftrightarrow> i = 31" for i unfolding eq bit_push_bit_iff bit_1_iff by auto
  have "w AND 0x80000000 = 0 \<longleftrightarrow> (\<forall>i. \<not> bit (w AND 0x80000000) i)" by (metis bit_0_eq bit_word_eqI bot_apply bot_bool_def)
  then show ?thesis by (simp add: bit_and_iff m)
qed

text \<open>Every number of 32 bits is read back.\<close>

lemma take_bit_small: "v < 2 ^ n \<Longrightarrow> take_bit n (v :: 64 word) = v"
  by (simp add: take_bit_eq_mod mod_word_less)

lemma snmp_asn1_uint_round_trip:
  assumes t: "t AND 2 \<noteq> 0" and room: "7 \<le> room" and v: "v < 2 ^ 32"
  shows "\<exists>out room'. snmp_asn1_write_uint t v ([], room) = Inr (out, room') \<and> length out + room' = room \<and>
           snmp_asn1_read_uint (out @ rest, length out + k) = Some (Inr ((t, v), rest, k))"
proof -
  have v32: "bit v i \<Longrightarrow> i < 32" for i using bit_word_small [OF v] .
  have cast: "ucast (ucast v :: 32 word) = v"
    by (rule bit_word_eqI) (auto simp: bit_unsigned_iff dest: v32)
  have read: "snmp_asn1_read_uint (t # of_nat (length bs) # bs @ rest, length bs + 2 + k) = Some (Inr ((t, v), rest, k))"
    if "length bs < 128" "bs \<noteq> []" "int_acc (if bit (hd bs) 7 then -1 else 0) bs = v" for bs
    using read_int_object [OF t that(1,2), of 4 rest k] that(3) by (simp add: snmp_asn1_read_uint_def cast)
  show ?thesis
  proof (cases "bit v 31")
    case True
    have m: "v AND 0x80000000 \<noteq> 0" using True by (simp add: bit_31_test)
    have "bit (v AND 0xff800000) 31" using True by (simp add: bit_and_iff bit_masks)
    then have m': "v AND 0xff800000 \<noteq> 0" by auto
    let ?bs = "0 # low_bytes 4 v"
    have "uint_trim 5 v = (5, v)" using m' by (subst uint_trim.simps) simp
    then have "snmp_asn1_write_uint t v ([], room) = Inr (t # of_nat 5 # ?bs, room - 7)"
      using m room write_header_small [of 1 5 room t "[]"] write_uint_loop_low_bytes [of 4 "room - 3" v "[t, 5, 0]"]
      by (simp add: snmp_asn1_write_uint_def)
    moreover have "int_acc 0 ?bs = v" using take_bit_small [OF v] by (simp only: int_acc.simps int_acc_low_bytes) simp
    ultimately show ?thesis using read [of ?bs] room by (intro exI [of _ "t # of_nat 5 # ?bs"] exI [of _ "room - 7"]) simp
  next
    case False
    have "i < 31" if "bit v i" for i
      using v32 [OF that] that False by (cases "i = 31") auto
    then have z: "zero_ext 4 v" by (auto simp: zero_ext_def)
    have m: "v AND 0x80000000 = 0" using False bit_31_test by blast
    obtain n w where nw: "uint_trim 4 v = (n, w)" by force
    then have "1 \<le> n \<and> n \<le> 4 \<and> w = push_bit (8 * (4 - n)) v \<and> zero_ext n v"
      using uint_trim_zero_ext [of 4 v n w] z by simp
    then have n: "1 \<le> n" "n \<le> 4" and w: "w = push_bit (8 * (4 - n)) v" and zx: "zero_ext n v" by auto
    let ?bs = "low_bytes n v"
    have ne: "?bs \<noteq> []" using n(1) by (cases n) auto
    have "\<not> bit v (8 * n - 1)" using zx by (auto simp: zero_ext_def)
    moreover have "take_bit (8 * n) v = v"
      by (rule bit_word_eqI) (use zx in \<open>auto simp: zero_ext_def bit_take_bit_iff\<close>)
    ultimately have "int_acc (if bit (hd ?bs) 7 then -1 else 0) ?bs = v"
      unfolding int_acc_low_bytes hd_low_bytes [OF n(1)] by simp
    moreover have "snmp_asn1_write_uint t v ([], room) = Inr (t # of_nat n # ?bs, room - 2 - n)"
      using n room w write_header_small [of 1 n room t "[]"] write_uint_loop_low_bytes [of n "room - 2" v "[t, of_nat n]"]
      by (simp add: snmp_asn1_write_uint_def nw m)
    ultimately show ?thesis using read [OF _ ne] n room
      by (intro exI [of _ "t # of_nat n # ?bs"] exI [of _ "room - 2 - n"]) simp
  qed
qed


section \<open>Object identifiers\<close>

text \<open>One sub-identifier: a byte with the top bit set goes on, the last one does not.\<close>

lemma seven_bits_go_on:
  fixes x :: "32 word"
  defines "b \<equiv> ucast (take_bit 7 x OR 0x80) :: 8 word"
  shows "bit b 7" "ucast (b AND NOT 0x80) = take_bit 7 x"
proof -
  have eq: "(0x80 :: 32 word) = push_bit 7 1" by simp
  have m: "bit (0x80 :: 32 word) i \<longleftrightarrow> i = 7" for i unfolding eq bit_push_bit_iff bit_1_iff by auto
  show "bit b 7" by (simp add: b_def bit_unsigned_iff bit_or_iff m)
  show "ucast (b AND NOT 0x80) = take_bit 7 x"
    unfolding b_def
    by (rule bit_word_eqI) (auto simp only: bit_unsigned_iff bit_and_iff bit_or_iff bit_not_iff_eq bit_masks m bit_take_bit_iff; simp)
qed

lemma seven_bits_last:
  fixes x :: "32 word"
  defines "b \<equiv> ucast (take_bit 7 x) :: 8 word"
  shows "\<not> bit b 7" "ucast (b AND NOT 0x80) = take_bit 7 x"
proof -
  show "\<not> bit b 7" by (simp add: b_def bit_unsigned_iff bit_take_bit_iff)
  show "ucast (b AND NOT 0x80) = take_bit 7 x"
    unfolding b_def
    by (rule bit_word_eqI) (auto simp only: bit_unsigned_iff bit_and_iff bit_not_iff_eq bit_masks bit_take_bit_iff; simp)
qed

lemma read_subid_go_on:
  "1 \<le> buflen \<Longrightarrow> read_subid a len (ucast (take_bit 7 x OR 0x80) # rest, buflen) =
     read_subid (push_bit 7 a + take_bit 7 x) (len - 1) (rest, buflen - 1)"
  using seven_bits_go_on [of x] by (simp add: top_bit_test del: push_bit_of_0)

lemma read_subid_last:
  "1 \<le> buflen \<Longrightarrow> read_subid a len (ucast (take_bit 7 x) # rest, buflen) =
     Some (Inr ((push_bit 7 a + take_bit 7 x, len - 1), rest, buflen - 1))"
  using seven_bits_last [of x] by (simp add: top_bit_test del: push_bit_of_0)

text \<open>The seven bits from position \<open>k\<close> on, added to those above them.\<close>

lemma seven_more: "push_bit 7 (drop_bit (k + 7) s) + take_bit 7 (drop_bit k s) = drop_bit k (s :: 32 word)"
  using bits_ident [of 7 "drop_bit k s"] by (simp add: drop_bit_drop_bit add.commute)

lemma drop_bit_top: "(s :: 32 word) < 2 ^ (k + 7) \<Longrightarrow> take_bit 7 (drop_bit k s) = drop_bit k s"
  by (rule bit_word_eqI) (auto simp: bit_take_bit_iff bit_drop_bit_eq dest!: bit_word_small)

lemma and_7f: "(s :: 32 word) AND 0x7f = take_bit 7 s"
proof -
  have "(0x7f :: 32 word) = mask 7" by (simp add: mask_eq_exp_minus_1)
  then show ?thesis by (simp only: take_bit_eq_mask)
qed

lemma length_oid_bytes: "length (oid_bytes s) = oid_len s"
  by (simp add: oid_bytes_def oid_len_def)

lemma oid_len_bounds: "1 \<le> oid_len s" "oid_len s \<le> 5" "s \<le> 0xffff \<Longrightarrow> oid_len s \<le> 3"
  by (auto simp: oid_len_def word_less_nat_alt word_le_nat_alt)


declare read_subid.simps [simp del]

lemma subid_first:
  "\<lbrakk>s < 2 ^ (k + 7); 1 \<le> buflen\<rbrakk> \<Longrightarrow> read_subid 0 len (ucast (drop_bit k s OR 0x80) # rest, buflen) =
     read_subid (drop_bit k s) (len - 1) (rest, buflen - 1)"
  using read_subid_go_on [of buflen 0 len "drop_bit k s" rest] by (simp only: drop_bit_top) simp

lemma subid_mid:
  "1 \<le> buflen \<Longrightarrow> read_subid (drop_bit (k + 7) s) len (ucast ((drop_bit k s AND 0x7f) OR 0x80) # rest, buflen) =
     read_subid (drop_bit k s) (len - 1) (rest, buflen - 1)"
  using read_subid_go_on [of buflen "drop_bit (k + 7) s" len "drop_bit k s" rest] by (simp only: seven_more and_7f)

lemma subid_low:
  "1 \<le> buflen \<Longrightarrow> read_subid (drop_bit 7 s) len (ucast (s AND 0x7f) # rest, buflen) =
     Some (Inr ((s, len - 1), rest, buflen - 1))"
  using read_subid_last [of buflen "drop_bit 7 s" len s rest] seven_more [of 0 s] by (simp only: and_7f) simp

lemma subid_single:
  assumes "s < 0x80" "1 \<le> buflen"
  shows "read_subid 0 len (ucast s # rest, buflen) = Some (Inr ((s, len - 1), rest, buflen - 1))"
  using read_subid_last [of buflen 0 len s rest] drop_bit_top [of s 0] assms by simp

lemma read_subid_oid_bytes:
  assumes "oid_len s \<le> buflen"
  shows "read_subid 0 len (oid_bytes s @ rest, buflen) =
     Some (Inr ((s, len - of_nat (oid_len s)), rest, buflen - oid_len s))"
proof -
  consider (1) "s < 0x80" | (2) "\<not> s < 0x80" "s < 0x4000" | (3) "\<not> s < 0x80" "\<not> s < 0x4000" "s < 0x200000"
    | (4) "\<not> s < 0x80" "\<not> s < 0x4000" "\<not> s < 0x200000" "s < 0x10000000"
    | (5) "\<not> s < 0x80" "\<not> s < 0x4000" "\<not> s < 0x200000" "\<not> s < 0x10000000" by blast
  then show ?thesis
  proof cases
    case 1
    then show ?thesis using assms subid_single [of s buflen len rest] by (simp add: oid_bytes_def oid_len_def)
  next
    case 2
    then show ?thesis using assms subid_first [of s 7] subid_low [of _ s]
      by (simp add: oid_bytes_def oid_len_def)
  next
    case 3
    then show ?thesis using assms subid_first [of s 14] subid_mid [of _ 7 s] subid_low [of _ s]
      by (simp add: oid_bytes_def oid_len_def)
  next
    case 4
    then show ?thesis using assms subid_first [of s 21] subid_mid [of _ 14 s] subid_mid [of _ 7 s] subid_low [of _ s]
      by (simp add: oid_bytes_def oid_len_def)
  next
    case 5
    have f: "1 \<le> buflen \<Longrightarrow> read_subid 0 len (ucast (drop_bit 28 s OR 0x80) # rest, buflen) =
       read_subid (drop_bit 28 s) (len - 1) (rest, buflen - 1)" for buflen len rest
    proof -
      assume "1 \<le> buflen"
      moreover have "take_bit 7 (drop_bit 28 s) = drop_bit 28 s"
        by (rule bit_word_eqI) (auto simp: bit_take_bit_iff bit_drop_bit_eq dest: bit_imp_le_length)
      ultimately show ?thesis using read_subid_go_on [of buflen 0 len "drop_bit 28 s" rest] by simp
    qed
    show ?thesis using 5 assms f subid_mid [of _ 21 s] subid_mid [of _ 14 s] subid_mid [of _ 7 s] subid_low [of _ s]
      by (simp add: oid_bytes_def oid_len_def)
  qed
qed

text \<open>The loop over the sub-identifiers fills the array from \<open>oid_ptr\<close> on.\<close>

definition put :: "'a list \<Rightarrow> nat \<Rightarrow> 'a list \<Rightarrow> 'a list" where
  "put a i xs = take i a @ xs @ drop (i + length xs) a"

lemma put_Nil [simp]: "put a i [] = a"
  by (simp add: put_def)

lemma length_put [simp]: "i + length xs \<le> length a \<Longrightarrow> length (put a i xs) = length a"
  by (simp add: put_def)

lemma put_Cons: "i < length a \<Longrightarrow> put (a[i := x]) (Suc i) xs = put a i (x # xs)"
  by (simp add: put_def take_Suc_conv_app_nth drop_update_cancel)

lemma read_oid_loop_subids:
  assumes "\<forall>s \<in> set subs. s \<le> SNMP_ASN1_OID_MAX_ID" "i + length subs \<le> length oid"
    "length subs \<le> unat oidlen" "sum_list (map oid_len subs) \<le> buflen" "sum_list (map oid_len subs) < 2 ^ 32"
  shows "read_oid_loop oid i (of_nat (sum_list (map oid_len subs))) oidlen (concat (map oid_bytes subs) @ rest, buflen) =
     Some (Inr ((put oid i subs, i + length subs), rest, buflen - sum_list (map oid_len subs)))"
  using assms
proof (induction subs arbitrary: oid i oidlen buflen)
  case Nil
  then show ?case by (subst read_oid_loop.simps) simp
next
  case (Cons s subs)
  let ?n = "sum_list (map oid_len subs)"
  have nz: "of_nat (oid_len s + ?n) \<noteq> (0 :: 32 word)" "oidlen \<noteq> 0"
  proof -
    have "unat (of_nat (oid_len s + ?n) :: 32 word) = oid_len s + ?n"
      using Cons.prems(5) by (simp only: unsigned_of_nat) (simp add: take_bit_nat_eq_self)
    then show "of_nat (oid_len s + ?n) \<noteq> (0 :: 32 word)" using oid_len_bounds(1) [of s] by (metis add_is_0 not_one_le_zero unat_0)
    show "oidlen \<noteq> 0" using Cons.prems(3) by auto
  qed
  have len: "of_nat (oid_len s + ?n) - of_nat (oid_len s) = (of_nat ?n :: 32 word)" by simp
  have sub: "read_subid 0 (of_nat (oid_len s + ?n)) (oid_bytes s @ concat (map oid_bytes subs) @ rest, buflen) =
      Some (Inr ((s, of_nat ?n), concat (map oid_bytes subs) @ rest, buflen - oid_len s))"
    using read_subid_oid_bytes [of s buflen "of_nat (oid_len s + ?n)"] Cons.prems(4) len by simp
  have ol: "length subs \<le> unat (oidlen - 1)"
    using Cons.prems(3) nz(2) by (simp add: unat_minus_one)
  have "read_oid_loop (oid[i := s]) (Suc i) (of_nat ?n) (oidlen - 1) (concat (map oid_bytes subs) @ rest, buflen - oid_len s) =
     Some (Inr ((put (oid[i := s]) (Suc i) subs, Suc i + length subs), rest, buflen - oid_len s - ?n))"
    by (rule Cons.IH) (use Cons.prems ol in auto)
  then show ?case using Cons.prems nz sub by (subst read_oid_loop.simps) (simp add: put_Cons not_less)
qed


lemma write_subids_room:
  "sum_list (map oid_len subs) \<le> room \<Longrightarrow>
   write_subids subs (out, room) = Inr (out @ concat (map oid_bytes subs), room - sum_list (map oid_len subs))"
proof (induction subs arbitrary: out room)
  case (Cons s subs)
  then show ?case using write_bytes_room [of "oid_bytes s" room out] by (simp add: length_oid_bytes)
qed simp

lemma oid_len_sum: "\<forall>s \<in> set subs. s \<le> 0xffff \<Longrightarrow> sum_list (map oid_len subs) \<le> 3 * length subs"
  by (induction subs) (auto dest: oid_len_bounds(3))

text \<open>The first two sub-identifiers are split again.\<close>

lemma oid_expand_combined:
  assumes "x \<le> 2" "y < 40" "2 \<le> length oid" "oid ! 1 = x * 40 + y"
  shows "oid_expand oid = oid[0 := x, 1 := y]"
proof -
  have x: "unat x \<le> 2" and y: "unat y < 40" using assms(1,2) by (simp_all add: word_le_nat_alt word_less_nat_alt)
  have s: "unat (x * 40 + y) = unat x * 40 + unat y"
    using x y by (simp add: unat_word_ariths)
  have m: "(x * 40 + y) mod 40 = y"
    using x y by (simp add: word_unat_eq_iff unat_mod s)
  have d: "(x * 40 + y - y) div 40 = x"
    using x by (simp add: word_unat_eq_iff unat_div unat_word_ariths)
  have c: "ucast (ucast x :: 8 word) = x" "ucast (ucast y :: 8 word) = y"
    using x y by (simp_all add: word_unat_eq_iff unsigned_ucast_eq unsigned_take_bit_eq take_bit_nat_eq_self)
  show ?thesis
  proof (cases "x * 40 + y = 0x2b")
    case True
    then have "unat x * 40 + unat y = 43" using s by simp
    then have "unat x = 1" "unat y = 3" using x y by presburger+
    then have "x = 1" "y = 3" by (simp_all add: word_unat_eq_iff)
    then show ?thesis using True assms(4) by (simp add: oid_expand_def)
  next
    case False
    then show ?thesis using assms(3,4) c d m by (simp add: oid_expand_def Let_def list_update_swap)
  qed
qed

lemma read_len_small:
  "n < 128 \<Longrightarrow> asn1_read_len (of_nat n # rest, Suc b) = Some (Inr (of_nat n, rest, b))"
  using read_len_len_bytes [of "of_nat n" "Suc b" rest]
  by (simp add: len_bytes_small word_le_nat_alt unsigned_of_nat take_bit_nat_eq_self)

lemma read_oid_bind:
  assumes "t AND 6 \<noteq> 0" "0 < n" "n < 128"
  shows "snmp_asn1_read_oid arr arrlen (t # of_nat n # bs, Suc (Suc (n + k))) =
     rd_bind (read_oid_loop arr 1 (of_nat n) (arrlen - 1) (bs, n + k)) (\<lambda>((oid, oid_ptr), s).
       if length oid < 2 then None else Some (Inr ((t, oid_expand oid, oid_ptr), s)))"
proof -
  have un: "unat (of_nat n :: 32 word) = n" using assms(3) by (simp add: unsigned_of_nat take_bit_nat_eq_self)
  then have "of_nat n \<noteq> (0 :: 32 word)" using assms(2) by auto
  then show ?thesis using assms un by (simp add: snmp_asn1_read_oid_def asn1_read_type_def read_len_small)
qed

text \<open>Object identifiers that can be read back, and the bytes they are written as.\<close>

definition oid_ok :: "32 word list \<Rightarrow> bool" where
  "oid_ok oid \<longleftrightarrow> 2 \<le> length oid \<and> length oid \<le> SNMP_MIB_MAX_OIDLEN \<and> oid ! 0 \<le> 2 \<and> oid ! 1 < 40 \<and>
     (\<forall>s \<in> set oid. s \<le> SNMP_ASN1_OID_MAX_ID)"

definition oid_subs :: "32 word list \<Rightarrow> 32 word list" where
  "oid_subs oid = (oid ! 0 * 40 + oid ! 1) # drop 2 oid"

definition oid_object :: "8 word \<Rightarrow> 32 word list \<Rightarrow> bytes" where
  "oid_object t oid =
     t # of_nat (sum_list (map oid_len (oid_subs oid))) # concat (map oid_bytes (oid_subs oid))"

lemma length_concat_oid_bytes: "length (concat (map oid_bytes subs)) = sum_list (map oid_len subs)"
  by (simp add: length_concat length_oid_bytes comp_def)

lemma oid_subs_ok:
  assumes "oid_ok oid"
  shows "\<forall>s \<in> set (oid_subs oid). s \<le> 0xffff" "sum_list (map oid_len (oid_subs oid)) \<le> 39"
    "0 < sum_list (map oid_len (oid_subs oid))"
proof -
  have "unat (oid ! 0) \<le> 2" "unat (oid ! 1) < 40"
    using assms by (simp_all add: oid_ok_def word_le_nat_alt word_less_nat_alt)
  then have "oid ! 0 * 40 + oid ! 1 \<le> 0xffff" by (simp add: word_le_nat_alt unat_word_ariths)
  then show sub: "\<forall>s \<in> set (oid_subs oid). s \<le> 0xffff"
    using assms by (auto simp: oid_subs_def oid_ok_def SNMP_ASN1_OID_MAX_ID_def dest: in_set_dropD)
  have "length (oid_subs oid) \<le> 13" using assms by (auto simp: oid_subs_def oid_ok_def SNMP_MIB_MAX_OIDLEN_def)
  then show "sum_list (map oid_len (oid_subs oid)) \<le> 39" using oid_len_sum [OF sub] by linarith
  show "0 < sum_list (map oid_len (oid_subs oid))"
    using oid_len_bounds(1) [of "oid ! 0 * 40 + oid ! 1"] by (simp add: oid_subs_def)
qed

lemma length_oid_object: "oid_ok oid \<Longrightarrow> length (oid_object t oid) \<le> 41"
  using oid_subs_ok(2) [of oid] by (simp add: oid_object_def length_concat_oid_bytes)

lemma write_oid_object:
  assumes "oid_ok oid" "41 \<le> room" "take n a = oid" "n = length oid"
  shows "snmp_asn1_write_oid t a n (out, room) = Some (Inr (out @ oid_object t oid, room - length (oid_object t oid)))"
proof -
  let ?n = "sum_list (map oid_len (oid_subs oid))"
  have la: "n \<le> length a" using assms(3,4) by (metis length_take min.cobounded1 nat_le_linear take_all_iff)
  have n2: "2 \<le> n" using assms(1,4) by (simp add: oid_ok_def)
  have "a ! 0 = oid ! 0" "a ! 1 = oid ! 1" using n2 assms(3) nth_take [of 0 n a] nth_take [of 1 n a] by auto
  then have "oid_combine a n = Some (Inr (oid_subs oid, n))"
  proof -
    assume a: "a ! 0 = oid ! 0" "a ! 1 = oid ! 1"
    have "n \<noteq> 0" "a \<noteq> []" "n \<noteq> 1" "\<not> length a < n" using la n2 by auto
    moreover have "\<not> oid ! 0 > 2" "\<not> n > SNMP_MIB_MAX_OIDLEN" using assms(1,4) by (simp_all add: oid_ok_def not_less)
    ultimately show ?thesis unfolding oid_combine_def a assms(3) oid_subs_def by (simp only: if_False)
  qed
  moreover have "length (oid_subs oid) = n - 1" using n2 assms(4) by (simp add: oid_subs_def)
  moreover have "\<not> room - 2 < ?n" using oid_subs_ok(2) [OF assms(1)] assms(2) by linarith
  ultimately show ?thesis
    using oid_subs_ok(2) [OF assms(1)] assms(2) write_header_small [of 1 ?n room t out]
      write_subids_room [of "oid_subs oid" "room - 2" "out @ [t, of_nat ?n]"]
    by (simp add: snmp_asn1_write_oid_def oid_object_def length_concat_oid_bytes)
qed

lemma read_oid_written:
  assumes t: "t AND 6 \<noteq> 0" and oid: "oid_ok oid" and arr: "length oid \<le> length arr" "length oid \<le> unat arrlen"
  shows "snmp_asn1_read_oid arr arrlen (oid_object t oid @ rest, length (oid_object t oid) + k) =
     Some (Inr ((t, oid @ drop (length oid) arr, length oid), rest, k))"
proof -
  let ?n = "sum_list (map oid_len (oid_subs oid))" and ?bs = "concat (map oid_bytes (oid_subs oid))"
  obtain x y ids where xy: "oid = x # y # ids" using oid by (cases oid; cases "tl oid") (auto simp: oid_ok_def)
  have subs: "oid_subs oid = (x * 40 + y) # ids" by (simp add: oid_subs_def xy)
  have n: "0 < ?n" "?n < 128" using oid_subs_ok(2,3) [OF oid] by simp_all
  have "arrlen \<noteq> 0" using arr(2) by (auto simp: xy)
  then have "length (oid_subs oid) \<le> unat (arrlen - 1)" using arr(2) unfolding subs by (simp add: xy unat_minus_one)
  then have loop: "read_oid_loop arr 1 (of_nat ?n) (arrlen - 1) (?bs @ rest, ?n + k) =
      Some (Inr ((put arr 1 (oid_subs oid), 1 + length (oid_subs oid)), rest, k))"
    using read_oid_loop_subids [of "oid_subs oid" 1 arr "arrlen - 1" "?n + k" rest] oid_subs_ok(1,2) [OF oid] arr(1)
    unfolding subs by (simp add: xy SNMP_ASN1_OID_MAX_ID_def)
  obtain a as where as: "arr = a # as" using arr(1) by (cases arr) (auto simp: xy)
  have "oid_expand (put arr 1 (oid_subs oid)) = (put arr 1 (oid_subs oid))[0 := x, 1 := y]"
    by (rule oid_expand_combined) (use oid in \<open>auto simp: oid_ok_def xy as put_def oid_subs_def\<close>)
  then have ex: "oid_expand (put arr 1 (oid_subs oid)) = oid @ drop (length oid) arr" by (simp add: xy as put_def oid_subs_def)
  have l: "length (oid_object t oid) + k = Suc (Suc (?n + k))" by (simp add: oid_object_def length_concat_oid_bytes)
  show ?thesis
    unfolding l using read_oid_bind [OF t n, of arr arrlen "?bs @ rest" k] loop ex arr(1)
    unfolding oid_object_def subs by (simp add: xy)
qed



text \<open>A sub-identifier above the limit can be written, for example under a private enterprise number above 65535,
  and is refused by the reader.\<close>

lemma snmp_asn1_oid_large_refused:
  assumes t: "t AND 6 \<noteq> 0" and s: "s > SNMP_ASN1_OID_MAX_ID" and arr: "3 \<le> length arr" "3 \<le> unat arrlen" and room: "20 \<le> room"
  shows "\<exists>out room'. snmp_asn1_write_oid t [1, 3, s] 3 ([], room) = Some (Inr (out, room')) \<and>
           snmp_asn1_read_oid arr arrlen (out @ rest, length out + k) = Some (Inl EINVAL)"
proof -
  have comb: "oid_combine [1, 3, s] 3 = Some (Inr ([43, s], 3))" by (simp add: oid_combine_def SNMP_MIB_MAX_OIDLEN_def)
  let ?n = "oid_len 43 + oid_len s" and ?bs = "oid_bytes 43 @ oid_bytes s"
  have n: "0 < ?n" "?n \<le> 10" using oid_len_bounds [of 43] oid_len_bounds [of s] by auto
  have lb: "length ?bs = ?n" by (simp add: length_oid_bytes)
  let ?out = "t # of_nat ?n # ?bs"
  have "snmp_asn1_write_oid t [1, 3, s] 3 ([], room) = Some (Inr (?out, room - 2 - ?n))"
    using n room write_header_small [of 1 ?n room t "[]"] write_subids_room [of "[43, s]" "room - 2"]
    by (simp add: snmp_asn1_write_oid_def comb numeral_2_eq_2)
  moreover have "read_oid_loop arr 1 (of_nat ?n) (arrlen - 1) (?bs @ rest, ?n + k) = Some (Inl EINVAL)"
  proof -
    have s1: "read_subid 0 (of_nat ?n) (oid_bytes 43 @ oid_bytes s @ rest, ?n + k) =
        Some (Inr ((43, of_nat (oid_len s)), oid_bytes s @ rest, oid_len s + k))"
      using read_subid_oid_bytes [of 43 "?n + k" "of_nat ?n" "oid_bytes s @ rest"] by simp
    have s2: "read_subid 0 (of_nat (oid_len s)) (oid_bytes s @ rest, oid_len s + k) = Some (Inr ((s, 0), rest, k))"
      using read_subid_oid_bytes [of s "oid_len s + k" "of_nat (oid_len s)" rest] by simp
    have u: "of_nat m \<noteq> (0 :: 32 word)" if "0 < m" "m \<le> 10" for m
    proof -
      have "unat (of_nat m :: 32 word) = m" using that by (simp add: unsigned_of_nat take_bit_nat_eq_self)
      then show ?thesis using that(1) by auto
    qed
    have nz: "of_nat ?n \<noteq> (0 :: 32 word)" "of_nat (oid_len s) \<noteq> (0 :: 32 word)"
      by (rule u; use oid_len_bounds [of 43] oid_len_bounds [of s] in linarith)+
    have al: "arrlen - 1 \<noteq> 0" "arrlen - 1 - 1 \<noteq> 0"
    proof -
      have "arrlen \<noteq> 0" using arr(2) by auto
      then have 1: "unat (arrlen - 1) = unat arrlen - 1" by (rule unat_minus_one)
      then show 2: "arrlen - 1 \<noteq> 0" using arr(2) by auto
      have "unat (arrlen - 1 - 1) = unat arrlen - 1 - 1" using unat_minus_one [OF 2] 1 by simp
      then show "arrlen - 1 - 1 \<noteq> 0" using arr(2) by auto
    qed
    have step2: "read_oid_loop (arr[1 := 43]) 2 (of_nat (oid_len s)) (arrlen - 1 - 1) (oid_bytes s @ rest, oid_len s + k) = Some (Inl EINVAL)"
      using nz(2) al(2) s2 s by (subst read_oid_loop.simps) simp
    show ?thesis using nz(1) al(1) s1 step2 arr(1)
      by (subst read_oid_loop.simps) (simp add: SNMP_ASN1_OID_MAX_ID_def numeral_2_eq_2)
  qed
  then have "snmp_asn1_read_oid arr arrlen (?out @ rest, length ?out + k) = Some (Inl EINVAL)"
    using read_oid_bind [OF t n(1), of arr arrlen "?bs @ rest" k] n(2) arr(1) lb by simp
  ultimately show ?thesis by blast
qed

section \<open>Octet strings\<close>

lemma strndup_loop_text: "0 \<notin> set str \<Longrightarrow> strndup_loop (length str) (str @ c # rest) = Some str"
  by (induction str) auto

lemma strndup_loop_end: "0 \<notin> set str \<Longrightarrow> strndup_loop (length str) str = None"
  by (induction str) auto

lemma read_string_object:
  assumes "t AND 4 \<noteq> 0" "length str \<le> 0xffff"
  shows "snmp_asn1_read_string (t # len_bytes (of_nat (length str)) @ str @ rest, Suc (length (len_bytes (of_nat (length str))) + length str + k)) =
     (case strndup_loop (length str) (str @ rest) of
        None \<Rightarrow> None | Some text \<Rightarrow> Some (Inr ((t, text, length str), rest, k)))"
proof -
  have un: "unat (of_nat (length str) :: 32 word) = length str"
    using assms(2) by (simp add: unsigned_of_nat take_bit_nat_eq_self)
  show ?thesis
    using assms un read_len_len_bytes [of "of_nat (length str)" "length (len_bytes (of_nat (length str))) + length str + k" "str @ rest"]
    by (simp add: snmp_asn1_read_string_def asn1_read_type_def word_le_nat_alt split: option.split)
qed

definition string_object :: "8 word \<Rightarrow> bytes \<Rightarrow> bytes" where
  "string_object t str = t # len_bytes (of_nat (length str)) @ str"

lemma length_string_object: "length (string_object t str) \<le> length str + 4"
  using length_len_bytes(1) [of "of_nat (length str)"] by (simp add: string_object_def)

lemma write_string_object:
  assumes "length str \<le> 0xffff" "length str + 4 \<le> room"
  shows "snmp_asn1_write_string t (str @ more_mem) (of_nat (length str)) (out, room) =
     Some (Inr (out @ string_object t str, room - length (string_object t str)))"
proof -
  let ?l = "len_bytes (of_nat (length str))"
  have l: "length ?l < room" "\<not> room - Suc (length ?l) < length str"
    using length_len_bytes(1) [of "of_nat (length str)"] assms(2) by linarith+
  have un: "unat (of_nat (length str) :: 32 word) = length str"
    using assms(1) by (simp add: unsigned_of_nat take_bit_nat_eq_self)
  show ?thesis using l un write_header_known [of 1 "of_nat (length str)" room t out]
    by (simp add: snmp_asn1_write_string_def string_object_def)
qed

lemma read_string_written:
  assumes "t AND 4 \<noteq> 0" "length str \<le> 0xffff" "0 \<notin> set str"
  shows "snmp_asn1_read_string (string_object t str @ c # rest, length (string_object t str) + k) =
     Some (Inr ((t, str, length str), c # rest, k))"
  using read_string_object [OF assms(1,2), of "c # rest" k] strndup_loop_text [OF assms(3), of c rest]
  by (simp add: string_object_def)

text \<open>A text is read back when another byte follows it. At the end of the memory \<open>pstrndup\<close> reads the byte after
  the packet.\<close>

theorem snmp_asn1_string_round_trip:
  assumes t: "t AND 4 \<noteq> 0" and str: "length str \<le> 0xffff" "0 \<notin> set str" and room: "length str + 4 \<le> room"
  shows "\<exists>out room'. snmp_asn1_write_string t str (of_nat (length str)) ([], room) = Some (Inr (out, room')) \<and> length out + room' = room \<and>
           snmp_asn1_read_string (out @ c # rest, length out + k) = Some (Inr ((t, str, length str), c # rest, k)) \<and>
           snmp_asn1_read_string (out, length out) = None"
proof -
  have "length (string_object t str) \<le> room" using length_string_object [of t str] room by linarith
  moreover have "snmp_asn1_read_string (string_object t str, length (string_object t str)) = None"
    using read_string_object [OF t str(1), of "[]" 0] strndup_loop_end [OF str(2)] by (simp add: string_object_def)
  ultimately show ?thesis
    using write_string_object [OF str(1) room, of t "[]" "[]"] read_string_written [OF t str, of c rest k]
    by (intro exI [of _ "string_object t str"] exI [of _ "room - length (string_object t str)"]) simp
qed

theorem snmp_asn1_string_round_trip_witness:
  "\<exists>out room'. snmp_asn1_write_string 4 [112, 117, 98] (of_nat (length [112, 117, 98 :: 8 word])) ([], 50) = Some (Inr (out, room')) \<and> length out + room' = 50 \<and>
     snmp_asn1_read_string (out @ 160 # [28], length out + 2) =
       Some (Inr ((4, [112, 117, 98], length [112, 117, 98 :: 8 word]), 160 # [28], 2)) \<and>
     snmp_asn1_read_string (out, length out) = None"
  by (rule snmp_asn1_string_round_trip) simp_all

section \<open>Where the packet is left\<close>

text \<open>C40. The bytes of a length in the long form are taken without a look at \<open>*buflen\<close>. A packet that ends with the
  first byte of the length gets it from the memory behind the packet; the \<open>size_t\<close> that counts what is left wraps
  around, so that no later check against it can fail any more. Without memory there, the read faults.\<close>

theorem snmp_asn1_length_leaves_packet:
  assumes "t \<noteq> 0xff"
  shows "snmp_asn1_read_header (t # 0x82 # m1 # m2 # mem, 2) =
           Some (Inr ((t, 256 * unat m1 + unat m2), mem, 2 ^ 64 - 2)) \<and>
         snmp_asn1_read_header ([t, 0x82], 2) = None"
proof -
  have b: "unat m < 256" for m :: "8 word" using unsigned_less [of m] by simp
  have v: "unat (drop_bit 16 (be32 [m1, m2, 0, 0])) = 256 * unat m1 + unat m2"
  proof -
    have "drop_bit 16 (be32 [m1, m2, 0, 0]) = push_bit 8 (ucast m1) OR ucast m2"
      by (rule bit_word_eqI) (auto simp: be32_def bit_ops dest: bit_imp_le_length)
    also have "\<dots> = push_bit 8 (ucast m1) + ucast m2"
      by (rule disjunctive_add_eq_or [symmetric]) (rule bit_word_eqI, auto simp: bit_ops dest: bit_imp_le_length)
    finally show ?thesis using b [of m1] b [of m2]
      by (simp add: push_bit_eq_mult unat_word_ariths unsigned_ucast_eq take_bit_nat_eq_self)
  qed
  then have "asn1_read_len (0x82 # m1 # m2 # mem, 1) = Some (Inr (drop_bit 16 (be32 [m1, m2, 0, 0]), mem, 2 ^ 64 - 2))"
    by (simp add: asn1_read_len_def Let_def replicate_low size_sub_def)
  moreover have "256 * unat m1 + unat m2 \<le> 65535" using b [of m1] b [of m2] by simp
  moreover have "asn1_read_len ([0x82], 1) = None" by (simp add: asn1_read_len_def Let_def)
  ultimately show ?thesis using assms v
    by (simp add: snmp_asn1_read_header_def asn1_read_type_def SNMP_ASN1_MAX_OBJECT_LEN_def)
qed

theorem snmp_asn1_length_leaves_packet_witness:
  "snmp_asn1_read_header (0x30 # 0x82 # 3 # 232 # [9, 9], 2) =
     Some (Inr ((0x30, 256 * unat (3 :: 8 word) + unat (232 :: 8 word)), [9, 9], 2 ^ 64 - 2)) \<and>
   snmp_asn1_read_header ([0x30, 0x82], 2) = None"
  by (rule snmp_asn1_length_leaves_packet) simp

text \<open>The empty object identifier is meant to be padded to two sub-identifiers. It gets a header for one byte that
  is never written, so that the first byte of the next object is taken for it.\<close>

lemma snmp_asn1_empty_oid_no_content:
  "3 \<le> room \<Longrightarrow> snmp_asn1_write_oid t [] 0 ([], room) = Some (Inr ([t, 1], room - 2))"
  using write_header_small [of 1 1 room t "[]"] by (simp add: snmp_asn1_write_oid_def oid_combine_def oid_len_def)

end
