(* ===== verification/Snmp.thy ===== *)
theory Snmp
  imports Asn1
begin

unbundle bit_operations_syntax

text \<open>
  The messages of the SNMP agent: the variables of \<open>contrib/mod_snmp/smi.c\<close>, the requests and responses of
  \<open>contrib/mod_snmp/pdu.c\<close> and the messages of \<open>contrib/mod_snmp/msg.c\<close>, on top of the ASN.1 objects. The
  memory that a value points to is a list; \<open>NoValue\<close> is the \<open>NULL\<close> that \<open>pcalloc\<close> leaves. Storing through
  \<open>NULL\<close> and reading outside of a block are the result \<open>None\<close>.
\<close>

section \<open>Variables\<close>

abbreviation (input) SNMP_SMI_INTEGER :: "8 word" where "SNMP_SMI_INTEGER \<equiv> 2"
abbreviation (input) SNMP_SMI_STRING :: "8 word" where "SNMP_SMI_STRING \<equiv> 4"
abbreviation (input) SNMP_SMI_NULL :: "8 word" where "SNMP_SMI_NULL \<equiv> 5"
abbreviation (input) SNMP_SMI_OID :: "8 word" where "SNMP_SMI_OID \<equiv> 6"
abbreviation (input) SNMP_SMI_IPADDR :: "8 word" where "SNMP_SMI_IPADDR \<equiv> 0x40"
abbreviation (input) SNMP_SMI_COUNTER32 :: "8 word" where "SNMP_SMI_COUNTER32 \<equiv> 0x41"
abbreviation (input) SNMP_SMI_GAUGE32 :: "8 word" where "SNMP_SMI_GAUGE32 \<equiv> 0x42"
abbreviation (input) SNMP_SMI_TIMETICKS :: "8 word" where "SNMP_SMI_TIMETICKS \<equiv> 0x43"
abbreviation (input) SNMP_SMI_OPAQUE :: "8 word" where "SNMP_SMI_OPAQUE \<equiv> 0x44"
abbreviation (input) SNMP_SMI_NO_SUCH_OBJECT :: "8 word" where "SNMP_SMI_NO_SUCH_OBJECT \<equiv> 0x80"
abbreviation (input) SNMP_SMI_NO_SUCH_INSTANCE :: "8 word" where "SNMP_SMI_NO_SUCH_INSTANCE \<equiv> 0x81"
abbreviation (input) SNMP_SMI_END_OF_MIB_VIEW :: "8 word" where "SNMP_SMI_END_OF_MIB_VIEW \<equiv> 0x82"
abbreviation (input) SNMP_SEQUENCE :: "8 word" where "SNMP_SEQUENCE \<equiv> 0x30"

definition SNMP_SMI_MAX_NAMELEN :: nat where "SNMP_SMI_MAX_NAMELEN = 64"

datatype snmp_value = NoValue | VInteger "64 word" | VString bytes | VOid "32 word list"

record snmp_var =
  var_name :: "32 word list"
  namelen :: nat
  smi_type :: "8 word"
  var_value :: snmp_value
  valuelen :: "32 word"

definition snmp_smi_alloc_var :: "32 word list option \<Rightarrow> nat \<Rightarrow> snmp_var" where
  "snmp_smi_alloc_var nm n =
     \<lparr>var_name = (case nm of None \<Rightarrow> replicate n 0 | Some xs \<Rightarrow> take n xs), namelen = n,
      smi_type = SNMP_SMI_NULL, var_value = NoValue, valuelen = 0\<rparr>"

definition snmp_smi_create_int :: "32 word list option \<Rightarrow> nat \<Rightarrow> 8 word \<Rightarrow> 32 word \<Rightarrow> snmp_var" where
  "snmp_smi_create_int nm n type val =
     (snmp_smi_alloc_var nm n)\<lparr>valuelen := 4, var_value := VInteger (scast val), smi_type := type\<rparr>"

text \<open>\<open>pstrndup\<close> of a text: the block holds the copied text and its terminator.\<close>

definition snmp_smi_create_string ::
  "32 word list option \<Rightarrow> nat \<Rightarrow> 8 word \<Rightarrow> bytes option \<Rightarrow> 32 word \<Rightarrow> snmp_var result" where
  "snmp_smi_create_string nm n type val len =
     (case val of
        None \<Rightarrow> Inl EINVAL
      | Some str \<Rightarrow>
          Inr ((snmp_smi_alloc_var nm n)
            \<lparr>valuelen := len, var_value := VString (take (unat len) str @ [0]), smi_type := type\<rparr>))"

definition snmp_smi_create_oid ::
  "32 word list option \<Rightarrow> nat \<Rightarrow> 8 word \<Rightarrow> 32 word list option \<Rightarrow> 32 word \<Rightarrow> snmp_var result" where
  "snmp_smi_create_oid nm n type val len =
     (case val of
        None \<Rightarrow> Inl EINVAL
      | Some oid \<Rightarrow>
          (if type \<noteq> SNMP_SMI_OID then Inl EINVAL
           else Inr ((snmp_smi_alloc_var nm n)
                  \<lparr>valuelen := len, var_value := VOid (take (unat len) oid), smi_type := type\<rparr>)))"

definition snmp_smi_create_exception :: "32 word list option \<Rightarrow> nat \<Rightarrow> 8 word \<Rightarrow> snmp_var result" where
  "snmp_smi_create_exception nm n type =
     (if type = SNMP_SMI_NO_SUCH_OBJECT \<or> type = SNMP_SMI_NO_SUCH_INSTANCE \<or> type = SNMP_SMI_END_OF_MIB_VIEW
      then Inr ((snmp_smi_alloc_var nm n)\<lparr>valuelen := 0, smi_type := type\<rparr>)
      else Inl EINVAL)"

definition snmp_smi_create_var ::
  "32 word list option \<Rightarrow> nat \<Rightarrow> 8 word \<Rightarrow> 32 word \<Rightarrow> bytes option \<Rightarrow> 32 word \<Rightarrow> snmp_var result" where
  "snmp_smi_create_var nm n type int_val str_val str_len =
     (if type = SNMP_SMI_INTEGER \<or> type = SNMP_SMI_COUNTER32 \<or> type = SNMP_SMI_GAUGE32 \<or> type = SNMP_SMI_TIMETICKS
      then Inr (snmp_smi_create_int nm n type int_val)
      else if type = SNMP_SMI_STRING \<or> type = SNMP_SMI_IPADDR
      then snmp_smi_create_string nm n type str_val str_len
      else Inl ENOENT)"

text \<open>Copying the value of a variable moves \<open>valuelen\<close> bytes into a block of \<open>valuelen\<close> bytes. Of an integer it
  moves the low bytes; \<open>junk\<close> is what the fresh memory holds. Of an object identifier, whose \<open>valuelen\<close> counts
  the sub-identifiers, a quarter of them is copied; the block has no room for the others.\<close>

definition dup_value :: "64 word \<Rightarrow> snmp_var \<Rightarrow> snmp_value result option" where
  "dup_value junk var =
     (let n = unat (valuelen var) in
      if smi_type var = SNMP_SMI_INTEGER then
        (case var_value var of
           VInteger i \<Rightarrow>
             (if n > 8 then None
              else Some (Inr (VInteger (take_bit (8 * n) i OR push_bit (8 * n) (drop_bit (8 * n) junk)))))
         | _ \<Rightarrow> None)
      else if smi_type var = SNMP_SMI_STRING then
        (case var_value var of
           VString str \<Rightarrow> (if length str < n then None else Some (Inr (VString (take n str))))
         | _ \<Rightarrow> None)
      else if smi_type var = SNMP_SMI_OID then
        (case var_value var of
           VOid oid \<Rightarrow> (if 4 * length oid < n then None else Some (Inr (VOid (take (n div 4) oid))))
         | _ \<Rightarrow> None)
      else Some (Inl EINVAL))"

fun snmp_smi_dup_var :: "64 word \<Rightarrow> snmp_var list \<Rightarrow> snmp_var list result option" where
  "snmp_smi_dup_var junk [] = Some (Inr [])"
| "snmp_smi_dup_var junk (iter_var # vars) =
     (let var = (snmp_smi_alloc_var (Some (var_name iter_var)) (namelen iter_var))
                  \<lparr>smi_type := smi_type iter_var, valuelen := valuelen iter_var\<rparr>
      in rd_bind (if valuelen var > 0 then dup_value junk iter_var else Some (Inr NoValue)) (\<lambda>val.
         rd_bind (snmp_smi_dup_var junk vars) (\<lambda>vars'. Some (Inr (var\<lparr>var_value := val\<rparr> # vars')))))"

definition snmp_smi_util_add_list_var :: "snmp_var list \<Rightarrow> snmp_var \<Rightarrow> snmp_var list \<times> nat" where
  "snmp_smi_util_add_list_var vars var = (vars @ [var], length (vars @ [var]))"

section \<open>Reading variables\<close>

text \<open>\<open>*asn1_int = objval\<close>, through the pointer of the variable.\<close>

fun store_int :: "snmp_value \<Rightarrow> 64 word \<Rightarrow> snmp_value result option" where
  "store_int (VInteger _) i = Some (Inr (VInteger i))"
| "store_int _ i = None"

definition oid_block :: "snmp_value \<Rightarrow> 32 word list" where
  "oid_block val = (case val of VOid oid \<Rightarrow> oid | _ \<Rightarrow> [])"

definition read_value :: "snmp_var \<Rightarrow> snmp_var asn1_reader" where
  "read_value var s =
     (let t = smi_type var in
      if t = SNMP_SMI_INTEGER then
        rd_bind (snmp_asn1_read_int 0 s) (\<lambda>((t, i), s').
          rd_bind (store_int (var_value var) i) (\<lambda>val. Some (Inr (var\<lparr>smi_type := t, var_value := val\<rparr>, s'))))
      else if t = SNMP_SMI_COUNTER32 \<or> t = SNMP_SMI_GAUGE32 \<or> t = SNMP_SMI_TIMETICKS then
        rd_bind (snmp_asn1_read_uint s) (\<lambda>((t, i), s').
          rd_bind (store_int (var_value var) i) (\<lambda>val. Some (Inr (var\<lparr>smi_type := t, var_value := val\<rparr>, s'))))
      else if t = SNMP_SMI_STRING \<or> t = SNMP_SMI_IPADDR \<or> t = SNMP_SMI_OPAQUE then
        rd_bind (snmp_asn1_read_string s) (\<lambda>((t, str, len), s').
          Some (Inr (var\<lparr>smi_type := t, var_value := VString (str @ [0]), valuelen := of_nat len\<rparr>, s')))
      else if t = SNMP_SMI_OID then
        rd_bind (snmp_asn1_read_oid (oid_block (var_value var)) (valuelen var) s) (\<lambda>((t, oid, len), s').
          Some (Inr (var\<lparr>smi_type := t, var_value := VOid oid, valuelen := of_nat len\<rparr>, s')))
      else if t = SNMP_SMI_NULL then
        rd_bind (snmp_asn1_read_null s) (\<lambda>(t, s'). Some (Inr (var\<lparr>smi_type := t\<rparr>, s')))
      else if t = SNMP_SMI_NO_SUCH_OBJECT \<or> t = SNMP_SMI_NO_SUCH_INSTANCE \<or> t = SNMP_SMI_END_OF_MIB_VIEW then
        Some (Inr (var, s))
      else Some (Inl EINVAL))"

text \<open>One round of the loop: the header of the binding, the name, a look at the header of the value, the value.\<close>

definition read_var :: "snmp_var asn1_reader" where
  "read_var s =
     rd_bind (snmp_asn1_read_header s) (\<lambda>((t, varlen), s).
       if t \<noteq> SNMP_SEQUENCE then Some (Inl EINVAL)
       else (let var = snmp_smi_alloc_var None SNMP_SMI_MAX_NAMELEN in
         rd_bind (snmp_asn1_read_oid (var_name var) (of_nat (namelen var)) s) (\<lambda>((t, oid, oidlen), s).
           if t \<noteq> SNMP_ASN1_TYPE_OID then Some (Inl EINVAL)
           else rd_bind (snmp_asn1_read_header s) (\<lambda>((t, vlen), _).
             read_value (var\<lparr>var_name := oid, namelen := oidlen, smi_type := t, valuelen := of_nat vlen\<rparr>) s))))"

text \<open>No reader gives memory back, and a header takes some, so the loop over the variables ends.\<close>

lemma rd_bind_Inr:
  "rd_bind m f = Some (Inr y) \<longleftrightarrow> (\<exists>x. m = Some (Inr x) \<and> f x = Some (Inr y))"
  by (cases "(m, f)" rule: rd_bind.cases) auto

named_theorems shrinks \<open>readers do not move back\<close>

lemma read_byte_shrinks [shrinks]:
  "asn1_read_byte s = Some (Inr (x, s')) \<Longrightarrow> length (fst s') < length (fst s)"
  by (auto simp: asn1_read_byte_def split: prod.splits if_splits list.splits)

lemma read_len_shrinks [shrinks]:
  "asn1_read_len s = Some (Inr (x, s')) \<Longrightarrow> length (fst s') < length (fst s)"
  by (auto simp: asn1_read_len_def Let_def split: prod.splits if_splits list.splits)

lemma read_header_shrinks:
  "snmp_asn1_read_header s = Some (Inr (x, s')) \<Longrightarrow> length (fst s') < length (fst s)"
  by (fastforce simp: snmp_asn1_read_header_def asn1_read_type_def rd_bind_Inr
      split: prod.splits if_splits list.splits dest: shrinks)

lemma read_int_loop_shrinks:
  "read_int_loop n v s = Some (Inr (x, s')) \<Longrightarrow> length (fst s') \<le> length (fst s)"
  by (induction n v s rule: read_int_loop.induct) (fastforce simp: rd_bind_Inr dest: shrinks)+

lemma read_int_shrinks:
  "snmp_asn1_read_int flags s = Some (Inr (x, s')) \<Longrightarrow> length (fst s') \<le> length (fst s)"
  by (auto simp: snmp_asn1_read_int_def asn1_read_type_def rd_bind_Inr Let_def
      split: prod.split_asm if_split_asm dest!: shrinks read_int_loop_shrinks)

lemma read_uint_shrinks:
  "snmp_asn1_read_uint s = Some (Inr (x, s')) \<Longrightarrow> length (fst s') \<le> length (fst s)"
  by (auto simp: snmp_asn1_read_uint_def rd_bind_Inr dest: read_int_shrinks)

lemma read_null_shrinks:
  "snmp_asn1_read_null s = Some (Inr (x, s')) \<Longrightarrow> length (fst s') \<le> length (fst s)"
  by (fastforce simp: snmp_asn1_read_null_def asn1_read_type_def rd_bind_Inr
      split: prod.splits if_splits dest: shrinks)

lemma read_string_shrinks:
  "snmp_asn1_read_string s = Some (Inr (x, s')) \<Longrightarrow> length (fst s') \<le> length (fst s)"
  by (fastforce simp: snmp_asn1_read_string_def asn1_read_type_def rd_bind_Inr
      split: prod.splits if_splits option.splits dest: shrinks)

lemma read_oid_loop_shrinks:
  "read_oid_loop oid i len n s = Some (Inr (x, s')) \<Longrightarrow> length (fst s') \<le> length (fst s)"
proof (induction oid i len n s rule: read_oid_loop.induct)
  case (1 oid i len n s)
  show ?case
  proof (cases "len = 0 \<or> n = 0")
    case True
    then show ?thesis using 1(2) by (subst (asm) read_oid_loop.simps) simp
  next
    case False
    then obtain sub len' r where r: "read_subid 0 len s = Some (Inr ((sub, len'), r))"
      using 1(2) by (subst (asm) read_oid_loop.simps) (auto split: option.splits sum.splits)
    with False have "read_oid_loop (oid[i := sub]) (Suc i) len' (n - 1) r = Some (Inr (x, s'))"
      "\<not> SNMP_ASN1_OID_MAX_ID < sub" "\<not> length oid \<le> i"
      using 1(2) by (subst (asm) read_oid_loop.simps; auto split: if_splits)+
    then have "length (fst s') \<le> length (fst r)"
      using 1(1) False r by auto
    then show ?thesis using read_subid_shrinks [OF r] by simp
  qed
qed

lemma read_oid_shrinks:
  "snmp_asn1_read_oid oid n s = Some (Inr (x, s')) \<Longrightarrow> length (fst s') \<le> length (fst s)"
  by (fastforce simp: snmp_asn1_read_oid_def asn1_read_type_def rd_bind_Inr
      split: prod.splits if_splits dest: shrinks read_oid_loop_shrinks)

lemmas value_shrinks = read_int_shrinks read_uint_shrinks read_null_shrinks read_string_shrinks read_oid_shrinks

lemma read_value_shrinks:
  "read_value var s = Some (Inr (x, s')) \<Longrightarrow> length (fst s') \<le> length (fst s)"
  by (auto simp: read_value_def Let_def rd_bind_Inr split: if_splits dest: value_shrinks)

lemma read_var_shrinks: "read_var s = Some (Inr (x, s')) \<Longrightarrow> length (fst s') < length (fst s)"
  by (fastforce simp: read_var_def Let_def rd_bind_Inr split: prod.splits if_splits
      dest: read_value_shrinks read_header_shrinks read_oid_shrinks)

function read_vars_loop :: "snmp_var list \<Rightarrow> snmp_var list asn1_reader" where
  "read_vars_loop vars s =
     (if snd s = 0 then Some (Inr (vars, s))
      else (case read_var s of
         None \<Rightarrow> None
       | Some (Inl e) \<Rightarrow> Some (Inl e)
       | Some (Inr (var, s')) \<Rightarrow> read_vars_loop (vars @ [var]) s'))"
  by pat_completeness auto
termination by (relation "measure (\<lambda>(_, buf, _). length buf)") (auto dest!: read_var_shrinks)

declare read_vars_loop.simps [simp del]

definition snmp_smi_read_vars :: "(snmp_var list \<times> nat) asn1_reader" where
  "snmp_smi_read_vars s =
     rd_bind (snmp_asn1_read_header s) (\<lambda>((t, total_varlen), s).
       if t \<noteq> SNMP_SEQUENCE then Some (Inl EINVAL)
       else rd_bind (read_vars_loop [] s) (\<lambda>(vars, s'). Some (Inr ((vars, length vars), s'))))"

section \<open>Writing variables\<close>

type_synonym snmp_writer = "bytes \<times> nat \<Rightarrow> (bytes \<times> nat) result option"

text \<open>A sequence is written with the length zero first; when its content is written, the header is written again
  over the first one, with the length of the content.\<close>

definition with_header :: "8 word \<Rightarrow> 32 word \<Rightarrow> snmp_writer \<Rightarrow> snmp_writer" where
  "with_header t flags body = (\<lambda>(out, room).
     rd_bind (Some (snmp_asn1_write_header t 0 flags (out, room))) (\<lambda>(hdr_end, room1).
       rd_bind (body (hdr_end, room1)) (\<lambda>(out2, room2).
         rd_bind (Some (snmp_asn1_write_header t (of_nat (length out2 - length hdr_end)) flags (out, room))) (\<lambda>(hdr, _).
           Some (Inr (hdr @ drop (length hdr) out2, room2))))))"

definition write_value :: "64 word \<Rightarrow> snmp_var \<Rightarrow> snmp_writer" where
  "write_value snmp_version var s =
     (let t = smi_type var in
      if t = SNMP_SMI_INTEGER then
        (case var_value var of VInteger i \<Rightarrow> Some (snmp_asn1_write_int t i 0 s) | _ \<Rightarrow> None)
      else if t = SNMP_SMI_COUNTER32 \<or> t = SNMP_SMI_GAUGE32 \<or> t = SNMP_SMI_TIMETICKS then
        (case var_value var of VInteger i \<Rightarrow> Some (snmp_asn1_write_uint t i s) | _ \<Rightarrow> None)
      else if t = SNMP_SMI_STRING \<or> t = SNMP_SMI_IPADDR \<or> t = SNMP_SMI_OPAQUE then
        snmp_asn1_write_string t (case var_value var of VString str \<Rightarrow> str | _ \<Rightarrow> []) (valuelen var) s
      else if t = SNMP_SMI_OID then
        snmp_asn1_write_oid t (oid_block (var_value var)) (unat (valuelen var)) s
      else if t = SNMP_SMI_NO_SUCH_OBJECT \<or> t = SNMP_SMI_NO_SUCH_INSTANCE \<or> t = SNMP_SMI_END_OF_MIB_VIEW then
        (if snmp_version = 0 then Some (snmp_asn1_write_null SNMP_SMI_NO_SUCH_OBJECT s)
         else Some (snmp_asn1_write_exception t 0 s))
      else if t = SNMP_SMI_NULL then Some (snmp_asn1_write_null t s)
      else Some (Inl ENOSYS))"

definition write_var :: "64 word \<Rightarrow> snmp_var \<Rightarrow> snmp_writer" where
  "write_var snmp_version var =
     with_header SNMP_SEQUENCE 0 (\<lambda>s.
       rd_bind (snmp_asn1_write_oid SNMP_ASN1_TYPE_OID (var_name var) (namelen var) s) (write_value snmp_version var))"

fun write_vars_loop :: "64 word \<Rightarrow> snmp_var list \<Rightarrow> snmp_writer" where
  "write_vars_loop snmp_version [] s = Some (Inr s)"
| "write_vars_loop snmp_version (var # vars) s =
     rd_bind (write_var snmp_version var s) (write_vars_loop snmp_version vars)"

definition snmp_smi_write_vars :: "64 word \<Rightarrow> snmp_var list \<Rightarrow> snmp_writer" where
  "snmp_smi_write_vars snmp_version vars =
     with_header SNMP_SEQUENCE 0 (write_vars_loop snmp_version vars)"

section \<open>Requests and responses\<close>

abbreviation (input) SNMP_PDU_GET :: "8 word" where "SNMP_PDU_GET \<equiv> 0xa0"
abbreviation (input) SNMP_PDU_GETNEXT :: "8 word" where "SNMP_PDU_GETNEXT \<equiv> 0xa1"
abbreviation (input) SNMP_PDU_RESPONSE :: "8 word" where "SNMP_PDU_RESPONSE \<equiv> 0xa2"
abbreviation (input) SNMP_PDU_SET :: "8 word" where "SNMP_PDU_SET \<equiv> 0xa3"
abbreviation (input) SNMP_PDU_TRAP_V1 :: "8 word" where "SNMP_PDU_TRAP_V1 \<equiv> 0xa4"
abbreviation (input) SNMP_PDU_GETBULK :: "8 word" where "SNMP_PDU_GETBULK \<equiv> 0xa5"
abbreviation (input) SNMP_PDU_INFORM :: "8 word" where "SNMP_PDU_INFORM \<equiv> 0xa6"
abbreviation (input) SNMP_PDU_TRAP_V2 :: "8 word" where "SNMP_PDU_TRAP_V2 \<equiv> 0xa7"
abbreviation (input) SNMP_PDU_REPORT :: "8 word" where "SNMP_PDU_REPORT \<equiv> 0xa8"

text \<open>The addresses of the peer and of the cause of a trap are pointers that this code only copies.\<close>

record snmp_pdu =
  request_type :: "8 word"
  request_id :: "64 word"
  err_code :: "64 word"
  err_idx :: "64 word"
  non_repeaters :: "64 word"
  max_repetitions :: "64 word"
  varlist :: "snmp_var list"
  varlistlen :: nat
  trap_oid :: "32 word list"
  trap_oidlen :: "32 word"
  trap_cause :: "nat option"
  trap_type :: "32 word"
  trap_systime :: "32 word"

definition snmp_pdu_create :: "8 word \<Rightarrow> snmp_pdu" where
  "snmp_pdu_create type =
     \<lparr>request_type = type, request_id = 0, err_code = 0, err_idx = 0, non_repeaters = 0, max_repetitions = 0,
      varlist = [], varlistlen = 0, trap_oid = [], trap_oidlen = 0, trap_cause = None, trap_type = 0, trap_systime = 0\<rparr>"

definition snmp_pdu_dup :: "snmp_pdu \<Rightarrow> snmp_pdu" where
  "snmp_pdu_dup src =
     (snmp_pdu_create (request_type src))
       \<lparr>request_id := request_id src, err_code := err_code src, err_idx := err_idx src,
        non_repeaters := non_repeaters src, max_repetitions := max_repetitions src, varlist := varlist src,
        trap_oid := trap_oid src, trap_oidlen := trap_oidlen src, trap_cause := trap_cause src,
        trap_type := trap_type src, trap_systime := trap_systime src\<rparr>"

definition not_negative :: "64 word \<Rightarrow> 64 word" where
  "not_negative v = (if sint v < 0 then 0 else v)"

definition snmp_pdu_read :: "snmp_pdu asn1_reader" where
  "snmp_pdu_read s =
     rd_bind (snmp_asn1_read_header s) (\<lambda>((t, len), s).
       (let pdu = snmp_pdu_create t in
        if t = SNMP_PDU_RESPONSE \<or> t = SNMP_PDU_TRAP_V1 \<or> t = SNMP_PDU_TRAP_V2 \<or> t = SNMP_PDU_INFORM \<or> t = SNMP_PDU_REPORT
        then Some (Inl ENOSYS)
        else
          rd_bind (snmp_asn1_read_int 0 s) (\<lambda>((_, v1), s).
          rd_bind (snmp_asn1_read_int 0 s) (\<lambda>((_, v2), s).
          rd_bind (snmp_asn1_read_int 0 s) (\<lambda>((_, v3), s).
            (let pdu = (if t = SNMP_PDU_GETBULK
                        then pdu\<lparr>request_id := v1, non_repeaters := not_negative v2, max_repetitions := not_negative v3\<rparr>
                        else pdu\<lparr>request_id := v1, err_code := v2, err_idx := v3\<rparr>)
             in rd_bind (snmp_smi_read_vars s) (\<lambda>((vars, n), s).
                  Some (Inr (pdu\<lparr>varlist := vars, varlistlen := n\<rparr>, s)))))))))"

definition write_ints :: "64 word \<Rightarrow> 64 word \<Rightarrow> 64 word \<Rightarrow> snmp_writer" where
  "write_ints v1 v2 v3 s =
     rd_bind (Some (snmp_asn1_write_int SNMP_ASN1_TYPE_INTEGER v1 0 s)) (\<lambda>s.
     rd_bind (Some (snmp_asn1_write_int SNMP_ASN1_TYPE_INTEGER v2 0 s)) (\<lambda>s.
       Some (snmp_asn1_write_int SNMP_ASN1_TYPE_INTEGER v3 0 s)))"

definition snmp_pdu_write :: "snmp_pdu \<Rightarrow> 64 word \<Rightarrow> snmp_writer" where
  "snmp_pdu_write pdu snmp_version =
     with_header (request_type pdu) 2 (\<lambda>s.
       if request_type pdu = SNMP_PDU_GETBULK
       then write_ints (request_id pdu) (non_repeaters pdu) (max_repetitions pdu) s
       else rd_bind (write_ints (request_id pdu) (err_code pdu) (err_idx pdu) s)
              (snmp_smi_write_vars snmp_version (varlist pdu)))"

section \<open>Messages\<close>

text \<open>A message of a version that is not supported is counted in the database of the module, \<open>incr\<close>; the result
  of that is only logged.\<close>

definition snmp_msg_read ::
  "('db \<Rightarrow> 'db) \<Rightarrow> 'db \<Rightarrow> bytes \<times> nat \<Rightarrow> ((bytes \<times> nat \<times> 64 word \<times> snmp_pdu) \<times> bytes \<times> nat) result option \<times> 'db" where
  "snmp_msg_read incr db s =
     (case rd_bind (snmp_asn1_read_header s) (\<lambda>((t, len), s).
             if t \<noteq> SNMP_SEQUENCE then Some (Inl EINVAL) else snmp_asn1_read_int 0 s) of
        None \<Rightarrow> (None, db)
      | Some (Inl e) \<Rightarrow> (Some (Inl e), db)
      | Some (Inr ((_, snmp_version), s)) \<Rightarrow>
          (if snmp_version \<noteq> 0 \<and> snmp_version \<noteq> 1 then (Some (Inl ENOSYS), incr db)
           else (rd_bind (snmp_asn1_read_string s) (\<lambda>((t, community, community_len), s).
                   if t \<noteq> SNMP_ASN1_TYPE_OCTETSTRING then Some (Inl EINVAL)
                   else rd_bind (snmp_pdu_read s) (\<lambda>(pdu, s).
                          Some (Inr ((community, community_len, snmp_version, pdu), s)))), db)))"

definition snmp_msg_write :: "bytes option \<Rightarrow> 32 word \<Rightarrow> 64 word \<Rightarrow> snmp_pdu option \<Rightarrow> nat \<Rightarrow> bytes result option" where
  "snmp_msg_write community community_len snmp_version pdu buflen =
     (case (community, pdu) of
        (Some str, Some pdu) \<Rightarrow>
          rd_bind (with_header SNMP_SEQUENCE 0 (\<lambda>s.
            rd_bind (Some (snmp_asn1_write_int SNMP_ASN1_TYPE_INTEGER snmp_version 0 s)) (\<lambda>s.
            rd_bind (snmp_asn1_write_string SNMP_ASN1_TYPE_OCTETSTRING str community_len s)
              (snmp_pdu_write pdu snmp_version))) ([], buflen)) (\<lambda>(out, _). Some (Inr out))
      | _ \<Rightarrow> Some (Inl EINVAL))"

section \<open>Headers of sequences\<close>

definition seq_header :: "8 word \<Rightarrow> nat \<Rightarrow> bytes" where
  "seq_header t n = [t, 0x82, ucast (drop_bit 8 (of_nat n :: 16 word)), ucast (of_nat n :: 16 word)]"

lemma length_seq_header [simp]: "length (seq_header t n) = 4"
  by (simp add: seq_header_def)

lemma ucast_of_nat_16: "ucast (of_nat n :: 32 word) = (of_nat n :: 16 word)"
  by (simp add: unsigned_of_nat word_of_nat_eq_iff)

lemma write_header_unknown:
  "\<lbrakk>flags AND 1 = 0; 4 \<le> room\<rbrakk> \<Longrightarrow>
   snmp_asn1_write_header t (of_nat n) flags (out, room) = Inr (out @ seq_header t n, room - 4)"
  by (auto simp: snmp_asn1_write_header_def asn1_write_type_def asn1_write_len_def write_short_def seq_header_def
      ucast_of_nat_16 numeral_eq_Suc)

lemma with_header_writes:
  assumes "flags AND 1 = 0" "4 \<le> room"
    "\<And>o'. body (out @ o', room - 4) = Some (Inr (out @ o' @ bs, room'))"
  shows "with_header t flags body (out, room) = Some (Inr (out @ seq_header t (length bs) @ bs, room'))"
  using write_header_unknown [OF assms(1,2), of t 0 out] write_header_unknown [OF assms(1,2), of t "length bs" out]
    assms(3) [of "seq_header t 0"]
  by (simp add: with_header_def)

lemma read_seq_header:
  assumes "t \<noteq> 0xff" "n \<le> 0xffff" "n \<le> b"
  shows "snmp_asn1_read_header (seq_header t n @ rest, 4 + b) = Some (Inr ((t, n), rest, b))"
proof -
  let ?l = "of_nat n :: 32 word" and ?bs = "[ucast (drop_bit 8 (of_nat n :: 16 word)), ucast (of_nat n :: 16 word), 0, 0] :: bytes"
  have un: "unat ?l = n" using assms(2) by (simp add: unsigned_of_nat take_bit_nat_eq_self)
  have small: "bit ?l i \<Longrightarrow> i < 16" for i
    using bit_word_small [of ?l 16 i] un assms(2) by (simp add: word_less_nat_alt)
  have c: "(of_nat n :: 16 word) = ucast ?l" by (simp add: ucast_of_nat_16)
  have v: "drop_bit 16 (be32 ?bs) = ?l"
    unfolding c by (rule bit_word_eqI) (auto simp: be32_def bit_ops dest: small)
  have "asn1_read_len (0x82 # take 2 ?bs @ rest, 3 + b) = Some (Inr (?l, rest, b))"
    using v by (simp add: asn1_read_len_def Let_def replicate_low)
  then show ?thesis using assms un
    by (simp add: snmp_asn1_read_header_def asn1_read_type_def seq_header_def SNMP_ASN1_MAX_OBJECT_LEN_def)
qed


section \<open>Variables that are read back\<close>

text \<open>A variable with a name that can be read back, and without a value or with a text: the ones that requests
  carry. \<open>var_read\<close> is what the reader makes of it.\<close>

definition the_name :: "snmp_var \<Rightarrow> 32 word list" where
  "the_name v = take (namelen v) (var_name v)"

definition the_text :: "snmp_var \<Rightarrow> bytes" where
  "the_text v = (case var_value v of VString mem \<Rightarrow> take (unat (valuelen v)) mem | _ \<Rightarrow> [])"

definition var_ok :: "snmp_var \<Rightarrow> bool" where
  "var_ok v \<longleftrightarrow> oid_ok (the_name v) \<and> length (the_name v) = namelen v \<and>
     (smi_type v = SNMP_SMI_NULL \<or>
      (smi_type v = SNMP_SMI_STRING \<or> smi_type v = SNMP_SMI_OPAQUE) \<and>
      (case var_value v of VString mem \<Rightarrow> unat (valuelen v) \<le> length mem | _ \<Rightarrow> False) \<and>
      length (the_text v) \<le> 0xffff \<and> 0 \<notin> set (the_text v))"

definition value_bytes :: "snmp_var \<Rightarrow> bytes" where
  "value_bytes v = (if smi_type v = SNMP_SMI_NULL then [5, 0] else string_object (smi_type v) (the_text v))"

definition var_content :: "snmp_var \<Rightarrow> bytes" where
  "var_content v = oid_object SNMP_ASN1_TYPE_OID (the_name v) @ value_bytes v"

definition var_bytes :: "snmp_var \<Rightarrow> bytes" where
  "var_bytes v = seq_header SNMP_SEQUENCE (length (var_content v)) @ var_content v"

definition var_read :: "snmp_var \<Rightarrow> snmp_var" where
  "var_read v =
     \<lparr>var_name = the_name v @ replicate (SNMP_SMI_MAX_NAMELEN - namelen v) 0, namelen = namelen v, smi_type = smi_type v,
      var_value = (if smi_type v = SNMP_SMI_NULL then NoValue else VString (the_text v @ [0])),
      valuelen = (if smi_type v = SNMP_SMI_NULL then 0 else valuelen v)\<rparr>"

definition var_room :: "snmp_var \<Rightarrow> nat" where
  "var_room v = length (the_text v) + 49"

lemma text_len: "\<lbrakk>var_ok v; smi_type v \<noteq> SNMP_SMI_NULL\<rbrakk> \<Longrightarrow> valuelen v = of_nat (length (the_text v))"
  by (auto simp: var_ok_def the_text_def split: snmp_value.splits)

lemma length_value_bytes: "length (value_bytes v) \<le> length (the_text v) + 4"
  using length_string_object [of "smi_type v" "the_text v"] by (simp add: value_bytes_def)

lemma length_var_bytes: "var_ok v \<Longrightarrow> length (var_bytes v) \<le> var_room v"
  using length_value_bytes [of v] length_oid_object [of "the_name v" 6]
  by (simp add: var_bytes_def var_content_def var_room_def var_ok_def)

lemma write_value_writes:
  assumes "var_ok v" "length (the_text v) + 4 \<le> room"
  shows "write_value ver v (out, room) = Some (Inr (out @ value_bytes v, room - length (value_bytes v)))"
proof (cases "smi_type v = SNMP_SMI_NULL")
  case True
  have "snmp_asn1_write_null 5 (out, room) = Inr (out @ [5, 0], room - 2)"
    using assms(2) write_header_small [of 1 0 room 5 out] by (simp add: snmp_asn1_write_null_def)
  then show ?thesis using True by (simp add: write_value_def value_bytes_def)
next
  case False
  then obtain mem where mem: "var_value v = VString mem" "unat (valuelen v) \<le> length mem"
    and t: "smi_type v = SNMP_SMI_STRING \<or> smi_type v = SNMP_SMI_OPAQUE"
    using assms(1) by (auto simp: var_ok_def split: snmp_value.splits)
  have "mem = the_text v @ drop (unat (valuelen v)) mem" by (simp add: the_text_def mem)
  then have "snmp_asn1_write_string (smi_type v) mem (valuelen v) (out, room) =
      Some (Inr (out @ value_bytes v, room - length (value_bytes v)))"
    using write_string_object [of "the_text v" room "smi_type v" "drop (unat (valuelen v)) mem" out] assms False
      text_len [OF assms(1) False]
    by (simp add: value_bytes_def var_ok_def)
  then show ?thesis using t mem(1) by (auto simp: write_value_def)
qed

lemma write_var_writes:
  assumes "var_ok v" "var_room v \<le> room"
  shows "write_var ver v (out, room) = Some (Inr (out @ var_bytes v, room - length (var_bytes v)))"
proof -
  let ?o = "oid_object SNMP_ASN1_TYPE_OID (the_name v)"
  have ok: "oid_ok (the_name v)" "length (the_name v) = namelen v" using assms(1) by (simp_all add: var_ok_def)
  have lo: "length ?o \<le> 41" using length_oid_object [OF ok(1)] .
  have "rd_bind (snmp_asn1_write_oid 6 (var_name v) (namelen v) (out @ o', room - 4)) (write_value ver v) =
      Some (Inr (out @ o' @ var_content v, room - 4 - length (var_content v)))" for o'
  proof -
    have r: "41 \<le> room - 4" "length (the_text v) + 4 \<le> room - 4 - length ?o" using assms(2) lo by (simp_all add: var_room_def)
    have w: "snmp_asn1_write_oid 6 (var_name v) (namelen v) (out @ o', room - 4) =
        Some (Inr ((out @ o') @ ?o, room - 4 - length ?o))"
      by (rule write_oid_object [OF ok(1) r(1)]) (simp_all add: the_name_def [symmetric] ok(2))
    show ?thesis unfolding w using write_value_writes [OF assms(1) r(2), of ver "(out @ o') @ ?o"] by (simp add: var_content_def)
  qed
  then show ?thesis
    using with_header_writes [of 0 room "\<lambda>s. rd_bind (snmp_asn1_write_oid 6 (var_name v) (namelen v) s) (write_value ver v)"
        out "var_content v" "room - 4 - length (var_content v)" SNMP_SEQUENCE] assms(2)
    by (simp add: write_var_def var_bytes_def var_room_def)
qed

lemma write_vars_loop_writes:
  "\<lbrakk>\<forall>v \<in> set vs. var_ok v; sum_list (map var_room vs) \<le> room\<rbrakk> \<Longrightarrow>
   write_vars_loop ver vs (out, room) =
     Some (Inr (out @ concat (map var_bytes vs), room - length (concat (map var_bytes vs))))"
proof (induction vs arbitrary: out room)
  case (Cons v vs)
  then have "length (var_bytes v) \<le> var_room v" using length_var_bytes by simp
  then show ?case using Cons write_var_writes [of v room ver out] by simp
qed simp


lemma read_string_header:
  assumes "t \<noteq> 0xff" "length str \<le> 0xffff" "length str \<le> b"
  shows "snmp_asn1_read_header (string_object t str @ rest, Suc (length (len_bytes (of_nat (length str))) + b)) =
     Some (Inr ((t, length str), str @ rest, b))"
proof -
  let ?l = "of_nat (length str) :: 32 word"
  have un: "unat ?l = length str" using assms(2) by (simp add: unsigned_of_nat take_bit_nat_eq_self)
  have "asn1_read_len (len_bytes ?l @ str @ rest, length (len_bytes ?l) + b) = Some (Inr (?l, str @ rest, b))"
    using read_len_len_bytes [of ?l "length (len_bytes ?l) + b" "str @ rest"] un assms(2) by (simp add: word_le_nat_alt)
  then show ?thesis using assms un
    by (simp add: snmp_asn1_read_header_def asn1_read_type_def string_object_def SNMP_ASN1_MAX_OBJECT_LEN_def)
qed

text \<open>The look at the header of the value, and the value.\<close>

lemma read_value_header:
  assumes "var_ok v"
  shows "\<exists>s'. snmp_asn1_read_header (value_bytes v @ rest, length (value_bytes v) + k) =
     Some (Inr ((smi_type v, if smi_type v = SNMP_SMI_NULL then 0 else length (the_text v)), s'))"
proof (cases "smi_type v = SNMP_SMI_NULL")
  case True
  have "asn1_read_len (0 # rest, Suc k) = Some (Inr (0, rest, k))" using read_len_small [of 0 rest k] by simp
  then show ?thesis using True
    by (simp add: value_bytes_def snmp_asn1_read_header_def asn1_read_type_def)
next
  case False
  then have t: "smi_type v \<noteq> 0xff" "length (the_text v) \<le> 0xffff" using assms by (auto simp: var_ok_def)
  then show ?thesis
    using False read_string_header [OF t, of "length (the_text v) + k" rest]
    by (simp add: value_bytes_def string_object_def add.assoc)
qed

lemma read_value_written:
  assumes ok: "var_ok v" and var: "smi_type var = smi_type v" "var_value var = NoValue"
    "smi_type v = SNMP_SMI_NULL \<longrightarrow> valuelen var = 0"
  shows "read_value var (value_bytes v @ c # rest, length (value_bytes v) + k) =
     Some (Inr (var\<lparr>var_value := var_value (var_read v), valuelen := valuelen (var_read v)\<rparr>, c # rest, k))"
proof (cases "smi_type v = SNMP_SMI_NULL")
  case True
  have "asn1_read_len (0 # c # rest, Suc k) = Some (Inr (0, c # rest, k))" using read_len_small [of 0 "c # rest" k] by simp
  then have "snmp_asn1_read_null (value_bytes v @ c # rest, length (value_bytes v) + k) = Some (Inr (5, c # rest, k))"
    using True by (simp add: snmp_asn1_read_null_def asn1_read_type_def value_bytes_def)
  then show ?thesis using True var by (simp add: read_value_def var_read_def)
next
  case False
  have t: "smi_type v = SNMP_SMI_STRING \<or> smi_type v = SNMP_SMI_OPAQUE" "length (the_text v) \<le> 0xffff"
    "0 \<notin> set (the_text v)" using ok False by (auto simp: var_ok_def)
  have "smi_type v AND 4 \<noteq> 0" using t(1) by auto
  then have "snmp_asn1_read_string (value_bytes v @ c # rest, length (value_bytes v) + k) =
      Some (Inr ((smi_type v, the_text v, length (the_text v)), c # rest, k))"
    using read_string_written [of "smi_type v" "the_text v" c rest k] t False by (simp add: value_bytes_def)
  then show ?thesis using False var t(1) text_len [OF ok False] by (auto simp: read_value_def var_read_def)
qed

lemma read_var_written:
  assumes ok: "var_ok v" and len: "length (var_content v) \<le> 0xffff"
  shows "read_var (var_bytes v @ c # rest, length (var_bytes v) + k) = Some (Inr (var_read v, c # rest, k))"
proof -
  let ?n = "length (var_content v)" and ?o = "oid_object 6 (the_name v)" and ?vb = "value_bytes v"
  have oid: "oid_ok (the_name v)" "length (the_name v) = namelen v" using ok by (simp_all add: var_ok_def)
  have n: "namelen v \<le> 14" using oid by (simp add: oid_ok_def SNMP_MIB_MAX_OIDLEN_def)
  have h: "snmp_asn1_read_header (var_bytes v @ c # rest, length (var_bytes v) + k) =
      Some (Inr ((0x30, ?n), var_content v @ c # rest, ?n + k))"
    using read_seq_header [of "0x30" ?n "?n + k" "var_content v @ c # rest"] len by (simp add: var_bytes_def add.assoc)
  have o1: "snmp_asn1_read_oid (replicate 64 0) 64 (var_content v @ c # rest, ?n + k) =
      Some (Inr ((6, the_name v @ replicate (64 - namelen v) 0, namelen v), ?vb @ c # rest, length ?vb + k))"
    using read_oid_written [of 6 "the_name v" "replicate 64 0" 64 "?vb @ c # rest" "length ?vb + k"] oid n
    by (simp add: var_content_def add.assoc)
  obtain s' where p: "snmp_asn1_read_header (?vb @ c # rest, length ?vb + k) =
      Some (Inr ((smi_type v, if smi_type v = SNMP_SMI_NULL then 0 else length (the_text v)), s'))"
    using read_value_header [OF ok] by blast
  define var where "var = (snmp_smi_alloc_var None 64)\<lparr>var_name := the_name v @ replicate (64 - namelen v) 0,
     namelen := namelen v, smi_type := smi_type v,
     valuelen := of_nat (if smi_type v = SNMP_SMI_NULL then 0 else length (the_text v))\<rparr>"
  have "read_value var (?vb @ c # rest, length ?vb + k) =
     Some (Inr (var\<lparr>var_value := var_value (var_read v), valuelen := valuelen (var_read v)\<rparr>, c # rest, k))"
    by (rule read_value_written [OF ok]) (simp_all add: var_def snmp_smi_alloc_var_def)
  moreover have "var\<lparr>var_value := var_value (var_read v), valuelen := valuelen (var_read v)\<rparr> = var_read v"
    by (simp add: var_def var_read_def snmp_smi_alloc_var_def SNMP_SMI_MAX_NAMELEN_def)
  ultimately have val: "read_value var (?vb @ c # rest, length ?vb + k) = Some (Inr (var_read v, c # rest, k))" by simp
  show ?thesis
    unfolding read_var_def h rd_bind.simps prod.case
    using o1 p val by (simp add: Let_def var_def snmp_smi_alloc_var_def SNMP_SMI_MAX_NAMELEN_def)
qed

lemma read_vars_loop_written:
  "\<lbrakk>\<forall>v \<in> set vs. var_ok v \<and> length (var_content v) \<le> 0xffff\<rbrakk> \<Longrightarrow>
   read_vars_loop acc (concat (map var_bytes vs) @ c # rest, length (concat (map var_bytes vs))) =
     Some (Inr (acc @ map var_read vs, c # rest, 0))"
proof (induction vs arbitrary: acc)
  case Nil
  then show ?case by (subst read_vars_loop.simps) simp
next
  case (Cons v vs)
  let ?m = "concat (map var_bytes vs)"
  obtain x xs where x: "?m @ c # rest = x # xs" by (cases "?m @ c # rest") auto
  have r: "read_var (var_bytes v @ ?m @ c # rest, length (var_bytes v) + length ?m) =
      Some (Inr (var_read v, ?m @ c # rest, length ?m))"
    using read_var_written [of v x xs "length ?m"] Cons.prems unfolding x by simp
  have "length (var_bytes v) \<noteq> 0" by (simp add: var_bytes_def)
  then show ?case using r Cons.IH [of "acc @ [var_read v]"] Cons.prems
    by (subst read_vars_loop.simps) simp
qed


section \<open>Messages that are read back\<close>

text \<open>The bytes of a message around the bytes \<open>vb\<close> of its variables.\<close>

definition pdu_content :: "snmp_pdu \<Rightarrow> bytes \<Rightarrow> bytes" where
  "pdu_content pdu vb =
     int_object 2 (request_id pdu) @ int_object 2 (err_code pdu) @ int_object 2 (err_idx pdu) @
     seq_header SNMP_SEQUENCE (length vb) @ vb"

definition msg_content :: "bytes \<Rightarrow> 64 word \<Rightarrow> snmp_pdu \<Rightarrow> bytes \<Rightarrow> bytes" where
  "msg_content community ver pdu vb =
     int_object 2 ver @ string_object 4 community @
     seq_header (request_type pdu) (length (pdu_content pdu vb)) @ pdu_content pdu vb"

definition msg_bytes :: "bytes \<Rightarrow> 64 word \<Rightarrow> snmp_pdu \<Rightarrow> bytes \<Rightarrow> bytes" where
  "msg_bytes community ver pdu vb =
     seq_header SNMP_SEQUENCE (length (msg_content community ver pdu vb)) @ msg_content community ver pdu vb"

lemma length_pdu_content: "length (pdu_content pdu vb) \<le> length vb + 34"
  using length_int_object [of 2 "request_id pdu"] length_int_object [of 2 "err_code pdu"] length_int_object [of 2 "err_idx pdu"]
  by (simp add: pdu_content_def)

lemma length_msg_content: "length (msg_content community ver pdu vb) \<le> length community + length vb + 52"
  using length_pdu_content [of pdu vb] length_int_object [of 2 ver] length_string_object [of 4 community]
  by (simp add: msg_content_def)

lemma write_ints_writes:
  assumes "30 \<le> room"
  shows "write_ints a b c (out, room) = Some (Inr (out @ int_object 2 a @ int_object 2 b @ int_object 2 c,
     room - length (int_object 2 a @ int_object 2 b @ int_object 2 c)))"
  using assms length_int_object [of 2 a] length_int_object [of 2 b] length_int_object [of 2 c]
  by (simp add: write_ints_def write_int_object)

text \<open>What the writer does when the variables are written as \<open>vb\<close>, into any buffer with the room \<open>r\<close>.\<close>

lemma snmp_pdu_write_writes:
  assumes vars: "\<And>out room. r \<le> room \<Longrightarrow>
      write_vars_loop ver (varlist pdu) (out, room) = Some (Inr (out @ vb, room - length vb))"
    and t: "request_type pdu \<noteq> SNMP_PDU_GETBULK" and room: "r + 38 \<le> room"
  shows "snmp_pdu_write pdu ver (out, room) =
     Some (Inr (out @ seq_header (request_type pdu) (length (pdu_content pdu vb)) @ pdu_content pdu vb,
       room - 4 - length (pdu_content pdu vb)))"
proof -
  let ?i = "int_object 2 (request_id pdu) @ int_object 2 (err_code pdu) @ int_object 2 (err_idx pdu)"
  have li: "length ?i \<le> 30"
    using length_int_object [of 2 "request_id pdu"] length_int_object [of 2 "err_code pdu"] length_int_object [of 2 "err_idx pdu"]
    by simp
  have w: "snmp_smi_write_vars ver (varlist pdu) (out', room - 4 - length ?i) =
      Some (Inr (out' @ seq_header SNMP_SEQUENCE (length vb) @ vb, room - 4 - length ?i - 4 - length vb))" for out'
    unfolding snmp_smi_write_vars_def
    by (rule with_header_writes) (use room li vars in auto)
  have "rd_bind (write_ints (request_id pdu) (err_code pdu) (err_idx pdu) (out @ o', room - 4))
        (snmp_smi_write_vars ver (varlist pdu)) =
      Some (Inr (out @ o' @ pdu_content pdu vb, room - 4 - length (pdu_content pdu vb)))" for o'
    using write_ints_writes [of "room - 4" "request_id pdu" "err_code pdu" "err_idx pdu" "out @ o'"] room w [of "out @ o' @ ?i"]
    by (simp add: pdu_content_def)
  then show ?thesis unfolding snmp_pdu_write_def using t room
    by (intro with_header_writes) simp_all
qed

lemma snmp_msg_write_writes:
  assumes vars: "\<And>out room. r \<le> room \<Longrightarrow>
      write_vars_loop ver (varlist pdu) (out, room) = Some (Inr (out @ vb, room - length vb))"
    and t: "request_type pdu \<noteq> SNMP_PDU_GETBULK"
    and len: "length community \<le> 0xffff" and room: "length community + r + 56 \<le> buflen"
  shows "snmp_msg_write (Some (community @ mem)) (of_nat (length community)) ver (Some pdu) buflen =
     Some (Inr (msg_bytes community ver pdu vb))"
proof -
  let ?i = "int_object 2 ver" and ?s = "string_object 4 community"
  have l: "length ?i \<le> 10" "length ?s \<le> length community + 4" by (rule length_int_object, rule length_string_object)
  have "rd_bind (Some (snmp_asn1_write_int 2 ver 0 (o', buflen - 4))) (\<lambda>s.
      rd_bind (snmp_asn1_write_string 4 (community @ mem) (of_nat (length community)) s) (snmp_pdu_write pdu ver)) =
      Some (Inr (o' @ msg_content community ver pdu vb, buflen - 4 - length (msg_content community ver pdu vb)))" for o'
  proof -
    have "write_vars_loop ver (varlist pdu) (out, room) = Some (Inr (out @ vb, room - length vb))" if "r \<le> room" for out room
      by (rule vars [OF that])
    then have "snmp_pdu_write pdu ver (o' @ ?i @ ?s, buflen - 4 - length ?i - length ?s) =
       Some (Inr ((o' @ ?i @ ?s) @ seq_header (request_type pdu) (length (pdu_content pdu vb)) @ pdu_content pdu vb,
         buflen - 4 - length ?i - length ?s - 4 - length (pdu_content pdu vb)))"
      by (rule snmp_pdu_write_writes) (use t room l in auto)
    then show ?thesis
      using write_int_object [of "buflen - 4" 2 ver 0 o'] write_string_object [OF len, of "buflen - 4 - length ?i" 4 mem "o' @ ?i"]
        room l
      by (simp add: msg_content_def)
  qed
  then have "with_header SNMP_SEQUENCE 0 (\<lambda>s. rd_bind (Some (snmp_asn1_write_int 2 ver 0 s)) (\<lambda>s.
      rd_bind (snmp_asn1_write_string 4 (community @ mem) (of_nat (length community)) s) (snmp_pdu_write pdu ver))) ([], buflen) =
      Some (Inr ([] @ msg_bytes community ver pdu vb, buflen - 4 - length (msg_content community ver pdu vb)))"
    unfolding msg_bytes_def by (intro with_header_writes) (use room in auto)
  then show ?thesis by (simp add: snmp_msg_write_def)
qed


definition pdu_read :: "snmp_pdu \<Rightarrow> snmp_var list \<Rightarrow> snmp_pdu" where
  "pdu_read pdu vars =
     (snmp_pdu_create (request_type pdu))
       \<lparr>request_id := request_id pdu, err_code := err_code pdu, err_idx := err_idx pdu,
        varlist := vars, varlistlen := length vars\<rparr>"

lemma snmp_pdu_read_written:
  assumes t: "request_type pdu = SNMP_PDU_GET \<or> request_type pdu = SNMP_PDU_GETNEXT \<or> request_type pdu = SNMP_PDU_SET"
    and len: "length vb + 34 \<le> 0xffff"
  shows "snmp_pdu_read (seq_header (request_type pdu) (length (pdu_content pdu vb)) @ pdu_content pdu vb @ rest,
       4 + length (pdu_content pdu vb)) =
     rd_bind (read_vars_loop [] (vb @ rest, length vb)) (\<lambda>(vars, s). Some (Inr (pdu_read pdu vars, s)))"
proof -
  let ?a = "int_object 2 (request_id pdu)" and ?b = "int_object 2 (err_code pdu)" and ?c = "int_object 2 (err_idx pdu)"
  define v where "v = seq_header SNMP_SEQUENCE (length vb) @ vb"
  have t': "request_type pdu \<noteq> 0xff" using t by auto
  have lp: "length (pdu_content pdu vb) \<le> 0xffff" using length_pdu_content [of pdu vb] len by linarith
  have h: "snmp_asn1_read_header (seq_header (request_type pdu) (length (pdu_content pdu vb)) @ pdu_content pdu vb @ rest,
       4 + length (pdu_content pdu vb)) =
     Some (Inr ((request_type pdu, length (pdu_content pdu vb)), pdu_content pdu vb @ rest, length (pdu_content pdu vb)))"
    by (rule read_seq_header [OF t' lp]) simp
  have r1: "snmp_asn1_read_int 0 (pdu_content pdu vb @ rest, length (pdu_content pdu vb)) =
      Some (Inr ((2, request_id pdu), ?b @ ?c @ v @ rest, length ?b + (length ?c + length v)))"
    using read_int_written [of 2 0 "request_id pdu" "?b @ ?c @ v @ rest" "length ?b + (length ?c + length v)"]
    by (simp add: pdu_content_def v_def)
  have r2: "snmp_asn1_read_int 0 (?b @ ?c @ v @ rest, length ?b + (length ?c + length v)) =
      Some (Inr ((2, err_code pdu), ?c @ v @ rest, length ?c + length v))"
    by (rule read_int_written) simp
  have r3: "snmp_asn1_read_int 0 (?c @ v @ rest, length ?c + length v) =
      Some (Inr ((2, err_idx pdu), v @ rest, length v))"
    by (rule read_int_written) simp
  have r4: "snmp_smi_read_vars (v @ rest, length v) =
      rd_bind (read_vars_loop [] (vb @ rest, length vb)) (\<lambda>(vars, s'). Some (Inr ((vars, length vars), s')))"
    using read_seq_header [of SNMP_SEQUENCE "length vb" "length vb" "vb @ rest"] len by (simp add: snmp_smi_read_vars_def v_def)
  have bind2: "rd_bind (rd_bind m (\<lambda>(vars, s'). Some (Inr ((vars, length vars), s')))) (\<lambda>((vars, n), s). Some (Inr (f vars n, s))) =
      rd_bind m (\<lambda>(vars, s). Some (Inr (f vars (length vars), s)))"
    for m :: "(snmp_var list \<times> bytes \<times> nat) result option" and f :: "snmp_var list \<Rightarrow> nat \<Rightarrow> snmp_pdu"
    by (cases "(m, ())" rule: prod.exhaust, cases m, simp, cases "the m") auto
  show ?thesis
    unfolding snmp_pdu_read_def h rd_bind.simps prod.case Let_def
    using t by (auto simp: r1 r2 r3 r4 bind2 pdu_read_def)
qed

lemma snmp_msg_read_written:
  assumes t: "request_type pdu = SNMP_PDU_GET \<or> request_type pdu = SNMP_PDU_GETNEXT \<or> request_type pdu = SNMP_PDU_SET"
    and len: "length community + length vb + 52 \<le> 0xffff" and ver: "ver = 0 \<or> ver = 1" and com: "0 \<notin> set community"
  shows "snmp_msg_read incr db (msg_bytes community ver pdu vb @ rest, length (msg_bytes community ver pdu vb)) =
     (rd_bind (read_vars_loop [] (vb @ rest, length vb)) (\<lambda>(vars, s).
        Some (Inr ((community, length community, ver, pdu_read pdu vars), s))), db)"
proof -
  let ?mc = "msg_content community ver pdu vb" and ?s = "string_object 4 community"
  define p where "p = seq_header (request_type pdu) (length (pdu_content pdu vb)) @ pdu_content pdu vb"
  have lm: "length ?mc \<le> 0xffff" using length_msg_content [of community ver pdu vb] len by linarith
  have h: "snmp_asn1_read_header (msg_bytes community ver pdu vb @ rest, length (msg_bytes community ver pdu vb)) =
      Some (Inr ((0x30, length ?mc), ?mc @ rest, length ?mc))"
    using read_seq_header [of "0x30" "length ?mc" "length ?mc" "?mc @ rest"] lm by (simp add: msg_bytes_def)
  have r1: "snmp_asn1_read_int 0 (?mc @ rest, length ?mc) = Some (Inr ((2, ver), ?s @ p @ rest, length ?s + length p))"
    using read_int_written [of 2 0 ver "?s @ p @ rest" "length ?s + length p"] by (simp add: msg_content_def p_def)
  obtain x xs where x: "p @ rest = x # xs" by (cases "p @ rest") (auto simp: p_def seq_header_def)
  have r2: "snmp_asn1_read_string (?s @ p @ rest, length ?s + length p) =
      Some (Inr ((4, community, length community), p @ rest, length p))"
    unfolding x by (rule read_string_written) (use len com in auto)
  have r3: "snmp_pdu_read (p @ rest, length p) =
      rd_bind (read_vars_loop [] (vb @ rest, length vb)) (\<lambda>(vars, s). Some (Inr (pdu_read pdu vars, s)))"
    using snmp_pdu_read_written [OF t, of vb rest] len by (simp add: p_def)
  have bind2: "rd_bind (rd_bind m (\<lambda>(vars, s). Some (Inr (f vars, s)))) (\<lambda>(pdu, s). Some (Inr (g pdu, s))) =
      rd_bind m (\<lambda>(vars, s). Some (Inr (g (f vars), s)))"
    for m :: "(snmp_var list \<times> bytes \<times> nat) result option" and f :: "snmp_var list \<Rightarrow> snmp_pdu"
      and g :: "snmp_pdu \<Rightarrow> bytes \<times> nat \<times> 64 word \<times> snmp_pdu"
    by (cases "(m, ())" rule: prod.exhaust, cases m, simp, cases "the m") auto
  show ?thesis
    unfolding snmp_msg_read_def h rd_bind.simps prod.case
    using ver by (auto simp: r1 r2 r3 bind2)
qed


lemma var_content_small: "\<lbrakk>var_ok v; var_room v \<le> n\<rbrakk> \<Longrightarrow> length (var_content v) \<le> n"
  using length_var_bytes [of v] by (simp add: var_bytes_def)

lemma length_vars_bytes:
  "\<forall>v \<in> set vs. var_ok v \<Longrightarrow> length (concat (map var_bytes vs)) \<le> sum_list (map var_room vs)"
  by (induction vs) (auto dest: length_var_bytes intro: add_mono)


text \<open>For the witnesses: the variable \<open>sysUpTime\<close>, once without a value.\<close>

definition null_var :: snmp_var where
  "null_var = snmp_smi_alloc_var (Some [1, 3, 6, 1, 2, 1, 1, 3, 0]) 9"

definition get_pdu :: "snmp_var list \<Rightarrow> snmp_pdu" where
  "get_pdu vars = (snmp_pdu_create SNMP_PDU_GET)\<lparr>request_id := 77, varlist := vars, varlistlen := length vars\<rparr>"

lemma the_name_null_var [simp]: "the_name null_var = [1, 3, 6, 1, 2, 1, 1, 3, 0]"
  by (simp add: the_name_def null_var_def snmp_smi_alloc_var_def)

lemma null_var_ok: "var_ok null_var" "var_room null_var = 49"
proof -
  show "var_room null_var = 49" by (simp add: var_room_def the_text_def null_var_def snmp_smi_alloc_var_def)
  have "oid_ok [1, 3, 6, 1, 2, 1, 1, 3, 0]" by (simp add: oid_ok_def SNMP_MIB_MAX_OIDLEN_def SNMP_ASN1_OID_MAX_ID_def)
  then show "var_ok null_var" by (simp add: var_ok_def) (simp add: null_var_def snmp_smi_alloc_var_def)
qed


section \<open>What the reader cannot read\<close>

definition int_var_content :: "snmp_var \<Rightarrow> 64 word \<Rightarrow> bytes" where
  "int_var_content v i = oid_object SNMP_ASN1_TYPE_OID (the_name v) @ int_object SNMP_SMI_INTEGER i"

lemma write_int_var:
  assumes v: "smi_type v = SNMP_SMI_INTEGER" "var_value v = VInteger i" "oid_ok (the_name v)" "length (the_name v) = namelen v"
    and room: "55 \<le> room"
  shows "write_var ver v (out, room) =
     Some (Inr (out @ seq_header SNMP_SEQUENCE (length (int_var_content v i)) @ int_var_content v i,
       room - 4 - length (int_var_content v i)))"
proof -
  let ?o = "oid_object 6 (the_name v)"
  have lo: "length ?o \<le> 41" using length_oid_object [OF v(3)] .
  have "rd_bind (snmp_asn1_write_oid 6 (var_name v) (namelen v) (out @ o', room - 4)) (write_value ver v) =
      Some (Inr (out @ o' @ int_var_content v i, room - 4 - length (int_var_content v i)))" for o'
  proof -
    have r: "41 \<le> room - 4" "10 \<le> room - 4 - length ?o" using room lo by simp_all
    have w: "snmp_asn1_write_oid 6 (var_name v) (namelen v) (out @ o', room - 4) =
        Some (Inr ((out @ o') @ ?o, room - 4 - length ?o))"
      by (rule write_oid_object [OF v(3) r(1)]) (simp_all add: the_name_def [symmetric] v(4))
    show ?thesis unfolding w using write_int_object [OF r(2), of 2 i 0 "(out @ o') @ ?o"] v(1,2)
      by (simp add: write_value_def int_var_content_def)
  qed
  then show ?thesis unfolding write_var_def using room by (intro with_header_writes) simp_all
qed

lemma read_int_header:
  "\<exists>n s'. snmp_asn1_read_header (int_object 2 i @ rest, length (int_object 2 i) + k) = Some (Inr ((2, n), s'))"
proof -
  obtain n where n: "int_trim 8 i = (n, push_bit (8 * (8 - n)) i)" "n \<le> 8" by (rule int_trim_8)
  have un: "unat (of_nat n :: 32 word) = n" using n(2) by (simp add: unsigned_of_nat take_bit_nat_eq_self)
  have "asn1_read_len (of_nat n # low_bytes n i @ rest, Suc (n + k)) = Some (Inr (of_nat n, low_bytes n i @ rest, n + k))"
    using read_len_small [of n "low_bytes n i @ rest" "n + k"] n(2) by simp
  then show ?thesis using n un
    by (simp add: snmp_asn1_read_header_def asn1_read_type_def int_object_def SNMP_ASN1_MAX_OBJECT_LEN_def)
qed

lemma read_int_var:
  assumes v: "oid_ok (the_name v)" "length (the_name v) = namelen v"
  shows "read_var (seq_header SNMP_SEQUENCE (length (int_var_content v i)) @ int_var_content v i @ rest,
     4 + length (int_var_content v i)) = None"
proof -
  let ?c = "int_var_content v i" and ?i = "int_object 2 i"
  have n: "namelen v \<le> 14" using v by (simp add: oid_ok_def SNMP_MIB_MAX_OIDLEN_def)
  have "length ?c \<le> 0xffff"
    using length_oid_object [OF v(1), of 6] length_int_object [of 2 i] by (simp add: int_var_content_def)
  then have h: "snmp_asn1_read_header (seq_header SNMP_SEQUENCE (length ?c) @ ?c @ rest, 4 + length ?c) =
      Some (Inr ((0x30, length ?c), ?c @ rest, length ?c))"
    by (intro read_seq_header) simp_all
  have o1: "snmp_asn1_read_oid (replicate 64 0) 64 (?c @ rest, length ?c) =
      Some (Inr ((6, the_name v @ replicate (64 - namelen v) 0, namelen v), ?i @ rest, length ?i))"
    using read_oid_written [of 6 "the_name v" "replicate 64 0" 64 "?i @ rest" "length ?i"] v n
    by (simp add: int_var_content_def)
  obtain m s' where p: "snmp_asn1_read_header (?i @ rest, length ?i) = Some (Inr ((2, m), s'))"
    using read_int_header [of i rest 0] by auto
  have "snmp_asn1_read_int 0 (?i @ rest, length ?i) = Some (Inr ((2, i), rest, 0))"
    using read_int_written [of 2 0 i rest 0] by simp
  then show ?thesis
    unfolding read_var_def h rd_bind.simps prod.case using o1 p
    by (simp add: Let_def snmp_smi_alloc_var_def SNMP_SMI_MAX_NAMELEN_def read_value_def)
qed

text \<open>C39. An integer is stored through \<open>value.integer\<close>, which is still \<open>NULL\<close>. The message that the writer makes of a
  request with one integer variable crashes the reader, which runs before the community is checked.\<close>

theorem snmp_msg_integer_faults:
  assumes t: "request_type pdu = SNMP_PDU_GET \<or> request_type pdu = SNMP_PDU_GETNEXT \<or> request_type pdu = SNMP_PDU_SET"
    and var: "varlist pdu = [v]" "smi_type v = SNMP_SMI_INTEGER" "var_value v = VInteger i"
      "oid_ok (the_name v)" "length (the_name v) = namelen v"
    and com: "0 \<notin> set community" and ver: "ver = 0 \<or> ver = 1" and len: "length community + 111 \<le> min buflen 0xffff"
  shows "\<exists>out. snmp_msg_write (Some community) (of_nat (length community)) ver (Some pdu) buflen = Some (Inr out) \<and>
     fst (snmp_msg_read incr db (out @ rest, length out)) = None"
proof -
  let ?c = "int_var_content v i" and ?vb = "seq_header SNMP_SEQUENCE (length (int_var_content v i)) @ int_var_content v i"
  have lc: "length ?c \<le> 51"
    using length_oid_object [OF var(4), of 6] length_int_object [of 2 i] by (simp add: int_var_content_def)
  have w: "snmp_msg_write (Some (community @ [])) (of_nat (length community)) ver (Some pdu) buflen =
      Some (Inr (msg_bytes community ver pdu ?vb))"
    by (rule snmp_msg_write_writes [where r = 55]) (use write_int_var [OF var(2-5)] var(1) t len in auto)
  have "read_vars_loop [] (?vb @ rest, length ?vb) = None"
    using read_int_var [OF var(4,5), of i rest] by (subst read_vars_loop.simps) simp
  then have "fst (snmp_msg_read incr db (msg_bytes community ver pdu ?vb @ rest, length (msg_bytes community ver pdu ?vb))) = None"
    using snmp_msg_read_written [OF t _ ver com, of ?vb incr db rest] lc len by simp
  then show ?thesis using w by auto
qed

theorem snmp_msg_integer_faults_witness:
  "\<exists>out. snmp_msg_write (Some [112, 117, 98]) (of_nat (length [112, 117, 98 :: 8 word])) 1
       (Some (get_pdu [null_var\<lparr>smi_type := 2, var_value := VInteger 5\<rparr>])) 4096 = Some (Inr out) \<and>
     fst (snmp_msg_read Suc 0 (out @ [9], length out)) = None"
proof -
  have "the_name (null_var\<lparr>smi_type := 2, var_value := VInteger 5\<rparr>) = [1, 3, 6, 1, 2, 1, 1, 3, 0]"
    using the_name_null_var by (simp add: the_name_def)
  moreover have "namelen null_var = 9" by (simp add: null_var_def snmp_smi_alloc_var_def)
  ultimately show ?thesis
    using null_var_ok(1)
    by (intro snmp_msg_integer_faults [where v = "null_var\<lparr>smi_type := 2, var_value := VInteger 5\<rparr>" and i = 5])
       (simp_all add: get_pdu_def snmp_pdu_create_def var_ok_def)
qed

text \<open>A variable with one of the exceptions instead of a value: its header is looked at but never read, so the next
  round of the loop takes it for a binding and refuses it.\<close>

lemma snmp_exception_refused:
  assumes "read_var s = Some (Inr (var, t # rest, k))" "0 < snd s" "0 < k" "t = 0x80 \<or> t = 0x81 \<or> t = 0x82"
    "snmp_asn1_read_header (t # rest, k) = Some (Inr ((t, 0), s'))"
  shows "read_vars_loop vars s = Some (Inl EINVAL)"
proof -
  have "read_var (t # rest, k) = Some (Inl EINVAL)" using assms(4,5) by (auto simp: read_var_def)
  then have "read_vars_loop (vars @ [var]) (t # rest, k) = Some (Inl EINVAL)"
    using assms(3) by (subst read_vars_loop.simps) simp
  then show ?thesis using assms(1,2) by (subst read_vars_loop.simps) simp
qed

text \<open>The copy of a variable with an object identifier as its value holds a quarter of it, so writing the copy
  reads outside of the copied block.\<close>

theorem snmp_smi_dup_oid_cut:
  assumes "smi_type v = SNMP_SMI_OID" "var_value v = VOid oid" "length oid = unat (valuelen v)"
    "2 \<le> length oid" "length oid \<le> SNMP_MIB_MAX_OIDLEN" "oid ! 0 \<le> 2"
  shows "\<exists>w. snmp_smi_dup_var junk [v] = Some (Inr [w]) \<and> var_value w = VOid (take (length oid div 4) oid) \<and>
     valuelen w = valuelen v \<and> write_value ver w s = None"
proof -
  let ?w = "(snmp_smi_alloc_var (Some (var_name v)) (namelen v))
     \<lparr>smi_type := smi_type v, valuelen := valuelen v, var_value := VOid (take (length oid div 4) oid)\<rparr>"
  have nz: "0 < valuelen v" using assms(3,4) by (auto simp: word_less_nat_alt)
  have "dup_value junk v = Some (Inr (VOid (take (length oid div 4) oid)))"
    using assms(1-3) by (simp add: dup_value_def Let_def)
  then have d: "snmp_smi_dup_var junk [v] = Some (Inr [?w])" using nz by (simp add: Let_def)
  have "oid_combine (take (length oid div 4) oid) (length oid) = None"
    using assms(4-6) by (auto simp: oid_combine_def not_less)
  then have "write_value ver ?w s = None"
    using assms(1,3) by (simp add: write_value_def oid_block_def snmp_asn1_write_oid_def)
  then show ?thesis using d by (intro exI [of _ ?w]) simp
qed

theorem snmp_smi_dup_oid_cut_witness:
  "\<exists>w. snmp_smi_dup_var 0 [null_var\<lparr>smi_type := 6, var_value := VOid [1, 3, 6, 1], valuelen := 4\<rparr>] = Some (Inr [w]) \<and>
     var_value w = VOid (take (length [1, 3, 6, 1 :: 32 word] div 4) [1, 3, 6, 1]) \<and>
     valuelen w = valuelen (null_var\<lparr>smi_type := 6, var_value := VOid [1, 3, 6, 1], valuelen := 4\<rparr>) \<and>
     write_value 1 w ([], 4096) = None"
  by (rule snmp_smi_dup_oid_cut) (simp_all add: SNMP_MIB_MAX_OIDLEN_def)

end
