(* ===== verification/Spec2Isabelle.thy ===== *)
theory Spec2Isabelle
  imports Sets Table_Laws Var Timer_Laws Netacl Expr Cmd Response Data Netio Event Fspath Snmp
begin

text \<open>
  A verification development for the ProFTPD server: the C code under \<open>src/src\<close> that the server and its modules are
  built on, and the wire formats of two contributed modules.

  \<^bold>\<open>The program.\<close> A ProFTPD process reads commands from the control connection (\<open>netio.c\<close>), keeps each one in a
  command record (\<open>cmd.c\<close>) with a table of notes (\<open>table.c\<close>), runs handlers that queue replies (\<open>response.c\<close>),
  moves files over data connections (\<open>data.c\<close>) and works with paths below a virtual root (\<open>fsio.c\<close>). The access
  checks use addresses, rules, classes and expressions (\<open>netaddr.c\<close>, \<open>netacl.c\<close>, \<open>class.c\<close>, \<open>expr.c\<close>); time limits are
  timers on a sorted set (\<open>timers.c\<close> over \<open>sets.c\<close>); modules talk to each other by events and named variables
  (\<open>event.c\<close>, \<open>var.c\<close> over \<open>table.c\<close>). The contributed modules \<open>mod_sftp\<close> and \<open>mod_snmp\<close> read binary messages from
  the network.

  \<^bold>\<open>Conventions.\<close> A call that fails with \<open>errno\<close> is \<open>Inl\<close> of it, a \<open>NULL\<close> argument or result is \<open>None\<close>, and undefined
  behaviour of C (a store through \<open>NULL\<close>, an access outside of a block) or a loop that does not return is an outer
  \<open>None\<close>; \<^theory_text>\<open>Pr_Prelude\<close> has the types and the shared lemmas, \<^theory_text>\<open>C_Lib\<close> the functions of the C library that
  several components call. Definitions have the names of the C functions; a loop or a branch of a function that
  is a definition of its own says so where it stands.

  \<^bold>\<open>Theories, sources and results.\<close>
  \<^item> \<^theory_text>\<open>Sets\<close> (\<open>sets.c\<close>): every operation on the \<open>next\<close> and \<open>prev\<close> pointers of a store. The pointer code
    implements operations on lists; sorted insertion keeps the order; removal undoes insertion; copying is exact.
    The locale \<open>xaset_order\<close> is the contract of a comparison callback, interpreted on the one of the timers.
  \<^item> \<^theory_text>\<open>Table\<close> and \<^theory_text>\<open>Table_Laws\<close> (\<open>table.c\<close>): hash chains, caches, iterators and free lists in a store. Every table
    that the operations can reach is well formed; insertion, removal and lookup implement a list of values per
    key; the locale \<open>table_keys\<close> is the contract of the key comparison, interpreted on the default callbacks.
  \<^item> \<^theory_text>\<open>Var\<close> (\<open>var.c\<close>): named variables over the table, and that what is set is what is got.
  \<^item> \<^theory_text>\<open>Timers\<close> and \<^theory_text>\<open>Timer_Laws\<close> (\<open>timers.c\<close>): the timer lists, the alarm handler and the calls that callbacks
    make. In every reachable state the list is sorted and no timer is lost, each call returns, and an alarm fires
    exactly the timers that are due.
  \<^item> \<^theory_text>\<open>Netaddr\<close>, \<^theory_text>\<open>Netacl\<close> (\<open>netaddr.c\<close>, \<open>netacl.c\<close>, \<open>class.c\<close>): comparison of address prefixes against its
    meaning on numbers; a class that is defined rule by rule matches as its rules say.
  \<^item> \<^theory_text>\<open>Strs\<close> (\<open>str.c\<close>, \<open>lib/sstrncpy.c\<close>), \<^theory_text>\<open>Expr\<close> (\<open>expr.c\<close>): words, tokens, replacement, numbers; expressions of
    users, groups and classes mean what their documentation says, through the locale \<open>expr_loops\<close>, which the six
    evaluation loops instantiate.
  \<^item> \<^theory_text>\<open>Cmd\<close> (\<open>cmd.c\<close>), \<^theory_text>\<open>Response\<close> (\<open>response.c\<close>): the displayed command hides the password; flushed replies are
    read back by the rules of FTP.
  \<^item> \<^theory_text>\<open>Data\<close> (\<open>data.c\<close>), \<^theory_text>\<open>Netio\<close> (\<open>netio.c\<close>): ASCII uploads and downloads translate line ends independently of how the
    network cuts the data; the Telnet line reader implements a reference reader and never leaves its buffer.
  \<^item> \<^theory_text>\<open>Event\<close> (\<open>event.c\<close>): handlers linked in a store, callbacks that use the event system themselves as a stack
    machine. Calls return, registration appends, generation reaches every listener, except in the cases shown.
  \<^item> \<^theory_text>\<open>Fspath\<close> (\<open>fsio.c\<close>): joining, cleaning, tilde expansion and the virtual path. Cleaning normalises, leaves no
    dot components, and the virtual path is the path resolved against the working directory.
  \<^item> \<^theory_text>\<open>Sftp_Msg\<close> (\<open>contrib/mod_sftp/msg.c\<close>): the fields of SSH messages. No reader leaves the buffer, and what is
    written is read back.
  \<^item> \<^theory_text>\<open>Asn1\<close> (\<open>contrib/mod_snmp/asn1.c\<close>), \<^theory_text>\<open>Snmp\<close> (\<open>contrib/mod_snmp/smi.c\<close>, \<open>pdu.c\<close>, \<open>msg.c\<close>): ASN.1 objects and, on top of them,
    variables, requests and messages. Integers, object identifiers, strings and whole requests are read back; an
    integer variable makes the reader store through \<open>NULL\<close>, and a length can lead it behind the packet.

  Lemmas that show a defect of the code say what happens instead of the intended behaviour.

  \<^bold>\<open>Bounds and loops.\<close> Machine integers keep their widths where they can overflow (32-bit hashes and lengths, 64-bit
  \<open>long\<close> and \<open>size_t\<close> as on the usual 64-bit platforms). Loops over linked structures and the alarm handler are partial
  functions whose calls are shown to return in the states the program can reach; loops over data end because the
  data does. The stack machine of the events takes a number of steps, and enough of them are shown to exist. No
  result depends on a chosen amount of fuel.

  \<^bold>\<open>Parameters.\<close> What the code gets from elsewhere is an argument with its documented behaviour as a hypothesis: name
  resolution, \<open>fnmatch\<close>, users and groups, the numbers and curve points of OpenSSL, the network as a list of pieces.

  \<^bold>\<open>Not modelled.\<close> The main loop, process and signal control, sockets, logs and the scoreboard are system calls; the
  authentication, TLS, SQL and LDAP modules and the key exchange of \<open>mod_sftp\<close> wrap libraries that are not part of the
  sources; memory pools are taken as an allocator that does not fail, as \<open>pool.c\<close> ends the process when \<open>malloc\<close> fails.
  The configuration tree (\<open>dirtree.c\<close>, \<open>parser.c\<close>), the symbol tables, the module loader and the command handlers of the
  core modules are logic of their own that has no theory here. Of the modelled files, printing for logs and the
  wrappers of system calls are left out.
\<close>

end
